(* ===== verification/Prelude.thy ===== *)
theory Prelude
  imports Main "HOL-Library.AList" "HOL-Library.Multiset" "HOL-Library.Word"
begin

text \<open>
  What every component shares: the named collections of simplification facts, Go maps as
  association lists, the generic step-system locale, and clock arithmetic.

  A Go \<^verbatim>\<open>map[K]V\<close> is an association list with distinct keys (\<open>gmap_ok\<close>). The
  position of an entry stands for the place at which a \<^verbatim>\<open>range\<close> loop meets it: Go picks an
  arbitrary order, and the theorems of the development hold for every list, hence for every order.
  Reading is \<open>map_of\<close>, writing is \<open>gput\<close>, \<^verbatim>\<open>delete\<close> is \<open>gdel\<close>, and a loop that
  deletes the entries it visits under a condition is a \<open>filter\<close>.
\<close>

named_theorems wf_intros \<open>preservation of the well-formedness invariants\<close>
named_theorems frame_simps \<open>fields an operation does not write\<close>

text \<open>A method that saves at the end passes the resulting state on beside its own results.\<close>

lemma snd_let_pair [simp]: "snd (case p of (e, r) \<Rightarrow> (f e, r)) = snd p"
  by (cases p) simp

subsection \<open>Go maps\<close>

type_synonym ('k, 'v) gmap = "('k \<times> 'v) list"

abbreviation gkeys :: "('k, 'v) gmap \<Rightarrow> 'k list" where
  "gkeys m \<equiv> map fst m"

definition gmap_ok :: "('k, 'v) gmap \<Rightarrow> bool" where
  "gmap_ok m \<longleftrightarrow> distinct (gkeys m)"

definition gput :: "'k \<Rightarrow> 'v \<Rightarrow> ('k, 'v) gmap \<Rightarrow> ('k, 'v) gmap" where
  "gput k v m = AList.update k v m"

definition gdel :: "'k \<Rightarrow> ('k, 'v) gmap \<Rightarrow> ('k, 'v) gmap" where
  "gdel k m = AList.delete k m"

lemma gput_code [code]:
  "gput k v [] = [(k, v)]"
  "gput k v (p # ps) = (if fst p = k then (k, v) # ps else p # gput k v ps)"
  by (simp_all add: gput_def)

lemma gput_simps [simp]:
  "gput k v [] = [(k, v)]"
  "gput k v ((k', v') # ps) = (if k' = k then (k, v) # ps else (k', v') # gput k v ps)"
  by (simp_all add: gput_code)

lemma gdel_simps [simp, code]:
  "gdel k [] = []"
  "gdel k (p # ps) = (if fst p = k then gdel k ps else p # gdel k ps)"
  by (auto simp: gdel_def AList.delete_eq split: prod.splits)

lemma map_of_gput: "map_of (gput k v m) k' = (if k' = k then Some v else map_of m k')"
  by (simp add: gput_def update_conv')

lemma map_of_gdel: "map_of (gdel k m) k' = (if k' = k then None else map_of m k')"
  by (simp add: gdel_def delete_conv')

lemma set_gkeys_gput [simp]: "set (gkeys (gput k v m)) = insert k (set (gkeys m))"
  by (induction m) (auto simp: gput_code)

lemma set_gkeys_gdel [simp]: "set (gkeys (gdel k m)) = set (gkeys m) - {k}"
  by (induction m) auto

lemma fst_image_gput [simp]: "fst ` set (gput k v m) = insert k (fst ` set m)"
  using set_gkeys_gput [of k v m] by simp

lemma fst_image_gdel [simp]: "fst ` set (gdel k m) = fst ` set m - {k}"
  using set_gkeys_gdel [of k m] by simp

lemma gmap_ok_Nil [simp]: "gmap_ok []"
  by (simp add: gmap_ok_def)

lemma gmap_ok_gput [wf_intros]: "gmap_ok m \<Longrightarrow> gmap_ok (gput k v m)"
  by (simp add: gmap_ok_def gput_def distinct_update)

lemma gmap_ok_gdel [wf_intros]: "gmap_ok m \<Longrightarrow> gmap_ok (gdel k m)"
  by (simp add: gmap_ok_def gdel_def distinct_delete)

lemma gmap_ok_filter [wf_intros]: "gmap_ok m \<Longrightarrow> gmap_ok (filter P m)"
  by (simp add: gmap_ok_def distinct_map_filter)

lemma gdel_filter: "gdel k m = filter (\<lambda>p. fst p \<noteq> k) m"
  by (induction m) auto

lemma length_gput:
  "length (gput k v m) = (if k \<in> fst ` set m then length m else Suc (length m))"
  by (induction m) (auto simp: gput_code)

lemma length_gdel_le: "length (gdel k m) \<le> length m"
  by (simp add: gdel_filter)

lemma map_of_in_keys: "(map_of m k = None) = (k \<notin> fst ` set m)"
  by (simp add: map_of_eq_None_iff)

lemma map_of_key: "map_of m k = Some v \<Longrightarrow> k \<in> fst ` set m"
  by (force dest: map_of_SomeD)

lemma gdel_absent: "k \<notin> fst ` set m \<Longrightarrow> gdel k m = m"
  by (induction m) auto

lemma map_of_SomeE [elim]:
  assumes "map_of m k = Some v"
  obtains "(k, v) \<in> set m"
  using assms by (blast dest: map_of_SomeD)

lemma gmap_lookup: "gmap_ok m \<Longrightarrow> (k, v) \<in> set m \<Longrightarrow> map_of m k = Some v"
  by (simp add: gmap_ok_def)

lemma gmap_lookup_iff: "gmap_ok m \<Longrightarrow> map_of m k = Some v \<longleftrightarrow> (k, v) \<in> set m"
  by (simp add: gmap_ok_def)

lemma map_of_filter_Some:
  assumes "gmap_ok m"
  shows "map_of (filter P m) k = (case map_of m k of None \<Rightarrow> None
           | Some v \<Rightarrow> if P (k, v) then Some v else None)"
  using assms by (induction m) (auto simp: gmap_ok_def map_of_eq_None_iff split: option.splits)

lemma set_gput:
  assumes "gmap_ok m"
  shows "set (gput k v m) = {p \<in> set m. fst p \<noteq> k} \<union> {(k, v)}"
  using assms
proof (induction m)
  case (Cons p ps)
  then show ?case by (cases p) (auto simp: gmap_ok_def image_iff)
qed simp

lemma set_gdel: "set (gdel k m) = {p \<in> set m. fst p \<noteq> k}"
  by (auto simp: gdel_filter)

subsection \<open>Sorting by a Go less function\<close>

text \<open>
  \<^verbatim>\<open>sort.Slice\<close> with a comparison function. The library's algorithm is not stable, so its result is
  determined only where the comparison is a strict total order on the elements; \<open>sorted_by_unique\<close>
  says that there every sorting algorithm gives this list.
\<close>

fun insert_by :: "('a \<Rightarrow> 'a \<Rightarrow> bool) \<Rightarrow> 'a \<Rightarrow> 'a list \<Rightarrow> 'a list" where
  "insert_by lt x [] = [x]"
| "insert_by lt x (y # ys) = (if lt y x then y # insert_by lt x ys else x # y # ys)"

fun sort_by :: "('a \<Rightarrow> 'a \<Rightarrow> bool) \<Rightarrow> 'a list \<Rightarrow> 'a list" where
  "sort_by lt [] = []"
| "sort_by lt (x # xs) = insert_by lt x (sort_by lt xs)"

definition strict_total_on :: "'a set \<Rightarrow> ('a \<Rightarrow> 'a \<Rightarrow> bool) \<Rightarrow> bool" where
  "strict_total_on A lt \<longleftrightarrow>
     (\<forall>x\<in>A. \<not> lt x x) \<and>
     (\<forall>x\<in>A. \<forall>y\<in>A. \<forall>z\<in>A. lt x y \<longrightarrow> lt y z \<longrightarrow> lt x z) \<and>
     (\<forall>x\<in>A. \<forall>y\<in>A. x \<noteq> y \<longrightarrow> lt x y \<or> lt y x)"

lemma strict_total_onD:
  assumes "strict_total_on A lt"
  shows "x \<in> A \<Longrightarrow> \<not> lt x x"
    and "x \<in> A \<Longrightarrow> y \<in> A \<Longrightarrow> z \<in> A \<Longrightarrow> lt x y \<Longrightarrow> lt y z \<Longrightarrow> lt x z"
    and "x \<in> A \<Longrightarrow> y \<in> A \<Longrightarrow> x \<noteq> y \<Longrightarrow> lt x y \<or> lt y x"
  using assms unfolding strict_total_on_def by blast+

lemma strict_total_on_subset: "strict_total_on A lt \<Longrightarrow> B \<subseteq> A \<Longrightarrow> strict_total_on B lt"
  unfolding strict_total_on_def by blast

lemma mset_insert_by [simp]: "mset (insert_by lt x xs) = add_mset x (mset xs)"
  by (induction xs) auto

lemma mset_sort_by [simp]: "mset (sort_by lt xs) = mset xs"
  by (induction xs) auto

lemma set_sort_by [simp]: "set (sort_by lt xs) = set xs"
  by (metis mset_sort_by set_mset_mset)

lemma length_sort_by [simp]: "length (sort_by lt xs) = length xs"
  by (metis mset_sort_by size_mset)

lemma sorted_insert_by:
  assumes "strict_total_on A lt" and "insert x (set xs) \<subseteq> A" and "x \<notin> set xs" and "sorted_wrt lt xs"
  shows "sorted_wrt lt (insert_by lt x xs)"
  using assms(2-)
proof (induction xs)
  case (Cons y ys)
  have set_ins: "set (insert_by lt x ys) = insert x (set ys)"
    by (metis mset_insert_by set_mset_add_mset_insert set_mset_mset)
  show ?case
  proof (cases "lt y x")
    case True
    with Cons set_ins show ?thesis by auto
  next
    case False
    have "x \<in> A" "y \<in> A" "x \<noteq> y" using Cons.prems by auto
    with False assms(1) have xy: "lt x y" using strict_total_onD(3) by metis
    have "lt x z" if "z \<in> set ys" for z
      using strict_total_onD(2) [OF assms(1) \<open>x \<in> A\<close> \<open>y \<in> A\<close> _ xy, of z] that Cons.prems by auto
    with xy False Cons.prems show ?thesis by auto
  qed
qed simp

lemma sorted_sort_by:
  assumes "strict_total_on (set xs) lt" and "distinct xs"
  shows "sorted_wrt lt (sort_by lt xs)"
proof -
  have "set ys \<subseteq> set xs \<Longrightarrow> distinct ys \<Longrightarrow> sorted_wrt lt (sort_by lt ys)" for ys
    by (induction ys) (auto intro!: sorted_insert_by [OF assms(1)])
  then show ?thesis using assms(2) by simp
qed

lemma sorted_by_unique:
  assumes "strict_total_on (set xs) lt" and "sorted_wrt lt xs" and "sorted_wrt lt ys"
    and "mset xs = mset ys"
  shows "xs = ys"
  using assms
proof (induction xs arbitrary: ys)
  case (Cons x xs)
  then obtain y ys' where ys: "ys = y # ys'" by (cases ys) auto
  have sets: "set ys = set (x # xs)" using Cons.prems(4) by (metis set_mset_mset)
  have "x = y"
  proof (rule ccontr)
    assume "x \<noteq> y"
    with sets ys have "x \<in> set ys'" "y \<in> set xs" by auto
    with Cons.prems ys have "lt y x" "lt x y" by auto
    then have "lt x x"
      using strict_total_onD(2) [OF Cons.prems(1), of x y x] \<open>y \<in> set xs\<close> by simp
    then show False using strict_total_onD(1) [OF Cons.prems(1), of x] by simp
  qed
  moreover have "strict_total_on (set xs) lt"
    using Cons.prems(1) by (rule strict_total_on_subset) auto
  then have "xs = ys'"
    using Cons.IH [of ys'] Cons.prems ys \<open>x = y\<close> by simp
  ultimately show ?case using ys by simp
qed simp

subsection \<open>Instants and durations\<close>

text \<open>
  A \<^verbatim>\<open>time.Time\<close> is the number of nanoseconds since Go's zero time, so \<^verbatim>\<open>IsZero\<close> is equality with
  0 and \<^verbatim>\<open>Before\<close>/\<^verbatim>\<open>After\<close> are the order of the integers. A \<^verbatim>\<open>time.Duration\<close> is a signed 64-bit
  count of nanoseconds; \<^verbatim>\<open>Time.Sub\<close> saturates at its ends, which \<open>time_sub\<close> writes out.
\<close>

type_synonym time = int
type_synonym duration = int

definition maxDuration :: duration where "maxDuration = 2 ^ 63 - 1"
definition minDuration :: duration where "minDuration = - (2 ^ 63)"

definition time_sub :: "time \<Rightarrow> time \<Rightarrow> duration" where
  "time_sub t u = (if t - u > maxDuration then maxDuration
                   else if t - u < minDuration then minDuration else t - u)"

definition Second :: duration where "Second = 1000000000"
definition Minute :: duration where "Minute = 60 * Second"
definition Hour :: duration where "Hour = 60 * Minute"

lemmas duration_defs = Second_def Minute_def Hour_def maxDuration_def minDuration_def

lemma time_sub_less_iff:
  "minDuration < d \<Longrightarrow> d \<le> maxDuration \<Longrightarrow> time_sub t u < d \<longleftrightarrow> t - u < d"
  by (auto simp: time_sub_def)

lemma time_sub_ge_iff:
  "minDuration < d \<Longrightarrow> d \<le> maxDuration \<Longrightarrow> d \<le> time_sub t u \<longleftrightarrow> d \<le> t - u"
  by (auto simp: time_sub_def)

lemma time_sub_greater_iff:
  "minDuration \<le> d \<Longrightarrow> d < maxDuration \<Longrightarrow> d < time_sub t u \<longleftrightarrow> d < t - u"
  by (auto simp: time_sub_def)

subsection \<open>Step systems\<close>

text \<open>
  A component with state is a step system: its initial states and one transition per operation.
  \<open>step_system\<close> is the interface, an invariant with the obligation that every transition keeps it;
  what it gives back is that every reachable state satisfies it. The components interpret it with
  their own step relations.
\<close>

inductive reaches :: "('s \<Rightarrow> 's \<Rightarrow> bool) \<Rightarrow> 's \<Rightarrow> 's \<Rightarrow> bool" for step where
  refl: "reaches step s s"
| step: "reaches step s t \<Longrightarrow> step t u \<Longrightarrow> reaches step s u"

locale step_system =
  fixes init :: "'s \<Rightarrow> bool"
    and step :: "'s \<Rightarrow> 's \<Rightarrow> bool"
    and inv :: "'s \<Rightarrow> bool"
  assumes inv_init: "init s \<Longrightarrow> inv s"
    and inv_step: "inv s \<Longrightarrow> step s t \<Longrightarrow> inv t"
begin

lemma inv_reaches: "reaches step s t \<Longrightarrow> inv s \<Longrightarrow> inv t"
  by (induction rule: reaches.induct) (auto intro: inv_step)

lemma inv_reachable: "init s \<Longrightarrow> reaches step s t \<Longrightarrow> inv t"
  using inv_init inv_reaches by blast

text \<open>A second invariant whose preservation needs the first.\<close>

lemma inv_extend:
  assumes "\<And>s. init s \<Longrightarrow> P s" and "\<And>s t. inv s \<Longrightarrow> P s \<Longrightarrow> step s t \<Longrightarrow> P t"
    and "init s0" and "reaches step s0 s"
  shows "P s"
  using assms(4,3)
proof (induction rule: reaches.induct)
  case (step s t u)
  then show ?case using inv_reachable assms(2) by blast
qed (rule assms(1))

text \<open>The same from any state in which both hold.\<close>

lemma inv_from:
  assumes "\<And>s t. inv s \<Longrightarrow> P s \<Longrightarrow> step s t \<Longrightarrow> P t" and "inv s0" and "P s0" and "reaches step s0 s"
  shows "P s"
  using assms(4,2,3)
proof (induction rule: reaches.induct)
  case (step s t u)
  then show ?case using inv_reaches assms(1) by blast
qed

end

lemma reaches_trans: "reaches step t u \<Longrightarrow> reaches step s t \<Longrightarrow> reaches step s u"
  by (induction rule: reaches.induct) (auto intro: reaches.step)

lemma reaches_one: "step s t \<Longrightarrow> reaches step s t"
  by (rule reaches.step [OF reaches.refl])

text \<open>A concrete system refines an abstract one when each of its steps is a run of the abstract one.\<close>

locale refinement = step_system ainit astep ainv
  for ainit :: "'a \<Rightarrow> bool" and astep :: "'a \<Rightarrow> 'a \<Rightarrow> bool" and ainv :: "'a \<Rightarrow> bool" +
  fixes cinit :: "'c \<Rightarrow> bool" and cstep :: "'c \<Rightarrow> 'c \<Rightarrow> bool" and abst :: "'c \<Rightarrow> 'a"
  assumes abst_init: "cinit c \<Longrightarrow> ainit (abst c)"
    and abst_step: "cstep c d \<Longrightarrow> reaches astep (abst c) (abst d)"
begin

lemma abst_run: "reaches cstep c d \<Longrightarrow> reaches astep (abst c) (abst d)"
proof (induction rule: reaches.induct)
  case (step s t u)
  from reaches_trans [OF abst_step [OF step(2)] step(3)] show ?case .
qed (rule reaches.refl)

lemma abst_inv: "cinit c \<Longrightarrow> reaches cstep c d \<Longrightarrow> ainv (abst d)"
  using inv_reachable [OF abst_init abst_run] .

end

end
