(* ===== verification/GoText.thy ===== *)
theory GoText
  imports Prelude "HOL-Library.Char_ord" "HOL-Library.List_Lexorder" "HOL-Library.Sublist"
begin

text \<open>
  Go strings and byte slices, and the parts of \<^verbatim>\<open>strings\<close>, \<^verbatim>\<open>strconv\<close>, \<^verbatim>\<open>encoding/hex\<close>,
  \<^verbatim>\<open>unicode/utf8\<close> and \<^verbatim>\<open>fmt\<close> the program calls. Both are byte sequences (\<^typ>\<open>string\<close>, a list of
  8-bit characters); a conversion between them is the identity, \<^verbatim>\<open>len\<close> is \<^term>\<open>length\<close> and counts
  bytes, \<^verbatim>\<open>sort.Strings\<close> is \<^term>\<open>sort\<close> for the bytewise lexicographic order.

  The lower-case and printability tables of Unicode beyond ASCII are data of the Go toolchain; they
  are a parameter, the record \<open>unicode\<close>. ASCII, UTF-8 decoding and the white-space set are written out.
\<close>

type_synonym bytes = string
type_synonym rune = nat

abbreviation ord :: "char \<Rightarrow> nat" where "ord c \<equiv> of_char c"
abbreviation chr :: "nat \<Rightarrow> char" where "chr n \<equiv> char_of n"

record unicode =
  uc_lower :: "rune \<Rightarrow> rune"
  uc_print :: "rune \<Rightarrow> bool"

subsection \<open>ASCII\<close>

definition lower_char :: "char \<Rightarrow> char" where
  "lower_char c = (if 65 \<le> ord c \<and> ord c \<le> 90 then chr (ord c + 32) else c)"

definition is_ascii :: "string \<Rightarrow> bool" where
  "is_ascii s \<longleftrightarrow> list_all (\<lambda>c. ord c < 128) s"

subsection \<open>UTF-8\<close>

definition RuneError :: rune where "RuneError = 65533"

definition is_cont :: "char \<Rightarrow> bool" where
  "is_cont c \<longleftrightarrow> 128 \<le> ord c \<and> ord c \<le> 191"

definition in_range :: "nat \<Rightarrow> nat \<Rightarrow> char \<Rightarrow> bool" where
  "in_range lo hi c \<longleftrightarrow> lo \<le> ord c \<and> ord c \<le> hi"

text \<open>\<^verbatim>\<open>utf8.DecodeRune\<close>: the rune at the front and its width; an invalid byte is \<^verbatim>\<open>RuneError\<close>, width 1.\<close>

fun decode_rune :: "string \<Rightarrow> rune \<times> nat" where
  "decode_rune [] = (RuneError, 0)"
| "decode_rune (c0 # cs) =
     (let b = ord c0 in
      if b < 128 then (b, 1)
      else if 194 \<le> b \<and> b \<le> 223 then
        (case cs of c1 # _ \<Rightarrow>
           if is_cont c1 then ((b - 192) * 64 + (ord c1 - 128), 2) else (RuneError, 1)
         | _ \<Rightarrow> (RuneError, 1))
      else if 224 \<le> b \<and> b \<le> 239 then
        (case cs of c1 # c2 # _ \<Rightarrow>
           if in_range (if b = 224 then 160 else 128) (if b = 237 then 159 else 191) c1 \<and> is_cont c2
           then ((b - 224) * 4096 + (ord c1 - 128) * 64 + (ord c2 - 128), 3) else (RuneError, 1)
         | _ \<Rightarrow> (RuneError, 1))
      else if 240 \<le> b \<and> b \<le> 244 then
        (case cs of c1 # c2 # c3 # _ \<Rightarrow>
           if in_range (if b = 240 then 144 else 128) (if b = 244 then 143 else 191) c1
              \<and> is_cont c2 \<and> is_cont c3
           then ((b - 240) * 262144 + (ord c1 - 128) * 4096 + (ord c2 - 128) * 64 + (ord c3 - 128), 4)
           else (RuneError, 1)
         | _ \<Rightarrow> (RuneError, 1))
      else (RuneError, 1))"

definition scalar :: "rune \<Rightarrow> bool" where
  "scalar r \<longleftrightarrow> r < 55296 \<or> (57344 \<le> r \<and> r < 1114112)"

definition encode_rune :: "rune \<Rightarrow> string" where
  "encode_rune r0 =
     (let r = (if scalar r0 then r0 else RuneError) in
      if r < 128 then [chr r]
      else if r < 2048 then [chr (192 + r div 64), chr (128 + r mod 64)]
      else if r < 65536 then
        [chr (224 + r div 4096), chr (128 + r div 64 mod 64), chr (128 + r mod 64)]
      else [chr (240 + r div 262144), chr (128 + r div 4096 mod 64),
            chr (128 + r div 64 mod 64), chr (128 + r mod 64)])"

text \<open>The runes a \<^verbatim>\<open>range\<close> loop over a string visits, invalid bytes as \<^verbatim>\<open>RuneError\<close>.\<close>

function runes :: "string \<Rightarrow> rune list" where
  "runes [] = []"
| "runes (c # cs) = fst (decode_rune (c # cs)) # runes (drop (snd (decode_rune (c # cs)) - 1) cs)"
  by pat_completeness auto
termination
  by (relation "measure length") auto

definition RuneCount :: "string \<Rightarrow> nat" where
  "RuneCount s = length (runes s)"

text \<open>\<^verbatim>\<open>utf8.DecodeLastRune\<close>.\<close>

definition decode_last_rune :: "string \<Rightarrow> rune \<times> nat" where
  "decode_last_rune s =
     (case filter (\<lambda>k. k \<le> length s \<and> \<not> is_cont (s ! (length s - k))) [1, 2, 3, 4] of
        [] \<Rightarrow> (RuneError, if s = [] then 0 else 1)
      | k # _ \<Rightarrow> let (r, w) = decode_rune (drop (length s - k) s)
                 in if w = k then (r, w) else (RuneError, 1))"

subsection \<open>Package strings\<close>

definition ToLower :: "unicode \<Rightarrow> string \<Rightarrow> string" where
  "ToLower u s =
     (if is_ascii s then map lower_char s
      else concat (map (\<lambda>r. encode_rune (if r < 128 then ord (lower_char (chr r)) else uc_lower u r))
                    (runes s)))"

definition is_space_rune :: "rune \<Rightarrow> bool" where
  "is_space_rune r \<longleftrightarrow> (9 \<le> r \<and> r \<le> 13) \<or> r = 32 \<or> r = 133 \<or> r = 160 \<or> r = 5760
     \<or> (8192 \<le> r \<and> r \<le> 8202) \<or> r = 8232 \<or> r = 8233 \<or> r = 8239 \<or> r = 8287 \<or> r = 12288"

definition space_width :: "string \<Rightarrow> nat" where
  "space_width s = (let (r, w) = decode_rune s in if is_space_rune r then w else 0)"

definition space_width_last :: "string \<Rightarrow> nat" where
  "space_width_last s = (let (r, w) = decode_last_rune s in if is_space_rune r then w else 0)"

function trim_left_space :: "string \<Rightarrow> string" where
  "trim_left_space [] = []"
| "trim_left_space (c # cs) =
     (if space_width (c # cs) = 0 then c # cs
      else trim_left_space (drop (space_width (c # cs) - 1) cs))"
  by pat_completeness auto
termination
  by (relation "measure length") auto

function trim_right_space :: "string \<Rightarrow> string" where
  "trim_right_space s =
     (if s = [] \<or> space_width_last s = 0 then s
      else trim_right_space (take (length s - space_width_last s) s))"
  by pat_completeness auto
termination
  by (relation "measure length") auto

declare trim_right_space.simps [simp del]

definition TrimSpace :: "string \<Rightarrow> string" where
  "TrimSpace s = trim_right_space (trim_left_space s)"

definition TrimLeft :: "string \<Rightarrow> string \<Rightarrow> string" where
  "TrimLeft s cutset = dropWhile (\<lambda>c. c \<in> set cutset) s"

definition TrimRight :: "string \<Rightarrow> string \<Rightarrow> string" where
  "TrimRight s cutset = rev (dropWhile (\<lambda>c. c \<in> set cutset) (rev s))"

definition Trim :: "string \<Rightarrow> string \<Rightarrow> string" where
  "Trim s cutset = TrimRight (TrimLeft s cutset) cutset"

definition HasPrefix :: "string \<Rightarrow> string \<Rightarrow> bool" where
  "HasPrefix s p \<longleftrightarrow> prefix p s"

definition TrimPrefix :: "string \<Rightarrow> string \<Rightarrow> string" where
  "TrimPrefix s p = (if HasPrefix s p then drop (length p) s else s)"

text \<open>
  \<^verbatim>\<open>strings.Fields\<close>. The word runs up to the next white-space rune. Stepping byte by byte meets the
  same boundaries as stepping rune by rune: the inner bytes of a rune are continuation bytes, which
  start no white-space rune.
\<close>

fun span_word :: "string \<Rightarrow> string \<times> string" where
  "span_word [] = ([], [])"
| "span_word (c # cs) =
     (if 0 < space_width (c # cs) then ([], c # cs)
      else (let (w, r) = span_word cs in (c # w, r)))"

lemma length_span_word: "length (snd (span_word s)) \<le> length s"
  by (induction s) (auto simp: split_beta le_SucI)

lemma length_trim_left_space: "length (trim_left_space s) \<le> length s"
  by (induction s rule: trim_left_space.induct) (auto simp: le_SucI order.trans [rotated])

function fields_from :: "string \<Rightarrow> string list" where
  "fields_from [] = []"
| "fields_from (c # cs) =
     (c # fst (span_word cs)) # fields_from (trim_left_space (snd (span_word cs)))"
  by pat_completeness auto
termination
proof (relation "measure length")
  fix c :: char and cs
  show "(trim_left_space (snd (span_word cs)), c # cs) \<in> measure length"
    using length_trim_left_space [of "snd (span_word cs)"] length_span_word [of cs] by simp
qed simp

definition Fields :: "string \<Rightarrow> string list" where
  "Fields s = fields_from (trim_left_space s)"

fun Join :: "string list \<Rightarrow> string \<Rightarrow> string" where
  "Join [] sep = []"
| "Join [x] sep = x"
| "Join (x # y # ys) sep = x @ sep @ Join (y # ys) sep"

end
