(* ===== verification/GoFmt.thy ===== *)
theory GoFmt
  imports GoText
begin

text \<open>
  Numbers as text: \<^verbatim>\<open>encoding/hex\<close>, \<^verbatim>\<open>strconv.Itoa\<close>/\<^verbatim>\<open>Atoi\<close>, the \<^verbatim>\<open>%q\<close> verb and the printed form of
  durations, with the round trips and the shape of lower-case hexadecimal the components rest on.
  \<open>mdash\<close> and \<open>ellipsis\<close> are the UTF-8 bytes of the two non-ASCII characters of the reply texts.
\<close>

definition mdash :: string where "mdash = map chr [226, 128, 148]"
definition ellipsis :: string where "ellipsis = map chr [226, 128, 166]"
abbreviation nl :: string where "nl \<equiv> [CHR 0x0A]"
abbreviation dquote :: string where "dquote \<equiv> [CHR 0x22]"

subsection \<open>Hexadecimal\<close>

definition hex_digit :: "nat \<Rightarrow> char" where
  "hex_digit n = (if n < 10 then chr (48 + n) else chr (87 + n))"

definition hex_byte :: "char \<Rightarrow> string" where
  "hex_byte c = [hex_digit (ord c div 16), hex_digit (ord c mod 16)]"

definition EncodeToString :: "bytes \<Rightarrow> string" where
  "EncodeToString b = concat (map hex_byte b)"

definition from_hex_char :: "char \<Rightarrow> nat option" where
  "from_hex_char c =
     (let b = ord c in
      if 48 \<le> b \<and> b \<le> 57 then Some (b - 48)
      else if 97 \<le> b \<and> b \<le> 102 then Some (b - 87)
      else if 65 \<le> b \<and> b \<le> 70 then Some (b - 55)
      else None)"

text \<open>\<^verbatim>\<open>hex.DecodeString\<close>: \<^const>\<open>None\<close> is any error (odd length or a byte that is no hex digit).\<close>

fun DecodeString :: "string \<Rightarrow> bytes option" where
  "DecodeString [] = Some []"
| "DecodeString [c] = None"
| "DecodeString (c # d # cs) =
     (case (from_hex_char c, from_hex_char d, DecodeString cs) of
        (Some hi, Some lo, Some bs) \<Rightarrow> Some (chr (hi * 16 + lo) # bs)
      | _ \<Rightarrow> None)"

definition is_lower_hex :: "char \<Rightarrow> bool" where
  "is_lower_hex c \<longleftrightarrow> (48 \<le> ord c \<and> ord c \<le> 57) \<or> (97 \<le> ord c \<and> ord c \<le> 102)"

definition hex_hash :: "string \<Rightarrow> bool" where
  "hex_hash h \<longleftrightarrow> length h = 32 \<and> list_all is_lower_hex h"

lemma ord_chr [simp]: "n < 256 \<Longrightarrow> ord (chr n) = n"
  by simp

lemma ord_lt_256: "ord c < 256"
  by simp

lemma is_lower_hex_digit: "n < 16 \<Longrightarrow> is_lower_hex (hex_digit n)"
  by (auto simp: is_lower_hex_def hex_digit_def)

lemma from_hex_digit: "n < 16 \<Longrightarrow> from_hex_char (hex_digit n) = Some n"
  by (auto simp: from_hex_char_def hex_digit_def Let_def)

lemma ord_halves: "ord c div 16 < 16" "ord c mod 16 < 16"
  by (simp_all add: less_mult_imp_div_less)

lemma EncodeToString_Cons [simp]: "EncodeToString (c # cs) = hex_byte c @ EncodeToString cs"
  by (simp add: EncodeToString_def)

lemma EncodeToString_Nil [simp]: "EncodeToString [] = []"
  by (simp add: EncodeToString_def)

lemma length_EncodeToString [simp]: "length (EncodeToString b) = 2 * length b"
  by (induction b) (auto simp: hex_byte_def)

lemma list_all_lower_hex_Encode: "list_all is_lower_hex (EncodeToString b)"
  by (induction b) (auto simp: hex_byte_def is_lower_hex_digit ord_halves)

lemma Decode_Encode [simp]: "DecodeString (EncodeToString b) = Some b"
proof (induction b)
  case (Cons c b)
  have "ord c div 16 * 16 + ord c mod 16 = ord c" by simp
  with Cons show ?case
    by (simp add: hex_byte_def from_hex_digit ord_halves del: div_mult_mod_eq)
qed simp

lemma EncodeToString_inj: "EncodeToString a = EncodeToString b \<Longrightarrow> a = b"
  by (metis Decode_Encode option.inject)

lemma from_lower_hex:
  assumes "is_lower_hex c"
  obtains n where "from_hex_char c = Some n" "n < 16" "hex_digit n = c"
proof -
  define n where "n = (if ord c \<le> 57 then ord c - 48 else ord c - 87)"
  have "from_hex_char c = Some n"
    using assms by (auto simp: is_lower_hex_def from_hex_char_def n_def Let_def)
  moreover have "n < 16" and "hex_digit n = c"
    using assms by (auto simp: is_lower_hex_def n_def hex_digit_def)
  ultimately show ?thesis using that by blast
qed

lemma Decode_lower_hex:
  assumes "list_all is_lower_hex h" and "even (length h)"
  obtains b where "DecodeString h = Some b" "EncodeToString b = h"
proof -
  have "\<exists>b. DecodeString h = Some b \<and> EncodeToString b = h"
    using assms
  proof (induction h rule: DecodeString.induct)
    case (3 c d cs)
    then obtain b where b: "DecodeString cs = Some b" "EncodeToString b = cs" by auto
    from 3(2) obtain m n where "from_hex_char c = Some m" "m < 16" "hex_digit m = c"
      and "from_hex_char d = Some n" "n < 16" "hex_digit n = d"
      by (auto elim!: from_lower_hex)
    with b show ?case
      by (auto simp: hex_byte_def)
  qed auto
  then show ?thesis using that by blast
qed

lemma Decode_hex_hash:
  assumes "hex_hash h"
  obtains b where "DecodeString h = Some b" "length b = 16" "EncodeToString b = h"
proof -
  from assms obtain b where "DecodeString h = Some b" "EncodeToString b = h"
    by (auto simp: hex_hash_def elim!: Decode_lower_hex)
  moreover from this assms have "length b = 16"
    by (auto simp: hex_hash_def)
  ultimately show ?thesis using that by blast
qed

lemma hex_hash_Encode [simp]: "length b = 16 \<Longrightarrow> hex_hash (EncodeToString b)"
  by (simp add: hex_hash_def list_all_lower_hex_Encode)

lemma lower_hex_fixed: "is_lower_hex c \<Longrightarrow> lower_char c = c \<and> ord c < 128"
  by (auto simp: is_lower_hex_def lower_char_def)

lemma ToLower_ascii: "is_ascii s \<Longrightarrow> ToLower u s = map lower_char s"
  by (simp add: ToLower_def)

lemma ToLower_lower_hex [simp]:
  assumes "list_all is_lower_hex h"
  shows "ToLower u h = h"
proof -
  have "is_ascii h" and "map lower_char h = h"
    using assms by (auto simp: is_ascii_def list_all_iff lower_hex_fixed intro: map_idI)
  then show ?thesis by (simp add: ToLower_ascii)
qed

lemma ToLower_hex_hash [simp]: "hex_hash h \<Longrightarrow> ToLower u h = h"
  by (simp add: hex_hash_def)

lemma hex_hash_nonempty: "hex_hash h \<Longrightarrow> h \<noteq> []"
  by (auto simp: hex_hash_def)

subsection \<open>Decimal numbers\<close>

fun dec_nat :: "nat \<Rightarrow> string" where
  "dec_nat n = (if n < 10 then [chr (48 + n)] else dec_nat (n div 10) @ [chr (48 + n mod 10)])"

declare dec_nat.simps [simp del]

definition Itoa :: "int \<Rightarrow> string" where
  "Itoa i = (if i < 0 then ''-'' @ dec_nat (nat (- i)) else dec_nat (nat i))"

definition is_digit :: "char \<Rightarrow> bool" where
  "is_digit c \<longleftrightarrow> 48 \<le> ord c \<and> ord c \<le> 57"

definition digits_val :: "string \<Rightarrow> nat" where
  "digits_val ds = foldl (\<lambda>a c. a * 10 + (ord c - 48)) 0 ds"

definition maxInt :: int where "maxInt = 2 ^ 63 - 1"
definition minInt :: int where "minInt = - (2 ^ 63)"

text \<open>\<^verbatim>\<open>strconv.Atoi\<close>: an optional sign and decimal digits; \<^const>\<open>None\<close> is a syntax or range error.\<close>

definition Atoi :: "string \<Rightarrow> int option" where
  "Atoi s =
     (let (neg, ds) = (case s of
          c # cs \<Rightarrow> if c = CHR ''-'' then (True, cs) else if c = CHR ''+'' then (False, cs) else (False, s)
        | [] \<Rightarrow> (False, []));
          v = (if neg then - int (digits_val ds) else int (digits_val ds))
      in if ds = [] \<or> \<not> list_all is_digit ds \<or> v < minInt \<or> v > maxInt then None else Some v)"

lemma is_digit_chr: "n < 10 \<Longrightarrow> is_digit (chr (48 + n))"
  by (simp add: is_digit_def)

lemma dec_nat_digits: "list_all is_digit (dec_nat n) \<and> dec_nat n \<noteq> []"
proof (induction n rule: dec_nat.induct)
  case (1 n)
  then show ?case by (subst (1 2) dec_nat.simps) (auto simp: is_digit_chr)
qed

lemma digits_val_dec_nat [simp]: "digits_val (dec_nat n) = n"
proof (induction n rule: dec_nat.induct)
  case (1 n)
  then show ?case by (subst dec_nat.simps) (auto simp: digits_val_def)
qed

lemma dec_nat_hd: "dec_nat n = c # cs \<Longrightarrow> is_digit c"
  using dec_nat_digits [of n] by auto

theorem Atoi_Itoa: "minInt \<le> i \<Longrightarrow> i \<le> maxInt \<Longrightarrow> Atoi (Itoa i) = Some i"
proof -
  assume r: "minInt \<le> i" "i \<le> maxInt"
  show ?thesis
  proof (cases "i < 0")
    case True
    with r show ?thesis
      using dec_nat_digits [of "nat (- i)"] by (simp add: Atoi_def Itoa_def)
  next
    case False
    obtain c cs where d: "dec_nat (nat i) = c # cs"
      using dec_nat_digits [of "nat i"] by (cases "dec_nat (nat i)") auto
    then have "is_digit c" by (rule dec_nat_hd)
    then have "c \<noteq> CHR ''-''" "c \<noteq> CHR ''+''" by (auto simp: is_digit_def)
    with False r d show ?thesis
      using dec_nat_digits [of "nat i"] digits_val_dec_nat [of "nat i"]
      by (simp add: Atoi_def Itoa_def)
  qed
qed

lemma length_dec_nat_mono: "m \<le> n \<Longrightarrow> length (dec_nat m) \<le> length (dec_nat n)"
proof (induction m arbitrary: n rule: dec_nat.induct)
  case (1 m)
  show ?case
  proof (cases "m < 10")
    case True
    have "length (dec_nat m) = 1" using True by (simp add: dec_nat.simps [of m])
    moreover have "dec_nat n \<noteq> []" using dec_nat_digits by simp
    ultimately show ?thesis by (cases "dec_nat n") auto
  next
    case False
    with 1(2) have "m div 10 \<le> n div 10" "\<not> n < 10" by (auto simp: div_le_mono)
    with 1(1) False have "length (dec_nat (m div 10)) \<le> length (dec_nat (n div 10))" by simp
    with False \<open>\<not> n < 10\<close> show ?thesis
      by (simp add: dec_nat.simps [of m] dec_nat.simps [of n])
  qed
qed

subsection \<open>The verb %q and durations\<close>

definition hex2 :: "nat \<Rightarrow> string" where
  "hex2 n = [hex_digit (n div 16 mod 16), hex_digit (n mod 16)]"

abbreviation esc :: "string \<Rightarrow> string" where "esc s \<equiv> CHR 0x5C # s"

definition quote_rune :: "unicode \<Rightarrow> rune \<Rightarrow> string" where
  "quote_rune u r =
     (if r = 34 \<or> r = 92 then [chr 92, chr r]
      else if 32 \<le> r \<and> r < 127 then [chr r]
      else if 160 \<le> r \<and> uc_print u r then encode_rune r
      else if r = 7 then esc ''a'' else if r = 8 then esc ''b'' else if r = 12 then esc ''f''
      else if r = 10 then esc ''n'' else if r = 13 then esc ''r'' else if r = 9 then esc ''t''
      else if r = 11 then esc ''v''
      else if r < 32 \<or> r = 127 then esc ''x'' @ hex2 r
      else if r < 65536 then esc ''u'' @ hex2 (r div 256) @ hex2 r
      else esc ''U00'' @ hex2 (r div 65536) @ hex2 (r div 256) @ hex2 r)"

function quote_body :: "unicode \<Rightarrow> string \<Rightarrow> string" where
  "quote_body u [] = []"
| "quote_body u (c # cs) =
     (let (r, w) = decode_rune (c # cs) in
      (if w = 1 \<and> r = RuneError then esc ''x'' @ hex2 (ord c) else quote_rune u r)
      @ quote_body u (drop (w - 1) cs))"
  by pat_completeness auto
termination
  by (relation "measure (\<lambda>(u, s). length s)") auto

definition Quote :: "unicode \<Rightarrow> string \<Rightarrow> string" where
  "Quote u s = dquote @ quote_body u s @ dquote"

text \<open>\<^verbatim>\<open>d.Round(time.Second).String()\<close> for a duration.\<close>

definition round_seconds :: "duration \<Rightarrow> int" where
  "round_seconds d = (if d < 0 then - ((- d + Second div 2) div Second) else (d + Second div 2) div Second)"

definition seconds_string :: "int \<Rightarrow> string" where
  "seconds_string s =
     (let a = nat \<bar>s\<bar>; h = a div 3600; m = a div 60 mod 60; sec = a mod 60 in
      (if s < 0 then ''-'' else '''') @
      (if h > 0 then dec_nat h @ ''h'' @ dec_nat m @ ''m''
       else if m > 0 then dec_nat m @ ''m'' else '''') @ dec_nat sec @ ''s'')"

subsection \<open>Evaluation\<close>

text \<open>The facts with which \<open>simp\<close> evaluates the text functions on concrete strings.\<close>

lemmas text_eval =
  TrimSpace_def trim_right_space.simps space_width_last_def decode_last_rune_def is_cont_def
  space_width_def is_space_rune_def RuneError_def Fields_def TrimLeft_def TrimRight_def Trim_def
  HasPrefix_def TrimPrefix_def ToLower_def is_ascii_def lower_char_def Quote_def quote_rune_def
  EncodeToString_def hex_byte_def hex_digit_def from_hex_char_def Let_def char_of_eq_iff
  mdash_def ellipsis_def

end
