(* ===== verification/Utf8.thy ===== *)
theory Utf8
  imports GoFmt
begin

text \<open>
  Well-formed UTF-8 and the two kinds of routine that must not break it: cutting a text at a byte limit
  and replacing control bytes. The second is an interface, \<open>scrubber\<close>: the service, the commands and
  the group-information package each carry their own copy of such a routine, and what a client of one
  may rely on is proved here once.
\<close>

subsection \<open>Valid texts\<close>

function valid_utf8 :: "string \<Rightarrow> bool" where
  "valid_utf8 [] = True"
| "valid_utf8 (c # cs) =
     ((1 < snd (decode_rune (c # cs)) \<or> ord c < 128) \<and> valid_utf8 (drop (snd (decode_rune (c # cs)) - 1) cs))"
  by pat_completeness auto
termination
  by (relation "measure length") auto

text \<open>
  What a string reads back as after \<^verbatim>\<open>encoding/json\<close> wrote and read it: a byte that is not part of
  well-formed UTF-8 becomes U+FFFD, everything else comes back as it was.
\<close>

function json_text :: "string \<Rightarrow> string" where
  "json_text [] = []"
| "json_text (c # cs) =
     (if 1 < snd (decode_rune (c # cs)) \<or> ord c < 128
      then take (snd (decode_rune (c # cs))) (c # cs) @ json_text (drop (snd (decode_rune (c # cs)) - 1) cs)
      else [CHR 0xEF, CHR 0xBF, CHR 0xBD] @ json_text cs)"
  by pat_completeness auto
termination
  by (relation "measure length") auto

lemma decode_rune_pos: "0 < snd (decode_rune (c # cs))"
  by (simp add: Let_def split: list.split)

lemma json_text_valid: "valid_utf8 s \<Longrightarrow> json_text s = s"
proof (induction s rule: valid_utf8.induct)
  case (2 c cs)
  then have "json_text (c # cs) = take (snd (decode_rune (c # cs))) (c # cs) @ drop (snd (decode_rune (c # cs)) - 1) cs"
    by (simp del: decode_rune.simps)
  then show ?case using decode_rune_pos [of c cs] by (cases "snd (decode_rune (c # cs))") (simp_all del: decode_rune.simps)
qed simp

text \<open>How far a decoded rune reaches, what its inner bytes are, and that later bytes do not matter.\<close>

lemma decode_two:
  assumes "snd (decode_rune (c # cs)) = 2"
  shows "\<exists>c1 t. cs = c1 # t \<and> is_cont c1 \<and> (\<forall>t'. decode_rune (c # c1 # t') = decode_rune (c # cs))"
  using assms by (cases cs) (simp_all add: Let_def split: if_splits list.splits)

lemma decode_three:
  assumes "snd (decode_rune (c # cs)) = 3"
  shows "\<exists>c1 c2 t. cs = c1 # c2 # t \<and> is_cont c1 \<and> is_cont c2 \<and>
    (\<forall>t'. decode_rune (c # c1 # c2 # t') = decode_rune (c # cs))"
proof -
  obtain c1 c2 t where cs: "cs = c1 # c2 # t"
    using assms by (simp add: Let_def split: if_splits list.splits)
  have "224 \<le> ord c \<and> ord c \<le> 239"
    using assms by (simp add: Let_def split: if_splits list.splits)
  with assms cs show ?thesis
    by (simp add: Let_def in_range_def is_cont_def split: if_splits)
qed

lemma decode_four:
  assumes "snd (decode_rune (c # cs)) = 4"
  shows "\<exists>c1 c2 c3 t. cs = c1 # c2 # c3 # t \<and> is_cont c1 \<and> is_cont c2 \<and> is_cont c3 \<and>
    (\<forall>t'. decode_rune (c # c1 # c2 # c3 # t') = decode_rune (c # cs))"
proof -
  have c: "240 \<le> ord c \<and> ord c \<le> 244"
    using assms by (simp add: Let_def split: if_splits list.splits)
  with assms obtain c1 c2 c3 t where cs: "cs = c1 # c2 # c3 # t"
    by (simp add: Let_def split: list.splits)
  have "in_range (if ord c = 240 then 144 else 128) (if ord c = 244 then 143 else 191) c1 \<and>
      is_cont c2 \<and> is_cont c3"
    using assms c cs by (simp add: Let_def split: if_split_asm)
  moreover from this have "is_cont c1" by (auto simp: in_range_def is_cont_def split: if_splits)
  ultimately show ?thesis using c by (simp add: cs)
qed

lemma decode_widths: "snd (decode_rune (c # cs)) \<in> {1, 2, 3, 4}"
  by (simp add: Let_def split: list.split)

lemma decode_rune_ascii: "ord c < 128 \<Longrightarrow> decode_rune (c # cs) = (ord c, 1)"
  by simp

declare decode_rune.simps(2) [simp del]

lemma decode_inner_cont:
  assumes "0 < i" and "i < snd (decode_rune (c # cs))"
  shows "i < length (c # cs) \<and> is_cont ((c # cs) ! i)"
proof -
  consider "snd (decode_rune (c # cs)) = 1" | "snd (decode_rune (c # cs)) = 2"
    | "snd (decode_rune (c # cs)) = 3" | "snd (decode_rune (c # cs)) = 4"
    using decode_widths [of c cs] by auto
  then show ?thesis
  proof cases
    case 2 with decode_two [OF 2] assms show ?thesis by auto
  next
    case 3
    with assms have "i = 1 \<or> i = 2" by auto
    with decode_three [OF 3] show ?thesis by auto
  next
    case 4
    with assms have "i = 1 \<or> i = 2 \<or> i = 3" by auto
    with decode_four [OF 4] show ?thesis by (auto simp: numeral_3_eq_3)
  qed (use assms in simp)
qed

lemma decode_prefix:
  assumes "1 < snd (decode_rune (c # cs))" and "snd (decode_rune (c # cs)) - 1 \<le> n"
  shows "decode_rune (c # take n cs @ t') = decode_rune (c # cs)"
proof -
  consider "snd (decode_rune (c # cs)) = 2"
    | "snd (decode_rune (c # cs)) = 3" | "snd (decode_rune (c # cs)) = 4"
    using decode_widths [of c cs] assms(1) by auto
  then show ?thesis
  proof cases
    case 1
    with assms obtain k where "n = Suc k" by (cases n) auto
    with decode_two [OF 1] show ?thesis by auto
  next
    case 2
    with assms obtain k where "n = Suc (Suc k)" by (metis Suc_le_D Suc_1 diff_Suc_1 numeral_3_eq_3 Suc_le_mono)
    with decode_three [OF 2] show ?thesis by auto
  next
    case 3
    with assms obtain k where "n = Suc (Suc (Suc k))"
      by (metis add.commute add_2_eq_Suc' le_Suc_ex numeral_3_eq_3 plus_1_eq_Suc add_Suc_right diff_Suc_1 eval_nat_numeral(2) semiring_norm(26,27))
    with decode_four [OF 3] show ?thesis by auto
  qed
qed

lemma valid_utf8_ascii: "is_ascii s \<Longrightarrow> valid_utf8 s"
  by (induction s) (auto simp: is_ascii_def decode_rune_ascii)

lemma valid_utf8_take:
  assumes "valid_utf8 s" and "n = 0 \<or> length s \<le> n \<or> \<not> is_cont (s ! n)"
  shows "valid_utf8 (take n s)"
  using assms
proof (induction s arbitrary: n rule: valid_utf8.induct)
  case (2 c cs)
  let ?w = "snd (decode_rune (c # cs))"
  show ?case
  proof (cases n)
    case (Suc m)
    have w: "?w \<le> n"
    proof (rule ccontr)
      assume "\<not> ?w \<le> n"
      then show False using decode_inner_cont [of n c cs] 2(3) Suc by auto
    qed
    have "valid_utf8 (take (n - ?w) (drop (?w - 1) cs))"
    proof (rule 2(1))
      show "valid_utf8 (drop (?w - 1) cs)" using 2(2) by simp
      show "n - ?w = 0 \<or> length (drop (?w - 1) cs) \<le> n - ?w \<or> \<not> is_cont (drop (?w - 1) cs ! (n - ?w))"
        using 2(3) Suc w decode_widths [of c cs] by (auto simp flip: Suc_diff_le numeral_2_eq_2)
    qed
    moreover have "take (n - ?w) (drop (?w - 1) cs) = drop (?w - 1) (take m cs)"
      using Suc w decode_widths [of c cs] by (auto simp: drop_take)
    moreover have "decode_rune (c # take m cs) = decode_rune (c # cs)"
    proof (cases "1 < ?w")
      case True
      with decode_prefix [of c cs m "[]"] w Suc show ?thesis by simp
    next
      case False
      with 2(2) show ?thesis by (simp add: decode_rune_ascii)
    qed
    ultimately show ?thesis using Suc 2(2) by simp
  qed simp
qed simp

subsection \<open>Replacing control bytes\<close>

text \<open>
  The bytes no forwarded or rendered text may contain: the C0 controls except tab, line feed and
  carriage return, and DEL.
\<close>

definition control_byte :: "char \<Rightarrow> bool" where
  "control_byte c \<longleftrightarrow> (ord c < 0x20 \<and> c \<noteq> CHR 0x09 \<and> c \<noteq> CHR 0x0A \<and> c \<noteq> CHR 0x0D) \<or> ord c = 0x7F"

definition clean_byte :: "char \<Rightarrow> char" where
  "clean_byte c = (if control_byte c then CHR ''?'' else c)"

lemma clean_byte_simps [simp]:
  "\<not> control_byte (clean_byte c)" "clean_byte (clean_byte c) = clean_byte c"
  "\<not> control_byte c \<Longrightarrow> clean_byte c = c"
  by (auto simp: clean_byte_def control_byte_def)

lemma clean_cont: "is_cont c \<Longrightarrow> clean_byte c = c"
  by (auto simp: clean_byte_def control_byte_def is_cont_def)

lemma map_clean_take:
  assumes "n \<le> length cs" and "\<forall>i < n. is_cont (cs ! i)"
  shows "map clean_byte cs = take n cs @ map clean_byte (drop n cs)"
proof -
  have "map clean_byte (take n cs) = take n cs"
    using assms by (intro map_idI) (auto simp: in_set_conv_nth clean_cont)
  then show ?thesis by (metis append_take_drop_id map_append)
qed

lemma valid_utf8_map_clean: "valid_utf8 s \<Longrightarrow> valid_utf8 (map clean_byte s)"
proof (induction s rule: valid_utf8.induct)
  case (2 c cs)
  let ?w = "snd (decode_rune (c # cs))"
  show ?case
  proof (cases "1 < ?w")
    case False
    with 2(2) have "ord c < 128" by simp
    then have "ord (clean_byte c) < 128" by (simp add: clean_byte_def)
    with 2 \<open>ord c < 128\<close> show ?thesis by (simp add: decode_rune_ascii)
  next
    case True
    have inner: "Suc i < length (c # cs) \<and> is_cont (cs ! i)" if "i < ?w - 1" for i
      using decode_inner_cont [of "Suc i" c cs] that by auto
    have "?w - 2 < ?w - 1" using True by simp
    from inner [OF this] have "?w - 1 \<le> length cs" by auto
    then have m: "map clean_byte cs = take (?w - 1) cs @ map clean_byte (drop (?w - 1) cs)"
      using inner by (intro map_clean_take) auto
    have "128 \<le> ord c" using True by (cases "ord c < 128") (auto simp: decode_rune_ascii)
    then have c: "clean_byte c = c" by (auto simp: clean_byte_def control_byte_def)
    have "decode_rune (c # map clean_byte cs) = decode_rune (c # cs)"
      unfolding m using True by (intro decode_prefix) auto
    moreover have "drop (?w - 1) (map clean_byte cs) = map clean_byte (drop (?w - 1) cs)"
      by (simp add: drop_map)
    ultimately show ?thesis using 2 True c by simp
  qed
qed simp

text \<open>What a scrubbing routine promises: it keeps the length and replaces exactly the control bytes.\<close>

locale scrubber =
  fixes scrub_fn :: "string \<Rightarrow> string"
  assumes scrub_length: "length (scrub_fn s) = length s"
    and scrub_nth: "i < length s \<Longrightarrow> scrub_fn s ! i = (if control_byte (s ! i) then CHR ''?'' else s ! i)"
begin

lemma scrub_map: "scrub_fn s = map clean_byte s"
  by (rule nth_equalityI) (simp_all add: scrub_length scrub_nth clean_byte_def)

lemma scrub_no_control: "\<forall>c \<in> set (scrub_fn s). \<not> control_byte c"
  by (simp add: scrub_map)

lemma scrub_idem: "scrub_fn (scrub_fn s) = scrub_fn s"
  by (simp add: scrub_map)

lemma scrub_clean: "list_all (Not \<circ> control_byte) s \<Longrightarrow> scrub_fn s = s"
  by (auto simp: scrub_map list_all_iff intro: map_idI)

lemma scrub_valid: "valid_utf8 s \<Longrightarrow> valid_utf8 (scrub_fn s)"
  by (simp add: scrub_map valid_utf8_map_clean)

lemma scrub_take: "scrub_fn (take n s) = take n (scrub_fn s)"
  by (simp add: scrub_map take_map)

end

end
