(* ===== verification/Parser.thy ===== *)
theory Parser
  imports Utf8
begin

text \<open>
  \<^verbatim>\<open>internal/commands/parser.go\<close>: recognising and splitting a slash command. Also the small text routines of
  \<^verbatim>\<open>handlers.go\<close> and \<^verbatim>\<open>info.go\<close> that need no state: the nickname alphabet, hashes in hexadecimal, control
  bytes, folding of line breaks.
\<close>

subsection \<open>Parsing\<close>

record Parsed =
  Name :: string
  Args :: "string list"
  Rest :: string
  Raw :: string

definition IsCommand :: "string \<Rightarrow> bool" where
  "IsCommand content \<longleftrightarrow> HasPrefix (TrimLeft content [CHR '' '', CHR 0x09]) ''/''"

definition Parse :: "unicode \<Rightarrow> string \<Rightarrow> Parsed" where
  "Parse un content =
     (let trimmed = TrimSpace content in
      if \<not> HasPrefix trimmed ''/'' then \<lparr>Name = [], Args = [], Rest = [], Raw = content\<rparr>
      else (let rest = TrimPrefix trimmed ''/''; fields = Fields rest in
        if fields = [] then \<lparr>Name = [], Args = [], Rest = [], Raw = content\<rparr>
        else \<lparr>Name = ToLower un (hd fields), Args = tl fields,
              Rest = TrimSpace (TrimPrefix rest (hd fields)), Raw = content\<rparr>))"

subsection \<open>Nicknames\<close>

definition nick_char :: "char \<Rightarrow> bool" where
  "nick_char c \<longleftrightarrow> (65 \<le> ord c \<and> ord c \<le> 90) \<or> (97 \<le> ord c \<and> ord c \<le> 122) \<or>
     (48 \<le> ord c \<and> ord c \<le> 57) \<or> c = CHR ''_'' \<or> c = CHR ''-''"

text \<open>The regular expression \<^verbatim>\<open>^[A-Za-z0-9_-]{1,24}$\<close>.\<close>

definition nickRE :: "string \<Rightarrow> bool" where
  "nickRE s \<longleftrightarrow> 1 \<le> length s \<and> length s \<le> 24 \<and> list_all nick_char s"

text \<open>
  The loop of \<^verbatim>\<open>SanitizeNickname\<close>: the runes to come, the text built so far, and \<^verbatim>\<open>prevUnderscore\<close>. The
  code's cases for white space and for every other rune have the same body.
\<close>

definition sanitize_step :: "rune \<Rightarrow> string \<Rightarrow> bool \<Rightarrow> string \<times> bool" where
  "sanitize_step r b prev =
     (let ok = (65 \<le> r \<and> r \<le> 90) \<or> (97 \<le> r \<and> r \<le> 122) \<or> (48 \<le> r \<and> r \<le> 57) \<or> r = 45 in
      if ok then (b @ encode_rune r, False)
      else if \<not> prev \<and> length b > 0 then (b @ ''_'', True)
      else (b, prev))"

fun sanitize_loop :: "rune list \<Rightarrow> string \<Rightarrow> bool \<Rightarrow> string" where
  "sanitize_loop [] b prev = b"
| "sanitize_loop (r # rs) b prev =
     (let (b', prev') = sanitize_step r b prev
      in if length b' \<ge> 24 then b' else sanitize_loop rs b' prev')"

definition SanitizeNickname :: "string \<Rightarrow> string" where
  "SanitizeNickname raw =
     (let out = Trim (sanitize_loop (runes raw) [] False) [CHR ''_'', CHR ''-''] in
      if length out > 24 then take 24 out else out)"

subsection \<open>Hexadecimal hashes\<close>

unbundle bit_operations_syntax

definition hexNibble :: "char \<Rightarrow> int" where
  "hexNibble c =
     (let b = int (ord c) in
      if 48 \<le> b \<and> b \<le> 57 then b - 48
      else if 97 \<le> b \<and> b \<le> 102 then b - 97 + 10
      else if 65 \<le> b \<and> b \<le> 70 then b - 65 + 10
      else -1)"

text \<open>The loop of \<^verbatim>\<open>mustHexBytes\<close>, two characters at a time.\<close>

fun hex_loop :: "string \<Rightarrow> bytes option" where
  "hex_loop (c # d # cs) =
     (let hi = hexNibble c; lo = hexNibble d in
      if hi < 0 \<or> lo < 0 then None
      else map_option ((#) (chr (nat (push_bit 4 hi OR lo) mod 256))) (hex_loop cs))"
| "hex_loop _ = Some []"

definition mustHexBytes :: "string \<Rightarrow> bytes option" where
  "mustHexBytes h = (if length h \<noteq> 32 then None else hex_loop h)"

definition shortHashes :: "string list \<Rightarrow> string list" where
  "shortHashes hs = map (\<lambda>h. if length h \<ge> 8 then take 8 h else h) hs"

definition titleCase :: "string \<Rightarrow> string" where
  "titleCase s = (case s of
      [] \<Rightarrow> []
    | c # cs \<Rightarrow> encode_rune (if 97 \<le> ord c \<and> ord c \<le> 122 then ord c - 32 else ord c) @ cs)"

subsection \<open>Control bytes and line breaks\<close>

definition scrubControlBytes :: "string \<Rightarrow> string" where
  "scrubControlBytes s =
     (let bad = (\<lambda>c. (ord c < 0x20 \<and> c \<noteq> CHR 0x09 \<and> c \<noteq> CHR 0x0A \<and> c \<noteq> CHR 0x0D) \<or> ord c = 0x7F) in
      if list_all (\<lambda>c. \<not> bad c) s then s
      else map (\<lambda>i. if bad (s ! i) then CHR ''?'' else s ! i) [0..<length s])"

interpretation cmd_scrub: scrubber scrubControlBytes
  by unfold_locales (auto simp: scrubControlBytes_def control_byte_def Let_def list_all_length)

text \<open>The loop of \<^verbatim>\<open>collapseLines\<close>: the runes to come, the text so far, and \<^verbatim>\<open>pendingBreak\<close>.\<close>

fun collapse_loop :: "rune list \<Rightarrow> string \<Rightarrow> bool \<Rightarrow> string" where
  "collapse_loop [] b pending = b"
| "collapse_loop (r # rs) b pending =
     (if r = 10 \<or> r = 13 then collapse_loop rs b True
      else if r = 32 \<or> r = 9 then
        collapse_loop rs (if \<not> pending then b @ encode_rune r else b) pending
      else collapse_loop rs ((if pending \<and> length b > 0 then b @ '' '' else b) @ encode_rune r) False)"

definition collapseLines :: "string \<Rightarrow> string" where
  "collapseLines s =
     (if CHR 0x0A \<notin> set s \<and> CHR 0x0D \<notin> set s then s
      else TrimSpace (collapse_loop (runes s) [] False))"

subsection \<open>Hashes: the local decoder and the library's\<close>

lemma hexNibble_from_hex:
  "hexNibble c = (case from_hex_char c of Some n \<Rightarrow> int n | None \<Rightarrow> -1)"
  by (auto simp: hexNibble_def from_hex_char_def Let_def)

lemma from_hex_char_bound: "from_hex_char c = Some n \<Longrightarrow> n < 16"
  by (auto simp: from_hex_char_def Let_def split: if_splits)

lemma nibbles_or: "hi < 16 \<Longrightarrow> lo < 16 \<Longrightarrow> nat (push_bit 4 (int hi) OR int lo) mod 256 = hi * 16 + lo"
proof -
  assume b: "hi < 16" "lo < 16"
  have "push_bit 4 (int hi) AND int lo = 0"
  proof (rule bit_eqI)
    fix k
    have "\<not> bit (int lo) k" if "4 \<le> k"
    proof -
      have "int lo < 2 ^ k" using b(2) that power_increasing [of 4 k "2 :: nat"] by simp
      then show ?thesis by (simp add: bit_iff_odd div_pos_pos_trivial)
    qed
    then show "bit (push_bit 4 (int hi) AND int lo) k = bit 0 k"
      by (auto simp: bit_and_iff bit_push_bit_iff)
  qed
  then have "push_bit 4 (int hi) OR int lo = push_bit 4 (int hi) + int lo"
    by (simp add: disjunctive_add_eq_or)
  then show ?thesis using b by (simp add: push_bit_eq_mult nat_add_distrib nat_mult_distrib)
qed

lemma hex_loop_Decode: "even (length h) \<Longrightarrow> hex_loop h = DecodeString h"
proof (induction h rule: DecodeString.induct)
  case (3 c d cs)
  then show ?case
    by (cases "from_hex_char c"; cases "from_hex_char d"; cases "DecodeString cs")
       (simp_all add: hexNibble_from_hex nibbles_or from_hex_char_bound)
qed auto

lemma mustHexBytes_Decode: "mustHexBytes h = (if length h = 32 then DecodeString h else None)"
  by (simp add: mustHexBytes_def hex_loop_Decode)

lemma DecodeString_length: "DecodeString h = Some b \<Longrightarrow> length h = 2 * length b"
  by (induction h arbitrary: b rule: DecodeString.induct) (auto split: option.splits)

lemma mustHexBytes_hex_hash:
  assumes "hex_hash h"
  obtains b where "mustHexBytes h = Some b" "length b = 16" "EncodeToString b = h"
proof -
  from assms obtain b where "DecodeString h = Some b" "length b = 16" "EncodeToString b = h"
    by (rule Decode_hex_hash)
  with that assms show ?thesis by (simp add: mustHexBytes_Decode hex_hash_def)
qed

lemma mustHexBytes_length: "mustHexBytes h = Some b \<Longrightarrow> length b = 16"
  by (auto simp: mustHexBytes_Decode split: if_splits dest: DecodeString_length)

lemma Encode_Decode_lower: "DecodeString h = Some b \<Longrightarrow> EncodeToString b = map lower_char h"
proof (induction h arbitrary: b rule: DecodeString.induct)
  case (3 c d cs)
  have "hex_digit n = lower_char c'" if "from_hex_char c' = Some n" for c' n
    using that by (auto simp: from_hex_char_def hex_digit_def lower_char_def Let_def split: if_splits)
  moreover obtain m n t where "from_hex_char c = Some m" "from_hex_char d = Some n"
      "DecodeString cs = Some t" "b = chr (m * 16 + n) # t"
    using 3(2) by (auto split: option.splits)
  moreover have "m < 16" "n < 16" using calculation from_hex_char_bound by blast+
  ultimately show ?case using 3(1) by (simp add: hex_byte_def)
qed auto

lemma Decode_ascii: "DecodeString h = Some b \<Longrightarrow> is_ascii h"
proof (induction h arbitrary: b rule: DecodeString.induct)
  case (3 c d cs)
  have "ord c' < 128" if "from_hex_char c' = Some n" for c' n
    using that by (auto simp: from_hex_char_def Let_def split: if_splits)
  with 3 show ?case by (auto simp: is_ascii_def split: option.splits)
qed (auto simp: is_ascii_def)

lemma mustHexBytes_ToLower:
  "mustHexBytes h = Some b \<Longrightarrow> length b = 16 \<and> ToLower un h = EncodeToString b"
  by (auto simp: mustHexBytes_Decode ToLower_ascii Encode_Decode_lower split: if_splits
      dest: DecodeString_length Decode_ascii)

text \<open>
  C27: the command layer's own decoder agrees with the library's on every input: it accepts exactly the
  strings of 32 hexadecimal digits, in either case, and encoding what it returns gives the lower-case
  form of the input back.
\<close>

theorem mustHexBytes_correct:
  "(mustHexBytes h = Some b \<longleftrightarrow>
      length b = 16 \<and> DecodeString h = Some b \<and> EncodeToString b = map lower_char h) \<and>
   (mustHexBytes h = None \<longleftrightarrow> \<not> (length h = 32 \<and> list_all (\<lambda>c. from_hex_char c \<noteq> None) h))"
proof -
  have "(DecodeString h = None) = (\<not> list_all (\<lambda>c. from_hex_char c \<noteq> None) h)" if "even (length h)" for h
    using that by (induction h rule: DecodeString.induct) (auto split: option.split)
  then have "DecodeString h = Some b \<longrightarrow> EncodeToString b = map lower_char h"
    and "length h = 32 \<Longrightarrow> (DecodeString h = None) = (\<not> list_all (\<lambda>c. from_hex_char c \<noteq> None) h)"
    by (simp_all add: Encode_Decode_lower)
  then show ?thesis
    by (auto simp: mustHexBytes_Decode dest: DecodeString_length)
qed

subsection \<open>Default nicknames\<close>

lemma encode_rune_small: "r < 128 \<Longrightarrow> encode_rune r = [chr r]"
  by (simp add: encode_rune_def scalar_def)

lemma sanitize_step_char:
  "sanitize_step r b prev = (b', prev') \<Longrightarrow> \<exists>e. b' = b @ e \<and> length e \<le> 1 \<and> list_all nick_char e"
  by (auto simp: sanitize_step_def Let_def encode_rune_small nick_char_def char_of_eq_iff split: if_splits)

lemma sanitize_loop_props:
  "list_all nick_char b \<Longrightarrow> length b < 24 \<Longrightarrow>
   list_all nick_char (sanitize_loop rs b prev) \<and> length (sanitize_loop rs b prev) \<le> 24"
proof (induction rs arbitrary: b prev)
  case (Cons r rs)
  obtain b' prev' where s: "sanitize_step r b prev = (b', prev')" by (cases "sanitize_step r b prev")
  from sanitize_step_char [OF s] Cons.prems have "list_all nick_char b'" "length b' \<le> 24" by auto
  with Cons.IH [of b' prev'] s show ?case by auto
qed auto

lemma Trim_props:
  "set (Trim s cutset) \<subseteq> set s" "length (Trim s cutset) \<le> length s"
proof -
  have "set (Trim s cutset) \<subseteq> set (TrimLeft s cutset)" "set (TrimLeft s cutset) \<subseteq> set s"
    unfolding Trim_def TrimRight_def TrimLeft_def using set_dropWhileD by fastforce+
  then show "set (Trim s cutset) \<subseteq> set s" by blast
  have "length (dropWhile P t) \<le> length t" for P and t :: string
    by (simp add: length_dropWhile_le)
  from this [of _ "rev (TrimLeft s cutset)"] this [of _ s]
  show "length (Trim s cutset) \<le> length s"
    unfolding Trim_def TrimRight_def TrimLeft_def by (metis dual_order.trans length_rev)
qed

lemma Trim_ends:
  assumes "Trim s cutset \<noteq> []"
  shows "hd (Trim s cutset) \<notin> set cutset \<and> last (Trim s cutset) \<notin> set cutset"
proof -
  let ?P = "\<lambda>c. c \<in> set cutset" and ?l = "TrimLeft s cutset"
  have T: "Trim s cutset = rev (dropWhile ?P (rev ?l))" by (simp add: Trim_def TrimRight_def)
  with assms have ne: "dropWhile ?P (rev ?l) \<noteq> []" by auto
  then have "\<not> ?P (hd (dropWhile ?P (rev ?l)))" by (rule hd_dropWhile)
  then have "last (Trim s cutset) \<notin> set cutset" using T ne by (simp add: last_rev)
  moreover have "prefix (Trim s cutset) ?l"
    unfolding T using suffix_dropWhile [of ?P "rev ?l"] by (simp add: suffix_to_prefix)
  then have "hd (Trim s cutset) = hd ?l" using assms by (auto simp: prefix_def)
  moreover have "?l \<noteq> []" using assms T by auto
  then have "hd ?l \<notin> set cutset" unfolding TrimLeft_def by (rule hd_dropWhile)
  ultimately show ?thesis by simp
qed

lemma SanitizeNickname_Trim:
  "SanitizeNickname raw = Trim (sanitize_loop (runes raw) [] False) [CHR ''_'', CHR ''-'']"
  using Trim_props(2) [of "sanitize_loop (runes raw) [] False" "[CHR ''_'', CHR ''-'']"]
    sanitize_loop_props [of "[]" "runes raw" False]
  by (simp add: SanitizeNickname_def Let_def)

lemma SanitizeNickname_nick: "SanitizeNickname raw \<noteq> [] \<Longrightarrow> nickRE (SanitizeNickname raw)"
  using Trim_props [of "sanitize_loop (runes raw) [] False" "[CHR ''_'', CHR ''-'']"]
    sanitize_loop_props [of "[]" "runes raw" False]
  by (auto simp: SanitizeNickname_Trim nickRE_def list_all_iff Suc_le_eq)

text \<open>
  Whatever bytes a peer announces as its display name, the nickname derived from it is either empty,
  which the callers treat as none, or one that \<^verbatim>\<open>/nick\<close> itself would accept, that neither starts nor ends
  with an underscore or a hyphen.
\<close>

theorem SanitizeNickname_valid:
  "SanitizeNickname raw = [] \<or>
   nickRE (SanitizeNickname raw) \<and>
     hd (SanitizeNickname raw) \<notin> {CHR ''_'', CHR ''-''} \<and> last (SanitizeNickname raw) \<notin> {CHR ''_'', CHR ''-''}"
proof (cases "SanitizeNickname raw = []")
  case False
  then show ?thesis
    using SanitizeNickname_nick [OF False]
      Trim_ends [of "sanitize_loop (runes raw) [] False" "[CHR ''_'', CHR ''-'']"]
    by (simp add: SanitizeNickname_Trim)
qed simp

subsection \<open>What the parser makes of a command line\<close>

definition graphic :: "char \<Rightarrow> bool" where
  "graphic c \<longleftrightarrow> 33 \<le> ord c \<and> ord c < 127"

lemma space_width_graphic: "graphic c \<Longrightarrow> space_width (c # cs) = 0"
  by (simp add: space_width_def decode_rune_ascii graphic_def is_space_rune_def)

lemma space_width_blank: "space_width (CHR '' '' # cs) = 1"
  by (simp add: space_width_def decode_rune_ascii is_space_rune_def)

lemma span_word_graphic:
  "list_all graphic w \<Longrightarrow> span_word (w @ CHR '' '' # t) = (w, CHR '' '' # t)"
  by (induction w) (simp_all add: space_width_graphic space_width_blank)

lemma trim_left_graphic: "graphic c \<Longrightarrow> trim_left_space (c # cs) = c # cs"
  by (simp add: space_width_graphic)

lemma trim_left_blank: "trim_left_space (CHR '' '' # cs) = trim_left_space cs"
  by (simp add: space_width_blank)

lemma Fields_word:
  assumes "w \<noteq> []" and "list_all graphic w"
  shows "Fields (w @ CHR '' '' # t) = w # Fields t"
proof -
  obtain c cs where w: "w = c # cs" using assms(1) by (cases w) auto
  with assms(2) have "graphic c" "list_all graphic cs" by auto
  then have "Fields (w @ CHR '' '' # t) = (c # cs) # fields_from (trim_left_space (CHR '' '' # t))"
    using span_word_graphic [of cs t] unfolding Fields_def w append_Cons
    by (simp only: trim_left_graphic fields_from.simps fst_conv snd_conv)
  also have "\<dots> = w # Fields t" by (simp only: trim_left_blank Fields_def w)
  finally show ?thesis .
qed

text \<open>A blank in front of a text does not change what its last rune is.\<close>

lemma RuneError_not_space: "\<not> is_space_rune RuneError"
  by (simp add: is_space_rune_def RuneError_def)

lemma decode_last_behind_blank:
  assumes "t \<noteq> []"
  shows "decode_last_rune (p @ CHR '' '' # t) = decode_last_rune t"
proof -
  let ?s = "p @ CHR '' '' # t" and ?n = "length t"
  let ?P = "\<lambda>s k. k \<le> length s \<and> \<not> is_cont (s ! (length s - k))"
  have nth: "?s ! (length ?s - k) = t ! (?n - k)" and drp: "drop (length ?s - k) ?s = drop (?n - k) t"
    if "k \<le> ?n" "0 < k" for k
  proof -
    have e: "length ?s - k = Suc (length p) + (?n - k)" using that by simp
    have "?s ! (Suc (length p) + (?n - k)) = t ! (?n - k)" by (simp add: nth_append)
    then show "?s ! (length ?s - k) = t ! (?n - k)" by (simp only: e)
    have "drop (Suc (length p) + (?n - k)) ?s = drop (?n - k) t" by simp
    then show "drop (length ?s - k) ?s = drop (?n - k) t" by (simp only: e)
  qed
  have blank: "drop (length ?s - Suc ?n) ?s = CHR '' '' # t" "?s ! (length ?s - Suc ?n) = CHR '' ''"
    by (simp_all add: nth_append)
  have same: "?P ?s k = ?P t k" if "k \<le> ?n" "0 < k" for k using nth [OF that] that by simp
  have step: "(let (r, w) = decode_rune (drop (length ?s - k) ?s) in if w = k then (r, w) else (RuneError, 1))
      = (let (r, w) = decode_rune (drop (?n - k) t) in if w = k then (r, w) else (RuneError, 1))"
    if "k \<le> ?n" "0 < k" for k by (simp only: drp [OF that])
  have at_blank: "(let (r, w) = decode_rune (drop (length ?s - Suc ?n) ?s) in
      if w = Suc ?n then (r, w) else (RuneError, 1)) = (RuneError, 1)"
    using assms unfolding blank(1) by (simp add: decode_rune_ascii)
  have nb: "\<not> is_cont CHR '' ''" by (simp add: is_cont_def)
  have "?n \<noteq> 0" using assms by simp
  then consider "?n = 1" | "?n = 2" | "?n = 3" | "4 \<le> ?n" by linarith
  then show ?thesis
  proof cases
    case 1
    with same [of 1] step [of 1] at_blank blank(2) nb assms show ?thesis
      unfolding decode_last_rune_def by (cases "?P t 1") (auto simp: numeral_2_eq_2)
  next
    case 2
    with same [of 1] same [of 2] step [of 1] step [of 2] at_blank blank(2) nb assms show ?thesis
      unfolding decode_last_rune_def
      by (cases "?P t 1"; cases "?P t 2") (auto simp: numeral_3_eq_3 numeral_2_eq_2)
  next
    case 3
    with same [of 1] same [of 2] same [of 3] step [of 1] step [of 2] step [of 3] at_blank blank(2) nb assms
    show ?thesis
      unfolding decode_last_rune_def
      by (cases "?P t 1"; cases "?P t 2"; cases "?P t 3") (auto simp: eval_nat_numeral)
  next
    case 4
    with same [of 1] same [of 2] same [of 3] same [of 4] step [of 1] step [of 2] step [of 3] step [of 4] assms
    show ?thesis
      unfolding decode_last_rune_def
      by (cases "?P t 1"; cases "?P t 2"; cases "?P t 3"; cases "?P t 4") auto
  qed
qed

lemma space_width_last_behind_blank: "t \<noteq> [] \<Longrightarrow> space_width_last (p @ CHR '' '' # t) = space_width_last t"
  by (simp add: space_width_last_def decode_last_behind_blank)

lemma suffix_trim_left: "suffix (trim_left_space s) s"
proof (induction s rule: trim_left_space.induct)
  case (2 c cs)
  show ?case
  proof (cases "space_width (c # cs) = 0")
    case False
    have "suffix (drop (space_width (c # cs) - 1) cs) (c # cs)"
      using suffix_drop [of _ cs] by (rule suffix_ConsI)
    with 2 [OF False] False show ?thesis by (auto intro: suffix_order.trans)
  qed simp
qed simp

lemma trim_right_length: "length (trim_right_space s) \<le> length s"
proof (induction s rule: trim_right_space.induct)
  case (1 s)
  then show ?case by (subst trim_right_space.simps) (auto intro: order.trans)
qed

lemma TrimSpace_fixed:
  assumes "TrimSpace t = t"
  shows "trim_left_space t = t" and "t \<noteq> [] \<Longrightarrow> space_width_last t = 0"
proof -
  have "length t \<le> length (trim_left_space t)"
    using trim_right_length [of "trim_left_space t"] assms by (simp add: TrimSpace_def)
  then show l: "trim_left_space t = t"
    using suffix_trim_left [of t] by (metis suffix_length_le suffix_order.antisym suffix_def append_eq_append_conv
        append_self_conv2 le_antisym self_append_conv2)
  assume "t \<noteq> []"
  show "space_width_last t = 0"
  proof (rule ccontr)
    assume w: "space_width_last t \<noteq> 0"
    have "0 < length t" using \<open>t \<noteq> []\<close> by simp
    then have "length (take (length t - space_width_last t) t) < length t"
      using w diff_less [of "space_width_last t" "length t"] unfolding length_take by linarith
    then have "length (trim_right_space t) < length t"
      using w \<open>t \<noteq> []\<close> trim_right_length [of "take (length t - space_width_last t) t"]
        trim_right_space.simps [of t] by (simp only: if_False simp_thms le_less_trans)
    with l assms show False by (simp add: TrimSpace_def)
  qed
qed

lemma trim_right_fixed: "space_width_last s = 0 \<Longrightarrow> trim_right_space s = s"
  by (subst trim_right_space.simps) simp

lemma TrimSpace_line:
  assumes "graphic c" and "TrimSpace t = t" and "t \<noteq> []"
  shows "TrimSpace (c # p @ CHR '' '' # t) = c # p @ CHR '' '' # t"
proof -
  have "space_width_last ((c # p) @ CHR '' '' # t) = 0"
    by (simp only: space_width_last_behind_blank [OF assms(3)] TrimSpace_fixed(2) [OF assms(2,3)])
  then show ?thesis
    unfolding TrimSpace_def trim_left_graphic [OF assms(1)] by (intro trim_right_fixed) simp
qed

lemma TrimSpace_blank: "TrimSpace (CHR '' '' # t) = TrimSpace t"
  by (simp only: TrimSpace_def trim_left_blank)

lemma Fields_blank: "Fields (CHR '' '' # t) = Fields t"
  by (simp only: Fields_def trim_left_blank)

text \<open>
  C26: a command line keeps what its author typed. For a command word of graphic ASCII characters and an
  argument text without surrounding white space, in any script, \<^verbatim>\<open>/word text\<close> is a command, its name is
  the lower-cased word, its arguments are the fields of the text and \<^verbatim>\<open>Rest\<close> is the text byte for byte.
  With a blank between the slash and the word the name and the arguments are the same, but \<^verbatim>\<open>Rest\<close> wrongly
  starts with the command word: \<^verbatim>\<open>/ pin hello\<close> pins ``pin hello''.
\<close>

theorem Parse_command:
  assumes "w \<noteq> []" and "list_all graphic w" and "t \<noteq> []" and "TrimSpace t = t"
  shows "IsCommand (''/'' @ w @ '' '' @ t) \<and>
    Parse un (''/'' @ w @ '' '' @ t) =
      \<lparr>Name = ToLower un w, Args = Fields t, Rest = t, Raw = ''/'' @ w @ '' '' @ t\<rparr> \<and>
    Parse un (''/ '' @ w @ '' '' @ t) =
      \<lparr>Name = ToLower un w, Args = Fields t, Rest = w @ '' '' @ t, Raw = ''/ '' @ w @ '' '' @ t\<rparr>"
proof -
  obtain c cs where w: "w = c # cs" "graphic c" using assms(1,2) by (cases w) auto
  have sl: "graphic CHR ''/''" by (simp add: graphic_def)
  have trim1: "TrimSpace (CHR ''/'' # w @ CHR '' '' # t) = CHR ''/'' # w @ CHR '' '' # t"
    using TrimSpace_line [OF sl assms(4,3), of w] .
  have trim2: "TrimSpace (CHR ''/'' # CHR '' '' # w @ CHR '' '' # t) = CHR ''/'' # CHR '' '' # w @ CHR '' '' # t"
    using TrimSpace_line [OF sl assms(4,3), of "CHR '' '' # w"] by simp
  have trim3: "TrimSpace (w @ CHR '' '' # t) = w @ CHR '' '' # t"
    using TrimSpace_line [OF w(2) assms(4,3), of cs] w(1) by simp
  have "c \<noteq> CHR '' ''" using w(2) by (auto simp: graphic_def)
  then have "\<not> prefix w (CHR '' '' # w @ CHR '' '' # t)" by (simp add: w(1))
  then show ?thesis
    using trim1 trim2 trim3 assms(4)
    by (simp add: IsCommand_def Parse_def Let_def HasPrefix_def TrimPrefix_def TrimLeft_def TrimSpace_blank
        Fields_blank Fields_word [OF assms(1,2)])
qed

theorem Parse_command_witness:
  "Rest (Parse \<lparr>uc_lower = id, uc_print = (\<lambda>_. True)\<rparr> ''/pin hello'') = ''hello'' \<and>
   Rest (Parse \<lparr>uc_lower = id, uc_print = (\<lambda>_. True)\<rparr> ''/ pin hello'') = ''pin hello''"
proof -
  have "TrimSpace ''hello'' = ''hello''" by (simp add: text_eval decode_rune.simps)
  moreover have "list_all graphic ''pin''" by (simp add: graphic_def)
  ultimately show ?thesis
    using Parse_command [of "''pin''" "''hello''" "\<lparr>uc_lower = id, uc_print = (\<lambda>_. True)\<rparr>"] by simp
qed

end
