(* ===== verification/Config.thy ===== *)
theory Config
  imports GoFmt
begin

text \<open>
  \<^verbatim>\<open>internal/config\<close>: the configuration records, their defaults, durations with day and week units, and
  the checks \<^verbatim>\<open>normalize\<close> runs before anything starts. The TOML decoder is not part of the repository: what
  it makes of the file is an argument of \<open>Load\<close>, and so is \<^verbatim>\<open>time.ParseDuration\<close>, to which
  \<open>ParseDuration\<close> hands everything that is not a number of days or weeks. The home directory is an
  argument of \<open>ExpandPath\<close>. Errors are values of \<open>config_error\<close>, one constructor per message.

  A Go \<^verbatim>\<open>int\<close> of the configuration is an \<^typ>\<open>int\<close>; the one place where the code multiplies such a value,
  \<open>ParseDuration\<close>, wraps at 64 bits as the code does.
\<close>

subsection \<open>Records\<close>

record PropagationConfig =
  Enabled :: bool
  Node :: string
  Mode :: string
  DirectAttempts :: int

record ServiceConfig =
  DisplayName :: string
  IdentityPath :: string
  IdentityB64 :: string
  StatePath :: string
  HistoryPath :: string
  LogPath :: string
  PruneAfter :: duration
  PruneSilentAfter :: duration
  PruneInterval :: duration
  AnnounceInterval :: duration
  MaxInboundChars :: int
  MaxMembers :: int
  DedupWindow :: duration
  Locked :: bool
  InboundStampCost :: int
  EnforceInboundStamps :: bool
  ForwardAttachments :: bool
  MaxAttachmentBytes :: int
  IDCacheTTL :: duration
  IDCacheMax :: int
  ForwardedFields :: "int list"

record InterfaceConfig =
  IType :: string
  Addr :: string
  Timeout :: duration

record ReplayConfig =
  Count :: int
  MaxAge :: duration
  PinsOnJoin :: bool

record Config =
  Service :: ServiceConfig
  Interfaces :: "InterfaceConfig list"
  Replay :: ReplayConfig
  Propagation :: PropagationConfig
  Admins :: "string list"
  Mods :: "string list"
  Warnings :: "string list"

definition identityHashLen :: nat where "identityHashLen = 16"
definition identityPrivateKeyLen :: nat where "identityPrivateKeyLen = 64"
definition PropagationModeFallback :: string where "PropagationModeFallback = ''fallback''"
definition PropagationModeAlways :: string where "PropagationModeAlways = ''always''"
definition fieldOriginatorIdentity :: int where "fieldOriginatorIdentity = 251"
definition fieldOriginatorHash :: int where "fieldOriginatorHash = 252"
definition DefaultMaxMembers :: int where "DefaultMaxMembers = 512"
definition MaxAnnouncedStampCost :: int where "MaxAnnouncedStampCost = 254"
definition DefaultPropagationDirectAttempts :: int where "DefaultPropagationDirectAttempts = 3"

definition NodeBytes :: "PropagationConfig \<Rightarrow> bytes option" where
  "NodeBytes p =
     (if Node p = [] then None
      else case DecodeString (Node p) of
             None \<Rightarrow> None
           | Some raw \<Rightarrow> if length raw \<noteq> identityHashLen then None else Some raw)"

subsection \<open>Durations\<close>

definition wrap64 :: "int \<Rightarrow> int" where
  "wrap64 x = (x + 2 ^ 63) mod 2 ^ 64 - 2 ^ 63"

text \<open>
  The number \<^verbatim>\<open>strconv.Atoi\<close> returns beside its error, which \<^verbatim>\<open>ParseDuration\<close> ignores: on a value out of
  range it is the largest integer.
\<close>

definition Atoi_value :: "string \<Rightarrow> int" where
  "Atoi_value s = (case Atoi s of Some n \<Rightarrow> n | None \<Rightarrow> maxInt)"

definition ext_duration :: "string \<Rightarrow> (string \<times> char) option" where
  "ext_duration s =
     (if s = [] then None
      else (let ds = butlast s; unit = last s in
        if ds \<noteq> [] \<and> list_all is_digit ds \<and> (unit = CHR ''d'' \<or> unit = CHR ''w'')
        then Some (ds, unit) else None))"

definition ParseDuration :: "(string \<Rightarrow> duration option) \<Rightarrow> string \<Rightarrow> duration option" where
  "ParseDuration stdParse s = (case ext_duration s of
      Some (ds, unit) \<Rightarrow>
        (let n = Atoi_value ds in
         if unit = CHR ''d'' then Some (wrap64 (wrap64 (n * 24) * Hour))
         else Some (wrap64 (wrap64 (wrap64 (n * 7) * 24) * Hour)))
    | None \<Rightarrow> stdParse s)"

subsection \<open>Paths and base64\<close>

fun split_slash :: "string \<Rightarrow> string list" where
  "split_slash [] = [[]]"
| "split_slash (c # cs) =
     (if c = CHR ''/'' then [] # split_slash cs
      else case split_slash cs of [] \<Rightarrow> [[c]] | w # ws \<Rightarrow> (c # w) # ws)"

text \<open>One component of \<^verbatim>\<open>filepath.Clean\<close> on the stack of components kept so far, innermost first.\<close>

definition clean_step :: "bool \<Rightarrow> string \<Rightarrow> string list \<Rightarrow> string list" where
  "clean_step rooted w stack =
     (if w = [] \<or> w = ''.'' then stack
      else if w = ''..'' then
        (case stack of
           w0 # rest \<Rightarrow> if w0 \<noteq> ''..'' then rest else ''..'' # stack
         | [] \<Rightarrow> if rooted then [] else [''..''])
      else w # stack)"

definition path_clean :: "string \<Rightarrow> string" where
  "path_clean p =
     (let rooted = HasPrefix p ''/'';
          body = Join (rev (fold (clean_step rooted) (split_slash p) [])) ''/''
      in if rooted then ''/'' @ body else if body = [] then ''.'' else body)"

definition path_join :: "string \<Rightarrow> string \<Rightarrow> string" where
  "path_join a b =
     (if a = [] \<and> b = [] then []
      else path_clean (Join (filter (\<lambda>w. w \<noteq> []) [a, b]) ''/''))"

definition ExpandPath :: "string + string \<Rightarrow> string \<Rightarrow> string + string" where
  "ExpandPath homeDir p =
     (if p = [] then Inr p
      else if HasPrefix p ''~'' then
        (case homeDir of
           Inl e \<Rightarrow> Inl e
         | Inr home \<Rightarrow> Inr (path_clean (path_join home (TrimPrefix p ''~''))))
      else Inr (path_clean p))"

definition b64_value :: "char \<Rightarrow> nat option" where
  "b64_value c = (let b = ord c in
     if 65 \<le> b \<and> b \<le> 90 then Some (b - 65)
     else if 97 \<le> b \<and> b \<le> 122 then Some (b - 71)
     else if 48 \<le> b \<and> b \<le> 57 then Some (b + 4)
     else if b = 43 then Some 62 else if b = 47 then Some 63 else None)"

fun b64_quanta :: "string \<Rightarrow> bytes option" where
  "b64_quanta [] = Some []"
| "b64_quanta (a # b # c # d # rest) =
     (case (b64_value a, b64_value b) of
        (Some x, Some y) \<Rightarrow>
          (if d = CHR ''='' then
             (if rest \<noteq> [] then None
              else if c = CHR ''='' then Some [chr (x * 4 + y div 16)]
              else (case b64_value c of
                      Some z \<Rightarrow> Some [chr (x * 4 + y div 16), chr (y mod 16 * 16 + z div 4)]
                    | None \<Rightarrow> None))
           else (case (b64_value c, b64_value d, b64_quanta rest) of
                   (Some z, Some w, Some bs) \<Rightarrow>
                     Some (chr (x * 4 + y div 16) # chr (y mod 16 * 16 + z div 4) # chr (z mod 4 * 64 + w) # bs)
                 | _ \<Rightarrow> None))
      | _ \<Rightarrow> None)"
| "b64_quanta _ = None"

definition b64_decode :: "string \<Rightarrow> bytes option" where
  "b64_decode s = b64_quanta (filter (\<lambda>c. c \<noteq> CHR 0x0A \<and> c \<noteq> CHR 0x0D) s)"

subsection \<open>Defaults, unknown keys\<close>

definition service_tags :: "string list" where
  "service_tags = [''display_name'', ''identity_path'', ''identity_b64'', ''state_path'', ''history_path'',
     ''log_path'', ''prune_after'', ''prune_silent_after'', ''prune_interval'', ''announce_interval'',
     ''max_inbound_chars'', ''max_members'', ''dedup_window'', ''locked'', ''inbound_stamp_cost'',
     ''enforce_inbound_stamps'', ''forward_attachments'', ''max_attachment_bytes'', ''id_cache_ttl'',
     ''id_cache_max'', ''forwarded_fields'']"

definition replay_tags :: "string list" where
  "replay_tags = [''count'', ''max_age'', ''pins_on_join'']"

definition propagation_tags :: "string list" where
  "propagation_tags = [''enabled'', ''node'', ''mode'', ''direct_attempts'']"

text \<open>
  \<^verbatim>\<open>sectionsByKey\<close> walks the struct fields of \<^verbatim>\<open>Config\<close> by reflection: the sections, in field order,
  whose struct carries the key as a tag.
\<close>

definition sectionsByKey :: "string \<Rightarrow> string list" where
  "sectionsByKey k =
     (if k \<in> set service_tags then [''service''] else []) @
     (if k \<in> set replay_tags then [''replay''] else []) @
     (if k \<in> set propagation_tags then [''propagation''] else [])"

definition unknownKeyWarnings :: "unicode \<Rightarrow> (string list \<Rightarrow> string) \<Rightarrow> string list list \<Rightarrow> string list" where
  "unknownKeyWarnings un keyString keys =
     map (\<lambda>k. ''config key '' @ Quote un (keyString k) @ '' is not recognised and has no effect'' @
        (if length k = 1 \<and> sectionsByKey (hd k) \<noteq> [] then
           '' (it belongs under ['' @ Join (sectionsByKey (hd k)) ''] or ['' @ ''] '' @ mdash @
           '' keys after a [section] header, or before the first one, are scoped by TOML to that position)''
         else '''')) keys"

definition defaults :: Config where
  "defaults = \<lparr>
     Service = \<lparr>DisplayName = ''Group Chat - send /join'', IdentityPath = ''~/.fwdsvc/identity'',
       IdentityB64 = '''', StatePath = ''~/.fwdsvc/state.json'', HistoryPath = ''~/.fwdsvc/history.json'',
       LogPath = '''', PruneAfter = 4 * 7 * 24 * Hour, PruneSilentAfter = 6 * 7 * 24 * Hour,
       PruneInterval = 1 * Hour, AnnounceInterval = 10 * Minute, MaxInboundChars = 500,
       MaxMembers = DefaultMaxMembers, DedupWindow = 1 * Hour, Locked = False, InboundStampCost = 0,
       EnforceInboundStamps = False, ForwardAttachments = True, MaxAttachmentBytes = 1000 * 1024,
       IDCacheTTL = 24 * Hour, IDCacheMax = 10000, ForwardedFields = [6, 48, 49, 64, 65, 66]\<rparr>,
     Interfaces = [],
     Replay = \<lparr>Count = 100, MaxAge = 7 * 24 * Hour, PinsOnJoin = True\<rparr>,
     Propagation = \<lparr>Enabled = False, Node = '''', Mode = PropagationModeFallback, DirectAttempts = 3\<rparr>,
     Admins = [], Mods = [], Warnings = []\<rparr>"

subsection \<open>Normalisation\<close>

datatype config_error =
    ErrPath string | ErrDecode string | ErrDisplayName | ErrPruneInterval | ErrPruneAfter
  | ErrPruneSilentAfter | ErrAnnounceInterval | ErrMaxInboundChars | ErrMaxMembers | ErrDedupWindow
  | ErrMaxAttachmentBytes | ErrStampCost | ErrEnforceStamps | ErrIDCacheTTL | ErrIDCacheMax
  | ErrFieldNegative nat | ErrFieldReserved nat int | ErrB64 | ErrB64Len nat | ErrIfaceType nat string
  | ErrIfaceAddr nat | ErrReplayCount | ErrReplayMaxAge | ErrMode string | ErrDirectAttempts int
  | ErrNodeHex string | ErrNodeLen string nat | ErrListHex string string | ErrListLen string string nat

definition normalizeHashList :: "unicode \<Rightarrow> string list \<Rightarrow> string list" where
  "normalizeHashList un hs =
     foldl (\<lambda>out h0. let h = ToLower un (TrimSpace h0) in
              if h = [] then out else if h \<in> set out then out else out @ [h]) [] hs"

fun validateHashes :: "string \<Rightarrow> string list \<Rightarrow> config_error option" where
  "validateHashes field [] = None"
| "validateHashes field (h # hs) = (case DecodeString h of
      None \<Rightarrow> Some (ErrListHex field h)
    | Some raw \<Rightarrow> if length raw \<noteq> identityHashLen then Some (ErrListLen field h (length raw))
                  else validateHashes field hs)"

fun check_fields :: "nat \<Rightarrow> int list \<Rightarrow> config_error option" where
  "check_fields i [] = None"
| "check_fields i (k # ks) =
     (if k < 0 then Some (ErrFieldNegative i)
      else if k = fieldOriginatorIdentity \<or> k = fieldOriginatorHash then Some (ErrFieldReserved i k)
      else check_fields (Suc i) ks)"

fun check_interfaces :: "nat \<Rightarrow> InterfaceConfig list \<Rightarrow> config_error option" where
  "check_interfaces i [] = None"
| "check_interfaces i (x # xs) =
     (if IType x \<noteq> ''tcp_client'' then Some (ErrIfaceType i (IType x))
      else if TrimSpace (Addr x) = [] then Some (ErrIfaceAddr i)
      else check_interfaces (Suc i) xs)"

text \<open>The four paths, expanded in order; the first failure stops.\<close>

definition expand_paths :: "string + string \<Rightarrow> ServiceConfig \<Rightarrow> string + ServiceConfig" where
  "expand_paths home s =
     (case ExpandPath home (IdentityPath s) of Inl e \<Rightarrow> Inl e | Inr a \<Rightarrow>
      (case ExpandPath home (StatePath s) of Inl e \<Rightarrow> Inl e | Inr b \<Rightarrow>
      (case ExpandPath home (HistoryPath s) of Inl e \<Rightarrow> Inl e | Inr c \<Rightarrow>
      (case ExpandPath home (LogPath s) of Inl e \<Rightarrow> Inl e | Inr d \<Rightarrow>
         Inr (s\<lparr>IdentityPath := a, StatePath := b, HistoryPath := c, LogPath := d\<rparr>)))))"

text \<open>The checks on the service section that read numbers only, in source order.\<close>

definition check_service :: "ServiceConfig \<Rightarrow> config_error option" where
  "check_service s =
     (if TrimSpace (DisplayName s) = [] then Some ErrDisplayName
      else if PruneInterval s \<le> 0 then Some ErrPruneInterval
      else if PruneAfter s \<le> 0 then Some ErrPruneAfter
      else if PruneSilentAfter s < 0 then Some ErrPruneSilentAfter
      else if AnnounceInterval s \<le> 0 then Some ErrAnnounceInterval
      else if MaxInboundChars s < 0 then Some ErrMaxInboundChars
      else if MaxMembers s < 0 then Some ErrMaxMembers
      else if DedupWindow s < 0 then Some ErrDedupWindow
      else if MaxAttachmentBytes s < 0 then Some ErrMaxAttachmentBytes
      else if InboundStampCost s < 0 \<or> InboundStampCost s > MaxAnnouncedStampCost then Some ErrStampCost
      else if EnforceInboundStamps s \<and> InboundStampCost s = 0 then Some ErrEnforceStamps
      else if IDCacheTTL s < 0 then Some ErrIDCacheTTL
      else if IDCacheMax s < 0 then Some ErrIDCacheMax
      else check_fields 0 (ForwardedFields s))"

definition check_b64 :: "ServiceConfig \<Rightarrow> config_error + ServiceConfig" where
  "check_b64 s =
     (let t = TrimSpace (IdentityB64 s) in
      if t = [] then Inr s
      else case b64_decode t of
             None \<Rightarrow> Inl ErrB64
           | Some raw \<Rightarrow> if length raw \<noteq> identityPrivateKeyLen then Inl (ErrB64Len (length raw))
                         else Inr (s\<lparr>IdentityB64 := t\<rparr>))"

definition normalize_propagation :: "unicode \<Rightarrow> PropagationConfig \<Rightarrow> config_error + PropagationConfig" where
  "normalize_propagation un p =
     (let m = ToLower un (TrimSpace (Mode p));
          m = (if m = [] then PropagationModeFallback else m) in
      if m \<noteq> PropagationModeFallback \<and> m \<noteq> PropagationModeAlways then Inl (ErrMode m)
      else if DirectAttempts p < 0 then Inl (ErrDirectAttempts (DirectAttempts p))
      else
        (let da = (if DirectAttempts p = 0 then DefaultPropagationDirectAttempts else DirectAttempts p);
             n = ToLower un (TrimSpace (Node p));
             p' = p\<lparr>Mode := m, DirectAttempts := da, Node := n\<rparr> in
         if n = [] then Inr p'
         else case DecodeString n of
                None \<Rightarrow> Inl (ErrNodeHex n)
              | Some raw \<Rightarrow> if length raw \<noteq> identityHashLen then Inl (ErrNodeLen n (length raw)) else Inr p'))"

definition normalize :: "unicode \<Rightarrow> string + string \<Rightarrow> Config \<Rightarrow> config_error + Config" where
  "normalize un home c =
     (case expand_paths home (Service c) of Inl e \<Rightarrow> Inl (ErrPath e) | Inr s1 \<Rightarrow>
      case check_service s1 of Some e \<Rightarrow> Inl e | None \<Rightarrow>
      case check_b64 s1 of Inl e \<Rightarrow> Inl e | Inr s2 \<Rightarrow>
      case check_interfaces 0 (Interfaces c) of Some e \<Rightarrow> Inl e | None \<Rightarrow>
      if Count (Replay c) < 0 then Inl ErrReplayCount
      else if MaxAge (Replay c) < 0 then Inl ErrReplayMaxAge
      else case normalize_propagation un (Propagation c) of Inl e \<Rightarrow> Inl e | Inr p \<Rightarrow>
        (let as = normalizeHashList un (Admins c); ms = normalizeHashList un (Mods c) in
         case validateHashes ''admins'' as of Some e \<Rightarrow> Inl e | None \<Rightarrow>
         case validateHashes ''mods'' ms of Some e \<Rightarrow> Inl e | None \<Rightarrow>
           Inr (c\<lparr>Service := s2, Propagation := p, Admins := as, Mods := ms\<rparr>)))"

definition Load ::
  "unicode \<Rightarrow> string + string \<Rightarrow> (string list \<Rightarrow> string) \<Rightarrow>
   (string \<Rightarrow> Config \<Rightarrow> string + (Config \<times> string list list)) \<Rightarrow> string \<Rightarrow> config_error + Config"
where
  "Load un home keyString decodeFile path =
     (case ExpandPath home path of Inl e \<Rightarrow> Inl (ErrPath e) | Inr expanded \<Rightarrow>
      case decodeFile expanded defaults of Inl e \<Rightarrow> Inl (ErrDecode e) | Inr (c, undecoded) \<Rightarrow>
      case normalize un home c of Inl e \<Rightarrow> Inl e | Inr c' \<Rightarrow>
        Inr (c'\<lparr>Warnings := unknownKeyWarnings un keyString undecoded\<rparr>))"

definition IsAdmin :: "unicode \<Rightarrow> Config \<Rightarrow> string \<Rightarrow> bool" where
  "IsAdmin un c hashHex \<longleftrightarrow> ToLower un hashHex \<in> set (Admins c)"

definition IsMod :: "unicode \<Rightarrow> Config \<Rightarrow> string \<Rightarrow> bool" where
  "IsMod un c hashHex \<longleftrightarrow> ToLower un hashHex \<in> set (Mods c)"

subsection \<open>What an accepted configuration satisfies\<close>

text \<open>
  The Unicode table must not produce an ASCII capital as the lower case of a non-ASCII letter; Go's table
  does not.
\<close>

definition lower_ok :: "unicode \<Rightarrow> bool" where
  "lower_ok un \<longleftrightarrow> (\<forall>r. 128 \<le> r \<longrightarrow> uc_lower un r < 65 \<or> 90 < uc_lower un r)"

definition service_ok :: "ServiceConfig \<Rightarrow> bool" where
  "service_ok s \<longleftrightarrow> TrimSpace (DisplayName s) \<noteq> [] \<and> 0 < PruneInterval s \<and> 0 < PruneAfter s \<and>
     0 \<le> PruneSilentAfter s \<and> 0 < AnnounceInterval s \<and> 0 \<le> MaxInboundChars s \<and> 0 \<le> MaxMembers s \<and>
     0 \<le> DedupWindow s \<and> 0 \<le> MaxAttachmentBytes s \<and> 0 \<le> InboundStampCost s \<and> InboundStampCost s \<le> 254 \<and>
     (EnforceInboundStamps s \<longrightarrow> 0 < InboundStampCost s) \<and> 0 \<le> IDCacheTTL s \<and> 0 \<le> IDCacheMax s \<and>
     (\<forall>k \<in> set (ForwardedFields s). 0 \<le> k \<and> k \<noteq> 251 \<and> k \<noteq> 252)"

definition propagation_ok :: "PropagationConfig \<Rightarrow> bool" where
  "propagation_ok p \<longleftrightarrow> (Mode p = ''fallback'' \<or> Mode p = ''always'') \<and> 1 \<le> DirectAttempts p \<and>
     (Node p = [] \<and> NodeBytes p = None \<or>
      hex_hash (Node p) \<and> (\<exists>b. NodeBytes p = Some b \<and> length b = 16 \<and> EncodeToString b = Node p))"

definition config_ok :: "Config \<Rightarrow> bool" where
  "config_ok c \<longleftrightarrow> service_ok (Service c) \<and> propagation_ok (Propagation c) \<and>
     (\<forall>x \<in> set (Interfaces c). IType x = ''tcp_client'' \<and> TrimSpace (Addr x) \<noteq> []) \<and>
     0 \<le> Count (Replay c) \<and> 0 \<le> MaxAge (Replay c) \<and>
     distinct (Admins c) \<and> distinct (Mods c) \<and> (\<forall>h \<in> set (Admins c) \<union> set (Mods c). hex_hash h)"

lemma encode_rune_ascii: "c \<in> set (encode_rune r) \<Longrightarrow> ord c < 128 \<Longrightarrow> ord c = r"
  by (auto simp: encode_rune_def Let_def RuneError_def scalar_def split: if_splits)

lemma ToLower_no_capital:
  assumes "lower_ok un" and "c \<in> set (ToLower un s)" and "ord c < 128"
  shows "\<not> (65 \<le> ord c \<and> ord c \<le> 90)"
proof (cases "is_ascii s")
  case True
  with assms(2) show ?thesis by (auto simp: ToLower_def lower_char_def split: if_splits)
next
  case False
  with assms(2) obtain r where "c \<in> set (encode_rune (if r < 128 then ord (lower_char (chr r)) else uc_lower un r))"
    by (auto simp: ToLower_def)
  with assms(3) have "ord c = (if r < 128 then ord (lower_char (chr r)) else uc_lower un r)"
    by (intro encode_rune_ascii)
  with assms(1) show ?thesis
    by (auto simp: lower_ok_def lower_char_def not_less split: if_splits)
qed

lemma DecodeString_chars:
  "DecodeString h = Some b \<Longrightarrow> length h = 2 * length b \<and> (\<forall>c \<in> set h. from_hex_char c \<noteq> None)"
  by (induction h arbitrary: b rule: DecodeString.induct) (auto split: option.splits)

lemma lowered_hex:
  assumes "lower_ok un" and "h = ToLower un s" and "DecodeString h = Some b" and "length b = 16"
  shows "hex_hash h"
proof -
  have "is_lower_hex c" if "c \<in> set h" for c
    using DecodeString_chars [OF assms(3)] that ToLower_no_capital [OF assms(1), of c s] assms(2)
    by (auto simp: from_hex_char_def is_lower_hex_def Let_def split: if_splits)
  then show ?thesis using DecodeString_chars [OF assms(3)] assms(4) by (auto simp: hex_hash_def list_all_iff)
qed

lemma check_fields_None: "check_fields i ks = None \<longleftrightarrow> (\<forall>k \<in> set ks. 0 \<le> k \<and> k \<noteq> 251 \<and> k \<noteq> 252)"
  by (induction ks arbitrary: i)
     (simp_all add: fieldOriginatorIdentity_def fieldOriginatorHash_def not_less)

lemma check_service_None: "check_service s = None \<Longrightarrow> service_ok s"
  by (simp add: check_service_def service_ok_def MaxAnnouncedStampCost_def check_fields_None
      split: if_split_asm) linarith

lemma service_ok_b64: "check_b64 s = Inr s' \<Longrightarrow> service_ok s \<Longrightarrow> service_ok s'"
proof -
  assume "check_b64 s = Inr s'"
  then have "s' = s \<or> s' = s\<lparr>IdentityB64 := TrimSpace (IdentityB64 s)\<rparr>"
    by (simp add: check_b64_def Let_def split: if_split_asm option.split_asm)
  moreover have "service_ok (s\<lparr>IdentityB64 := t\<rparr>) = service_ok s" for t by (simp add: service_ok_def)
  ultimately show "service_ok s \<Longrightarrow> service_ok s'" by (elim disjE) simp_all
qed

lemma check_interfaces_None:
  "check_interfaces i xs = None \<Longrightarrow> \<forall>x \<in> set xs. IType x = ''tcp_client'' \<and> TrimSpace (Addr x) \<noteq> []"
  by (induction i xs rule: check_interfaces.induct) (auto split: if_splits)

lemma normalizeHashList_props:
  "distinct (normalizeHashList un hs) \<and>
   (\<forall>h \<in> set (normalizeHashList un hs). h \<noteq> [] \<and> (\<exists>s \<in> set hs. h = ToLower un (TrimSpace s)))"
proof -
  define f where "f = (\<lambda>out h0. let h = ToLower un (TrimSpace h0) in
      if h = [] then out else if h \<in> set out then out else out @ [h])"
  have "distinct (foldl f acc hs) \<and>
      (\<forall>h \<in> set (foldl f acc hs). h \<noteq> [] \<and> (h \<in> set acc \<or> (\<exists>s \<in> set hs. h = ToLower un (TrimSpace s))))"
    if "distinct acc" "[] \<notin> set acc" for acc
    using that
  proof (induction hs arbitrary: acc)
    case (Cons x hs)
    let ?h = "ToLower un (TrimSpace x)"
    show ?case
    proof (cases "?h = [] \<or> ?h \<in> set acc")
      case True
      then have "f acc x = acc" by (auto simp: f_def Let_def)
      with Cons.IH [OF Cons.prems] show ?thesis by auto
    next
      case False
      then have f: "f acc x = acc @ [?h]" by (simp add: f_def Let_def)
      have "distinct (acc @ [?h])" "[] \<notin> set (acc @ [?h])" using False Cons.prems by auto
      from Cons.IH [OF this] f show ?thesis by auto
    qed
  qed auto
  from this [of "[]"] have "distinct (foldl f [] hs) \<and>
      (\<forall>h \<in> set (foldl f [] hs). h \<noteq> [] \<and> (\<exists>s \<in> set hs. h = ToLower un (TrimSpace s)))"
    by simp
  moreover have "normalizeHashList un hs = foldl f [] hs" by (simp only: normalizeHashList_def f_def)
  ultimately show ?thesis by simp
qed

lemma validateHashes_None:
  "validateHashes f hs = None \<Longrightarrow> \<forall>h \<in> set hs. \<exists>b. DecodeString h = Some b \<and> length b = 16"
  by (induction f hs rule: validateHashes.induct)
     (auto simp: identityHashLen_def split: option.splits if_splits)

lemma normalized_hashes:
  assumes "lower_ok un" and "validateHashes f (normalizeHashList un hs) = None"
    and "h \<in> set (normalizeHashList un hs)"
  shows "hex_hash h"
proof -
  from validateHashes_None [OF assms(2)] assms(3)
  obtain b where "DecodeString h = Some b" "length b = 16" by blast
  moreover obtain s where "h = ToLower un (TrimSpace s)"
    using normalizeHashList_props assms(3) by blast
  ultimately show ?thesis by (intro lowered_hex [OF assms(1)])
qed

lemma normalize_propagation_ok:
  assumes "lower_ok un" and "normalize_propagation un p = Inr p'"
  shows "propagation_ok p'"
proof -
  have mode: "(Mode p' = ''fallback'' \<or> Mode p' = ''always'') \<and> 1 \<le> DirectAttempts p'"
    using assms(2)
    by (auto simp: normalize_propagation_def Let_def PropagationModeFallback_def PropagationModeAlways_def
        DefaultPropagationDirectAttempts_def split: if_splits option.splits)
  have node: "Node p' = ToLower un (TrimSpace (Node p)) \<and> (Node p' = [] \<or>
      (\<exists>b. DecodeString (Node p') = Some b \<and> length b = 16))"
    using assms(2)
    by (auto simp: normalize_propagation_def Let_def identityHashLen_def split: if_splits option.splits)
  show ?thesis
  proof (cases "Node p' = []")
    case True
    with mode show ?thesis by (simp add: propagation_ok_def NodeBytes_def)
  next
    case False
    with node obtain b where b: "DecodeString (Node p') = Some b" "length b = 16" by blast
    then have hx: "hex_hash (Node p')" using node by (intro lowered_hex [OF assms(1)]) auto
    then obtain b' where "DecodeString (Node p') = Some b'" "EncodeToString b' = Node p'"
      by (rule Decode_hex_hash)
    with b hx mode False show ?thesis
      by (auto simp: propagation_ok_def NodeBytes_def identityHashLen_def)
  qed
qed

text \<open>
  C24: whatever the configuration file says, a configuration that passes \<^verbatim>\<open>normalize\<close> is safe to run with:
  every interval that drives a ticker is positive, no limit is negative, stamps are enforced only with a
  positive cost of at most 254, none of the forwarded fields is one of the two that carry the relay's own
  attribution, the propagation mode and retry budget are usable and a configured node is exactly 16 bytes,
  and the admin and mod lists hold distinct lower-case hashes.
\<close>

theorem normalize_sound:
  assumes "lower_ok un" and "normalize un home c = Inr c'"
  shows "config_ok c'"
proof -
  from assms(2) obtain s1 s2 p where
    s: "check_service s1 = None" "check_b64 s1 = Inr s2" and
    i: "check_interfaces 0 (Interfaces c) = None" and
    r: "0 \<le> Count (Replay c)" "0 \<le> MaxAge (Replay c)" and
    p: "normalize_propagation un (Propagation c) = Inr p" and
    v: "validateHashes ''admins'' (normalizeHashList un (Admins c)) = None"
       "validateHashes ''mods'' (normalizeHashList un (Mods c)) = None" and
    c': "c' = c\<lparr>Service := s2, Propagation := p, Admins := normalizeHashList un (Admins c),
      Mods := normalizeHashList un (Mods c)\<rparr>"
    by (auto simp: normalize_def Let_def split: sum.splits option.splits if_splits)
  have "service_ok s2" using s by (blast intro: service_ok_b64 check_service_None)
  with i r v c' normalize_propagation_ok [OF assms(1) p] check_interfaces_None [OF i]
    normalizeHashList_props normalized_hashes [OF assms(1)]
  show ?thesis unfolding config_ok_def by auto
qed

definition plainConfig :: Config where
  "plainConfig = defaults\<lparr>Service := (Service defaults)\<lparr>DisplayName := ''g'', IdentityPath := '''',
     StatePath := '''', HistoryPath := ''''\<rparr>, Propagation := (Propagation defaults)\<lparr>Mode := ''''\<rparr>\<rparr>"

theorem normalize_sound_witness:
  "\<exists>c'. normalize \<lparr>uc_lower = id, uc_print = (\<lambda>_. True)\<rparr> (Inr ''/root'') plainConfig = Inr c' \<and> config_ok c'"
proof -
  let ?un = "\<lparr>uc_lower = id, uc_print = (\<lambda>_. True)\<rparr>"
  have lo: "lower_ok ?un" by (auto simp: lower_ok_def)
  have trim: "TrimSpace [] = []" "TrimSpace ''g'' = ''g''" "ToLower ?un [] = []"
    by (simp_all add: text_eval)
  have s: "check_service (Service plainConfig) = None" "check_b64 (Service plainConfig) = Inr (Service plainConfig)"
      "expand_paths (Inr ''/root'') (Service plainConfig) = Inr (Service plainConfig)"
    by (simp_all add: plainConfig_def defaults_def expand_paths_def ExpandPath_def check_service_def duration_defs
        check_b64_def trim DefaultMaxMembers_def MaxAnnouncedStampCost_def fieldOriginatorIdentity_def
        fieldOriginatorHash_def)
  have p: "\<exists>p. normalize_propagation ?un (Propagation plainConfig) = Inr p"
    by (simp add: plainConfig_def defaults_def normalize_propagation_def trim Let_def)
  have "Interfaces plainConfig = []" "Admins plainConfig = []" "Mods plainConfig = []"
      "0 \<le> Count (Replay plainConfig)" "0 \<le> MaxAge (Replay plainConfig)"
    by (simp_all add: plainConfig_def defaults_def duration_defs)
  with s p obtain c' where "normalize ?un (Inr ''/root'') plainConfig = Inr c'"
    by (auto simp: normalize_def normalizeHashList_def)
  with normalize_sound [OF lo this] show ?thesis by blast
qed

subsection \<open>Durations in days and weeks\<close>

lemma wrap64_id: "minDuration \<le> x \<Longrightarrow> x \<le> maxDuration \<Longrightarrow> wrap64 x = x"
  by (simp add: wrap64_def duration_defs)

lemma wrap64_range: "minDuration \<le> wrap64 x \<and> wrap64 x \<le> maxDuration"
  using pos_mod_bound [of "2 ^ 64" "x + 2 ^ 63"] pos_mod_sign [of "2 ^ 64" "x + 2 ^ 63"]
  by (simp add: wrap64_def duration_defs)

lemma wrap64_mult: "wrap64 (wrap64 a * b) = wrap64 (a * b)"
proof -
  have m: "wrap64 x mod 2 ^ 64 = x mod 2 ^ 64" for x
    by (simp add: wrap64_def mod_diff_left_eq)
  have "wrap64 a * b mod 2 ^ 64 = a * b mod 2 ^ 64"
    using m [of a] by (metis mod_mult_left_eq)
  then have "(wrap64 a * b + 2 ^ 63) mod 2 ^ 64 = (a * b + 2 ^ 63) mod 2 ^ 64"
    by (metis mod_add_left_eq)
  then show ?thesis by (simp add: wrap64_def)
qed

text \<open>What \<^verbatim>\<open>Atoi\<close> gives beside its error on any string of digits: the number, or the largest integer.\<close>

lemma Atoi_value_digits:
  assumes "ds \<noteq> []" and "list_all is_digit ds"
  shows "Atoi_value ds = min (int (digits_val ds)) maxInt"
proof -
  obtain c cs where d: "ds = c # cs" using assms(1) by (cases ds) auto
  with assms(2) have "c \<noteq> CHR ''-''" "c \<noteq> CHR ''+''" by (auto simp: is_digit_def)
  with assms d show ?thesis by (auto simp: Atoi_value_def Atoi_def Let_def minInt_def)
qed

lemma ParseDuration_digits:
  assumes "ds \<noteq> []" and "list_all is_digit ds"
  shows "ParseDuration std (ds @ ''d'') = Some (wrap64 (min (int (digits_val ds)) maxInt * (24 * Hour)))"
    and "ParseDuration std (ds @ ''w'') = Some (wrap64 (min (int (digits_val ds)) maxInt * (7 * 24 * Hour)))"
  using assms
  by (simp_all add: ParseDuration_def ext_duration_def Atoi_value_digits wrap64_mult mult.assoc Let_def)

text \<open>
  C25: durations of any number of days or weeks. A non-empty string of digits followed by \<^verbatim>\<open>d\<close> or \<^verbatim>\<open>w\<close> is always accepted,
  whatever \<^verbatim>\<open>time.ParseDuration\<close> does. If the span fits the 64-bit duration the result is exactly that span; otherwise it is
  the span (of the largest integer, where the digits exceed it) reduced modulo \<open>2 ^ 64\<close> into the signed range. So
  \<^verbatim>\<open>213504d\<close>, 584 years, is accepted as 25 minutes and 26.29 seconds: a positive
  duration, so that \<^verbatim>\<open>prune_after\<close> passes its check and prunes everybody idle for that long.
\<close>

theorem ParseDuration_days_weeks:
  assumes "ds \<noteq> []" and "list_all is_digit ds" and "n = min (int (digits_val ds)) maxInt"
  shows "ParseDuration std (ds @ ''d'') = Some ((n * (24 * Hour) + 2 ^ 63) mod 2 ^ 64 - 2 ^ 63) \<and>
    ParseDuration std (ds @ ''w'') = Some ((n * (7 * 24 * Hour) + 2 ^ 63) mod 2 ^ 64 - 2 ^ 63) \<and>
    (int (digits_val ds) * (24 * Hour) \<le> maxDuration \<longrightarrow>
      ParseDuration std (ds @ ''d'') = Some (int (digits_val ds) * (24 * Hour))) \<and>
    (int (digits_val ds) * (7 * 24 * Hour) \<le> maxDuration \<longrightarrow>
      ParseDuration std (ds @ ''w'') = Some (int (digits_val ds) * (7 * 24 * Hour))) \<and>
    ParseDuration std ''213504d'' = Some 1526290448384"
proof -
  note p = ParseDuration_digits [OF assms(1,2), of std, folded assms(3)]
  have fits: "wrap64 (n * w) = int (digits_val ds) * w" if "int (digits_val ds) * w \<le> maxDuration" "1 \<le> w" for w
  proof -
    have "int (digits_val ds) * 1 \<le> int (digits_val ds) * w" using that(2) by (intro mult_left_mono) auto
    then have "n = int (digits_val ds)" using that(1) assms(3) by (simp add: maxInt_def duration_defs)
    moreover have "0 \<le> int (digits_val ds) * w" using that(2) by simp
    ultimately show ?thesis using that(1) by (intro trans [OF wrap64_id]) (auto simp: duration_defs)
  qed
  have "ParseDuration std (''213504'' @ ''d'') = Some (wrap64 (213504 * (24 * Hour)))"
    using ParseDuration_digits(1) [of "''213504''" std] by (simp add: is_digit_def digits_val_def maxInt_def)
  also have "wrap64 (213504 * (24 * Hour)) = 1526290448384" by (simp add: wrap64_def duration_defs)
  finally have big: "ParseDuration std ''213504d'' = Some 1526290448384" by simp
  have one: "1 \<le> 24 * Hour" "1 \<le> 7 * 24 * Hour" by (simp_all add: duration_defs)
  show ?thesis
    using p fits [OF _ one(1)] fits [OF _ one(2)] big by (intro conjI impI) (simp_all add: wrap64_def)
qed

theorem ParseDuration_days_weeks_witness:
  "ParseDuration (\<lambda>_. None) ''028d'' = Some (28 * (24 * Hour)) \<and>
   ParseDuration (\<lambda>_. None) ''300000d'' = Some 7473255926290448384 \<and>
   ParseDuration (\<lambda>_. None) ''99999999999999999999d'' = Some (- (24 * Hour))"
  using ParseDuration_days_weeks [of "''028''", OF _ _ HOL.refl, of "\<lambda>_. None"]
    ParseDuration_days_weeks [of "''300000''", OF _ _ HOL.refl, of "\<lambda>_. None"]
    ParseDuration_days_weeks [of "''99999999999999999999''", OF _ _ HOL.refl, of "\<lambda>_. None"]
  by (simp add: is_digit_def digits_val_def maxInt_def duration_defs)

end
