(* ===== verification/Storage.thy ===== *)
theory Storage
  imports Prelude
begin

text \<open>
  How the stores reach the disk.

  \<open>atomicWrite\<close> is the write-a-temporary-file-and-rename routine that \<^verbatim>\<open>roster/store.go\<close>,
  \<^verbatim>\<open>history/log.go\<close>, \<^verbatim>\<open>groupinfo/groupinfo.go\<close> and \<^verbatim>\<open>service/outbound.go\<close> each carry a copy of,
  modelled system call by system call on a file system that maps paths to contents; it also returns the
  file systems it passes through, so that a crash at any moment is one of them.

  Above it a store is typed: a file holds the decoded value rather than its JSON bytes (\<open>filedata\<close>),
  and the outcome of each coming save is given by the environment (\<open>answers\<close>, oldest first; past the
  end every save succeeds). A save that fails leaves the file as it was, which is what
  \<open>atomicWrite\<close> guarantees.
\<close>

type_synonym fs = "string \<rightharpoonup> string"

datatype syscall = CreateTemp | WriteCall | Chmod | Close | Rename | RemoveTemp

text \<open>
  \<open>fails c\<close> is the error call \<open>c\<close> reports, if any; \<open>part\<close> is how many bytes a failing write has
  already put into the file. The deferred \<^verbatim>\<open>os.Remove\<close> runs on every return after the temporary file
  exists; its own error is ignored, and then the temporary file stays. After a successful rename there is
  nothing left under that name.
\<close>

definition write_states :: "string \<Rightarrow> string \<Rightarrow> nat \<Rightarrow> fs \<Rightarrow> fs list" where
  "write_states tmp data n f = map (\<lambda>k. f(tmp \<mapsto> take k data)) [0..<Suc n]"

definition atomicWrite ::
  "string \<Rightarrow> string \<Rightarrow> string \<Rightarrow> (syscall \<Rightarrow> string option) \<Rightarrow> nat \<Rightarrow> fs \<Rightarrow> string option \<times> fs \<times> fs list"
where
  "atomicWrite path tmp data fails part f =
     (case fails CreateTemp of Some e \<Rightarrow> (Some e, f, [f]) | None \<Rightarrow>
      let removed = (\<lambda>g. if fails RemoveTemp = None then g(tmp := None) else g) in
      case fails WriteCall of
        Some e \<Rightarrow> (let r = removed (f(tmp \<mapsto> take part data)) in (Some e, r, f # write_states tmp data part f @ [r]))
      | None \<Rightarrow>
        let ws = f # write_states tmp data (length data) f; g = f(tmp \<mapsto> data) in
        case fails Chmod of Some e \<Rightarrow> (Some e, removed g, ws @ [removed g]) | None \<Rightarrow>
        case fails Close of Some e \<Rightarrow> (Some e, removed g, ws @ [removed g]) | None \<Rightarrow>
        case fails Rename of Some e \<Rightarrow> (Some e, removed g, ws @ [removed g]) | None \<Rightarrow>
          (let r = (g(path \<mapsto> data))(tmp := None) in (None, r, ws @ [r])))"

subsection \<open>Typed stores\<close>

datatype 'd filedata = Absent | Unreadable string | EmptyFile | Garbage string | Parsed 'd

record 'd store_file =
  content :: "'d filedata"
  answers :: "string option list"

definition Save :: "'d \<Rightarrow> 'd store_file \<Rightarrow> string option \<times> 'd store_file" where
  "Save x f = (case answers f of
      [] \<Rightarrow> (None, f\<lparr>content := Parsed x\<rparr>)
    | None # as \<Rightarrow> (None, f\<lparr>content := Parsed x, answers := as\<rparr>)
    | Some e # as \<Rightarrow> (Some e, f\<lparr>answers := as\<rparr>))"

text \<open>Reading: \<open>Inl\<close> is the error of \<^verbatim>\<open>os.ReadFile\<close> or \<^verbatim>\<open>json.Unmarshal\<close>; no file and an empty file give the default.\<close>

definition ReadStore :: "'d \<Rightarrow> 'd store_file \<Rightarrow> string + 'd" where
  "ReadStore dflt f = (case content f of
      Absent \<Rightarrow> Inr dflt
    | Unreadable e \<Rightarrow> Inl e
    | EmptyFile \<Rightarrow> Inr dflt
    | Garbage e \<Rightarrow> Inl e
    | Parsed x \<Rightarrow> Inr x)"

subsection \<open>Laws\<close>

lemma write_states_other: "g \<in> set (write_states tmp data n f) \<Longrightarrow> p \<noteq> tmp \<Longrightarrow> g p = f p"
  by (auto simp: write_states_def)

lemma atomicWrite_path_cases:
  assumes "tmp \<noteq> path" and "atomicWrite path tmp data fails part f = (err, f', mid)"
  shows "\<forall>g \<in> set mid. g path = f path \<or> g path = Some data"
  using assms
  by (auto simp: atomicWrite_def Let_def write_states_other
      split: option.splits dest!: write_states_other [where p = path])

lemma atomicWrite_result:
  assumes "tmp \<noteq> path" and "tmp \<notin> dom f" and "atomicWrite path tmp data fails part f = (err, f', mid)"
  shows "(err = None \<longrightarrow> f' = f(path \<mapsto> data)) \<and> (err \<noteq> None \<longrightarrow> (\<forall>p. p \<noteq> tmp \<longrightarrow> f' p = f p)) \<and>
    (err \<noteq> None \<and> fails RemoveTemp = None \<longrightarrow> f' = f) \<and> last mid = f'"
proof -
  have "f(tmp := None) = f" and "(f(tmp \<mapsto> data, path \<mapsto> data))(tmp := None) = f(path \<mapsto> data)"
    using assms(1,2) by (auto simp: fun_eq_iff domIff)
  with assms(3) show ?thesis
    by (auto simp: atomicWrite_def Let_def split: option.splits if_splits)
qed

lemma Save_ok: "Save x f = (None, f') \<Longrightarrow> content f' = Parsed x"
  by (auto simp: Save_def split: list.splits option.splits)

lemma Save_err: "Save x f = (Some e, f') \<Longrightarrow> content f' = content f"
  by (auto simp: Save_def split: list.splits option.splits)

lemma Save_then_Read: "Save x f = (None, f') \<Longrightarrow> ReadStore d f' = Inr x"
  by (simp add: ReadStore_def Save_ok)

subsection \<open>Write-behind stores\<close>

text \<open>
  A store that writes some changes at once and only marks others, to be written by a later flush, as the roster
  does (the outbound queue only ever marks, and has an invariant of its own for what a flush running beside its
  workers leaves on disk). The contract: as long as no save fails, every step of the component either leaves what
  is stored and what is in memory as they were, or ends saved, or ends marked. What it gives: in every
  reachable state either the mark is set or a restart would read back exactly what is in memory.
\<close>

locale write_behind =
  fixes step :: "'s \<Rightarrow> 's \<Rightarrow> bool"
    and image :: "'s \<Rightarrow> 'd"
    and stored :: "'s \<Rightarrow> 'd"
    and marked :: "'s \<Rightarrow> bool"
    and reliable :: "'s \<Rightarrow> bool"
  assumes reliable_step: "reliable s \<Longrightarrow> step s t \<Longrightarrow> reliable t"
    and tracked: "reliable s \<Longrightarrow> step s t \<Longrightarrow>
      marked t \<or> stored t = image t \<or> (image t = image s \<and> stored t = stored s \<and> marked t = marked s)"
begin

lemma reliable_reaches: "reaches step s t \<Longrightarrow> reliable s \<Longrightarrow> reliable t"
  by (induction rule: reaches.induct) (auto intro: reliable_step)

lemma in_sync_reaches:
  "reaches step s t \<Longrightarrow> reliable s \<Longrightarrow> marked s \<or> stored s = image s \<Longrightarrow> marked t \<or> stored t = image t"
proof (induction rule: reaches.induct)
  case (step s t u)
  then have "reliable t" by (auto intro: reliable_reaches)
  with step tracked [of t u] show ?case by auto
qed simp

end

subsection \<open>A crash never leaves a partial file\<close>

text \<open>
  C29: the comment of \<^verbatim>\<open>atomicWrite\<close> says a crash in the middle of a write can never leave a partial
  file behind. Whatever calls fail and wherever the process stops, the target holds either its previous
  contents or the complete new data; when the routine returns nil it holds the new data and no temporary
  file is left; when it returns an error every file is as it was before, and so is the directory unless the removal of the
  temporary file fails as well, which the code ignores: then only that file is left behind.
\<close>

theorem atomicWrite_crash_safe:
  assumes "tmp \<noteq> path" and "tmp \<notin> dom f" and "atomicWrite path tmp data fails part f = (err, f', mid)"
  shows "(\<forall>g \<in> set mid. g path = f path \<or> g path = Some data) \<and>
         (err = None \<longrightarrow> f' = f(path \<mapsto> data)) \<and> (err \<noteq> None \<longrightarrow> (\<forall>p. p \<noteq> tmp \<longrightarrow> f' p = f p)) \<and>
         (err \<noteq> None \<and> fails RemoveTemp = None \<longrightarrow> f' = f)"
  using atomicWrite_path_cases [OF assms(1,3)] atomicWrite_result [OF assms] by auto

theorem atomicWrite_crash_safe_witness:
  "list_all (\<lambda>g. g ''s'' = Some ''old'' \<or> g ''s'' = Some ''new'')
     (snd (snd (atomicWrite ''s'' ''t'' ''new'' (\<lambda>_. None) 0 [''s'' \<mapsto> ''old''])))"
proof -
  let ?f = "[''s'' \<mapsto> ''old''] :: fs"
  obtain err f' mid where e: "atomicWrite ''s'' ''t'' ''new'' (\<lambda>_. None) 0 ?f = (err, f', mid)"
    using prod_cases3 by blast
  have "''t'' \<noteq> ''s''" and "''t'' \<notin> dom ?f" by simp_all
  from atomicWrite_crash_safe [OF this e] e show ?thesis by (simp add: list_all_iff)
qed

end
