(* ===== verification/Roster.thy ===== *)
theory Roster
  imports Utf8 Storage
begin

text \<open>
  \<^verbatim>\<open>internal/roster\<close>: the members of the group, the ban list and their persistence.

  \<open>User\<close> and \<open>Roster\<close> are the structs of the same names; \<open>Roster\<close> drops the mutex (each method holds
  it from entry to exit, so a method is one atomic step), keeps the store as the typed file of theory
  \<open>Storage\<close> (\<^const>\<open>None\<close> is the nil store of unit tests) and carries the Unicode tables the string
  functions use. One definition per method, in source order; a method that can fail returns the error
  beside the new state. A method that writes returns whatever the save answered, and keeps the change
  in memory either way, as the code does.
\<close>

declare decode_rune.simps(2) [simp]

subsection \<open>Data\<close>

record User =
  Hash :: string
  Nickname :: string
  JoinedAt :: time
  LastAnnounceAt :: time
  LastMessageAt :: time
  LastCommandAt :: time
  Paused :: bool
  TextOnly :: bool
  Invited :: bool
  Role :: string

definition zeroUser :: User where
  "zeroUser = \<lparr>Hash = [], Nickname = [], JoinedAt = 0, LastAnnounceAt = 0, LastMessageAt = 0,
     LastCommandAt = 0, Paused = False, TextOnly = False, Invited = False, Role = []\<rparr>"

definition LastSeen :: "User \<Rightarrow> time" where
  "LastSeen u =
     (let last = JoinedAt u;
          last = (if LastMessageAt u > last then LastMessageAt u else last);
          last = (if LastAnnounceAt u > last then LastAnnounceAt u else last);
          last = (if LastCommandAt u > last then LastCommandAt u else last)
      in last)"

definition LastSpoke :: "User \<Rightarrow> time" where
  "LastSpoke u =
     (let last = JoinedAt u;
          last = (if LastMessageAt u > last then LastMessageAt u else last)
      in last)"

record State =
  sUsers :: "(string, User) gmap"
  sBanlist :: "string list"

record Roster =
  users :: "(string, User) gmap"
  banlist :: "string list"
  store :: "State store_file option"
  dirty :: bool
  uni :: unicode

datatype gerror =
    ErrHashLen nat
  | ErrNotInRoster
  | ErrInvalidRole string
  | ErrIO string
  | ErrEmptyIdent
  | ErrAmbiguous string "string list"
  | ErrNoMatch string

definition Error :: "unicode \<Rightarrow> gerror \<Rightarrow> string" where
  "Error u e = (case e of
      ErrHashLen n \<Rightarrow> ''identity hash must be 16 bytes (got '' @ dec_nat n @ '')''
    | ErrNotInRoster \<Rightarrow> ''user not in roster''
    | ErrInvalidRole r \<Rightarrow> ''invalid role '' @ Quote u r
    | ErrIO m \<Rightarrow> m
    | ErrEmptyIdent \<Rightarrow> ''empty user identifier''
    | ErrAmbiguous q parts \<Rightarrow> Quote u q @ '' is ambiguous: '' @ Join parts '', ''
    | ErrNoMatch q \<Rightarrow> ''no user matches '' @ Quote u q)"

subsection \<open>Helpers\<close>

definition normalizeHash :: "bytes \<Rightarrow> gerror + string" where
  "normalizeHash b = (if length b \<noteq> 16 then Inl (ErrHashLen (length b)) else Inr (EncodeToString b))"

definition isHexPrefix :: "string \<Rightarrow> bool" where
  "isHexPrefix s \<longleftrightarrow> list_all (\<lambda>r. 48 \<le> r \<and> r \<le> 57 \<or> 97 \<le> r \<and> r \<le> 102) (runes s)"

text \<open>
  \<open>first8 h\<close> is \<^verbatim>\<open>h[:8]\<close>. Go panics when the string is shorter; every hash of a well-formed roster has
  32 characters (\<open>wf_roster\<close>), so the code never meets that case.
\<close>

definition first8 :: "string \<Rightarrow> string" where
  "first8 h = take 8 h"

definition ambiguousErr :: "string \<Rightarrow> User list \<Rightarrow> gerror" where
  "ambiguousErr q matches =
     ErrAmbiguous q (sort (map (\<lambda>u. if Nickname u = [] then first8 (Hash u)
                                   else Nickname u @ '' ('' @ first8 (Hash u) @ '')'') matches))"

definition sput :: "'a \<Rightarrow> 'a list \<Rightarrow> 'a list" where
  "sput x xs = (if x \<in> set xs then xs else xs @ [x])"

text \<open>
  The file holds what JSON makes of the texts: see \<open>json_text\<close>. The hash of a user is not written beside its
  key. The keys stand as they are: they are hexadecimal, or were read from JSON and so are valid UTF-8.
\<close>

definition json_user :: "User \<Rightarrow> User" where
  "json_user u = u\<lparr>Hash := [], Nickname := json_text (Nickname u), Role := json_text (Role u)\<rparr>"

definition state_of :: "Roster \<Rightarrow> State" where
  "state_of r = \<lparr>sUsers = map (\<lambda>(h, u). (h, json_user u)) (users r), sBanlist = map json_text (sort (banlist r))\<rparr>"

definition persistLocked :: "Roster \<Rightarrow> gerror option \<times> Roster" where
  "persistLocked r = (case store r of
      None \<Rightarrow> (None, r)
    | Some f \<Rightarrow> (let (e, f') = Save (state_of r) f
                 in (map_option ErrIO e, r\<lparr>dirty := False, store := Some f'\<rparr>)))"

definition deferPersistLocked :: "Roster \<Rightarrow> Roster" where
  "deferPersistLocked r = (if store r = None then r else r\<lparr>dirty := True\<rparr>)"

definition Flush :: "Roster \<Rightarrow> gerror option \<times> Roster" where
  "Flush r = (if \<not> dirty r then (None, r) else persistLocked r)"

subsection \<open>Methods\<close>

definition New :: "unicode \<Rightarrow> State store_file option \<Rightarrow> string + Roster" where
  "New un st = (case st of
      None \<Rightarrow> Inr \<lparr>users = [], banlist = [], store = None, dirty = False, uni = un\<rparr>
    | Some f \<Rightarrow> (case ReadStore \<lparr>sUsers = [], sBanlist = []\<rparr> f of
          Inl e \<Rightarrow> Inl e
        | Inr s \<Rightarrow> Inr \<lparr>users = map (\<lambda>(h, u). (h, u\<lparr>Hash := h\<rparr>)) (sUsers s),
                        banlist = foldl (\<lambda>bs h. sput (ToLower un h) bs) [] (sBanlist s),
                        store = Some f, dirty = False, uni = un\<rparr>))"

definition AddOrUpdate :: "bytes \<Rightarrow> time \<Rightarrow> Roster \<Rightarrow> (bool \<times> gerror option) \<times> Roster" where
  "AddOrUpdate hashBytes now r = (case normalizeHash hashBytes of
      Inl e \<Rightarrow> ((False, Some e), r)
    | Inr h \<Rightarrow>
        (let (u, exists) = (case map_of (users r) h of
               Some u \<Rightarrow> (u, True)
             | None \<Rightarrow> (zeroUser\<lparr>Hash := h, JoinedAt := now\<rparr>, False));
             (e, r') = persistLocked (r\<lparr>users := gput h (u\<lparr>LastMessageAt := now\<rparr>) (users r)\<rparr>)
         in ((\<not> exists, e), r')))"

definition AddInvited :: "bytes \<Rightarrow> time \<Rightarrow> Roster \<Rightarrow> (bool \<times> gerror option) \<times> Roster" where
  "AddInvited hashBytes now r = (case normalizeHash hashBytes of
      Inl e \<Rightarrow> ((False, Some e), r)
    | Inr h \<Rightarrow>
        if map_of (users r) h \<noteq> None then ((False, None), r)
        else (let (e, r') = persistLocked (r\<lparr>users := gput h
                     (zeroUser\<lparr>Hash := h, JoinedAt := now, Invited := True\<rparr>) (users r)\<rparr>)
              in ((True, e), r')))"

definition Touch :: "bytes \<Rightarrow> time \<Rightarrow> Roster \<Rightarrow> (bool \<times> gerror option) \<times> Roster" where
  "Touch hashBytes now r = (case normalizeHash hashBytes of
      Inl e \<Rightarrow> ((False, Some e), r)
    | Inr h \<Rightarrow> (case map_of (users r) h of
          None \<Rightarrow> ((False, None), r)
        | Some u \<Rightarrow> ((True, None), deferPersistLocked
            (r\<lparr>users := gput h (u\<lparr>LastCommandAt := now, Invited := False\<rparr>) (users r)\<rparr>))))"

definition MarkMessage :: "bytes \<Rightarrow> time \<Rightarrow> Roster \<Rightarrow> (bool \<times> gerror option) \<times> Roster" where
  "MarkMessage hashBytes now r = (case normalizeHash hashBytes of
      Inl e \<Rightarrow> ((False, Some e), r)
    | Inr h \<Rightarrow> (case map_of (users r) h of
          None \<Rightarrow> ((False, None), r)
        | Some u \<Rightarrow> ((True, None), deferPersistLocked
            (r\<lparr>users := gput h (u\<lparr>LastMessageAt := now, Invited := False\<rparr>) (users r)\<rparr>))))"

definition UpdateLastAnnounce :: "bytes \<Rightarrow> time \<Rightarrow> Roster \<Rightarrow> gerror option \<times> Roster" where
  "UpdateLastAnnounce hashBytes at r = (case normalizeHash hashBytes of
      Inl e \<Rightarrow> (Some e, r)
    | Inr h \<Rightarrow> (case map_of (users r) h of
          None \<Rightarrow> (None, r)
        | Some u \<Rightarrow> if \<not> at > LastAnnounceAt u then (None, r)
            else (None, deferPersistLocked
              (r\<lparr>users := gput h (u\<lparr>LastAnnounceAt := at, Invited := False\<rparr>) (users r)\<rparr>))))"

definition prunable :: "time \<Rightarrow> duration \<Rightarrow> duration \<Rightarrow> User \<Rightarrow> bool" where
  "prunable now idleCutoff silentCutoff u =
     (if Invited u then False
      else (let idleThreshold = now + (- idleCutoff);
                silentThreshold = now + (- silentCutoff);
                idle = LastSeen u < idleThreshold;
                silent = silentCutoff > 0 \<and> LastSpoke u < silentThreshold
            in idle \<or> silent))"

definition Prune :: "time \<Rightarrow> duration \<Rightarrow> duration \<Rightarrow> Roster \<Rightarrow> (string list \<times> gerror option) \<times> Roster" where
  "Prune now idleCutoff silentCutoff r =
     (let hit = (\<lambda>(h, u). prunable now idleCutoff silentCutoff u);
          pruned = map fst (filter hit (users r))
      in if pruned = [] then (([], None), r)
         else (let (e, r') = persistLocked (r\<lparr>users := filter (Not \<circ> hit) (users r)\<rparr>)
               in ((pruned, e), r')))"

definition Remove :: "string \<Rightarrow> Roster \<Rightarrow> (bool \<times> gerror option) \<times> Roster" where
  "Remove hashHex r =
     (let h = ToLower (uni r) hashHex in
      if map_of (users r) h = None then ((False, None), r)
      else (let (e, r') = persistLocked (r\<lparr>users := gdel h (users r)\<rparr>) in ((True, e), r')))"

definition Has :: "bytes \<Rightarrow> Roster \<Rightarrow> bool" where
  "Has hashBytes r = (case normalizeHash hashBytes of
      Inl _ \<Rightarrow> False | Inr h \<Rightarrow> map_of (users r) h \<noteq> None)"

definition Get :: "string \<Rightarrow> Roster \<Rightarrow> User option" where
  "Get hashHex r = map_of (users r) (ToLower (uni r) hashHex)"

text \<open>The four setters share their shape: look the user up, write one field, persist.\<close>

definition set_user :: "(User \<Rightarrow> User) \<Rightarrow> string \<Rightarrow> Roster \<Rightarrow> gerror option \<times> Roster" where
  "set_user f hashHex r =
     (let h = ToLower (uni r) hashHex in
      case map_of (users r) h of
        None \<Rightarrow> (Some ErrNotInRoster, r)
      | Some u \<Rightarrow> persistLocked (r\<lparr>users := gput h (f u) (users r)\<rparr>))"

definition SetPaused :: "string \<Rightarrow> bool \<Rightarrow> Roster \<Rightarrow> gerror option \<times> Roster" where
  "SetPaused hashHex p r = set_user (\<lambda>u. u\<lparr>Paused := p\<rparr>) hashHex r"

definition IsPaused :: "string \<Rightarrow> Roster \<Rightarrow> bool" where
  "IsPaused hashHex r = (case map_of (users r) (ToLower (uni r) hashHex) of
      None \<Rightarrow> False | Some u \<Rightarrow> Paused u)"

definition SetTextOnly :: "string \<Rightarrow> bool \<Rightarrow> Roster \<Rightarrow> gerror option \<times> Roster" where
  "SetTextOnly hashHex t r = set_user (\<lambda>u. u\<lparr>TextOnly := t\<rparr>) hashHex r"

definition SetRole :: "string \<Rightarrow> string \<Rightarrow> Roster \<Rightarrow> gerror option \<times> Roster" where
  "SetRole hashHex role r =
     (if role \<notin> {'''', ''mod'', ''admin''} then (Some (ErrInvalidRole role), r)
      else set_user (\<lambda>u. u\<lparr>Role := role\<rparr>) hashHex r)"

definition IsTextOnly :: "string \<Rightarrow> Roster \<Rightarrow> bool" where
  "IsTextOnly hashHex r = (case map_of (users r) (ToLower (uni r) hashHex) of
      None \<Rightarrow> False | Some u \<Rightarrow> TextOnly u)"

definition ActiveHashes :: "Roster \<Rightarrow> string list" where
  "ActiveHashes r = map fst (filter (\<lambda>(h, u). \<not> Paused u) (users r))"

definition SetNickname :: "string \<Rightarrow> string \<Rightarrow> Roster \<Rightarrow> gerror option \<times> Roster" where
  "SetNickname hashHex nick r = set_user (\<lambda>u. u\<lparr>Nickname := nick\<rparr>) hashHex r"

definition user_less :: "unicode \<Rightarrow> User \<Rightarrow> User \<Rightarrow> bool" where
  "user_less un a b =
     (let ni = ToLower un (Nickname a); nj = ToLower un (Nickname b) in
      if ni = [] \<and> nj \<noteq> [] then False
      else if ni \<noteq> [] \<and> nj = [] then True
      else if ni \<noteq> nj then ni < nj
      else Hash a < Hash b)"

definition List_users :: "Roster \<Rightarrow> User list" where
  "List_users r = sort_by (user_less (uni r)) (map snd (users r))"

definition Hashes :: "Roster \<Rightarrow> string list" where
  "Hashes r = map fst (users r)"

definition Len :: "Roster \<Rightarrow> nat" where
  "Len r = length (users r)"

definition Resolve :: "string \<Rightarrow> Roster \<Rightarrow> gerror + User" where
  "Resolve query r =
     (let q = ToLower (uni r) (TrimSpace query) in
      if q = [] then Inl ErrEmptyIdent
      else (let byNick = filter (\<lambda>u. ToLower (uni r) (Nickname u) = q) (map snd (users r)) in
        case byNick of
          [u] \<Rightarrow> Inr u
        | _ # _ # _ \<Rightarrow> Inl (ambiguousErr q byNick)
        | [] \<Rightarrow>
           if isHexPrefix q \<and> length q \<ge> 4 then
             (let byHash = filter (\<lambda>u. HasPrefix (Hash u) q) (map snd (users r)) in
              case byHash of
                [u] \<Rightarrow> Inr u
              | _ # _ # _ \<Rightarrow> Inl (ambiguousErr q byHash)
              | [] \<Rightarrow> Inl (ErrNoMatch query))
           else Inl (ErrNoMatch query)))"

definition Ban :: "string \<Rightarrow> Roster \<Rightarrow> gerror option \<times> Roster" where
  "Ban hashHex r =
     (let h = ToLower (uni r) hashHex in
      persistLocked (r\<lparr>banlist := sput h (banlist r), users := gdel h (users r)\<rparr>))"

definition Unban :: "string \<Rightarrow> Roster \<Rightarrow> (bool \<times> gerror option) \<times> Roster" where
  "Unban hashHex r =
     (let h = ToLower (uni r) hashHex in
      if h \<notin> set (banlist r) then ((False, None), r)
      else (let (e, r') = persistLocked (r\<lparr>banlist := filter (\<lambda>x. x \<noteq> h) (banlist r)\<rparr>)
            in ((True, e), r')))"

definition IsBanned :: "bytes \<Rightarrow> Roster \<Rightarrow> bool" where
  "IsBanned hashBytes r = (case normalizeHash hashBytes of
      Inl _ \<Rightarrow> False | Inr h \<Rightarrow> h \<in> set (banlist r))"

definition Banlist :: "Roster \<Rightarrow> string list" where
  "Banlist r = sort (banlist r)"

subsection \<open>What each method does to the state\<close>

lemma persistLocked_frame [simp]:
  "users (snd (persistLocked r)) = users r"
  "banlist (snd (persistLocked r)) = banlist r"
  "uni (snd (persistLocked r)) = uni r"
  "(store (snd (persistLocked r)) = None) = (store r = None)"
  by (auto simp: persistLocked_def split: option.splits prod.splits)

lemma deferPersistLocked_frame [simp]:
  "users (deferPersistLocked r) = users r"
  "banlist (deferPersistLocked r) = banlist r"
  "uni (deferPersistLocked r) = uni r"
  "store (deferPersistLocked r) = store r"
  by (auto simp: deferPersistLocked_def)



lemmas method_defs =
  AddOrUpdate_def AddInvited_def Touch_def MarkMessage_def UpdateLastAnnounce_def Prune_def
  Remove_def set_user_def SetPaused_def SetTextOnly_def SetRole_def SetNickname_def Ban_def
  Unban_def Flush_def

lemma uni_frame [simp]:
  "uni (snd (AddOrUpdate b t r)) = uni r" "uni (snd (AddInvited b t r)) = uni r"
  "uni (snd (Touch b t r)) = uni r" "uni (snd (MarkMessage b t r)) = uni r"
  "uni (snd (UpdateLastAnnounce b t r)) = uni r" "uni (snd (Prune t d d' r)) = uni r"
  "uni (snd (Remove h r)) = uni r" "uni (snd (SetPaused h x r)) = uni r"
  "uni (snd (SetTextOnly h x r)) = uni r" "uni (snd (SetRole h role r)) = uni r"
  "uni (snd (SetNickname h n r)) = uni r" "uni (snd (Ban h r)) = uni r"
  "uni (snd (Unban h r)) = uni r" "uni (snd (Flush r)) = uni r"
  by (simp_all add: method_defs Let_def split: sum.split option.split)

lemma banlist_frame [simp]:
  "banlist (snd (AddOrUpdate b t r)) = banlist r" "banlist (snd (AddInvited b t r)) = banlist r"
  "banlist (snd (Touch b t r)) = banlist r" "banlist (snd (MarkMessage b t r)) = banlist r"
  "banlist (snd (UpdateLastAnnounce b t r)) = banlist r" "banlist (snd (Prune t d d' r)) = banlist r"
  "banlist (snd (Remove h r)) = banlist r" "banlist (snd (SetPaused h x r)) = banlist r"
  "banlist (snd (SetTextOnly h x r)) = banlist r" "banlist (snd (SetRole h role r)) = banlist r"
  "banlist (snd (SetNickname h n r)) = banlist r" "banlist (snd (Flush r)) = banlist r"
  by (simp_all add: method_defs Let_def split: sum.split option.split)

lemma users_AddOrUpdate:
  "users (snd (AddOrUpdate b t r)) =
     (if length b \<noteq> 16 then users r
      else gput (EncodeToString b)
        ((case map_of (users r) (EncodeToString b) of Some u \<Rightarrow> u
          | None \<Rightarrow> zeroUser\<lparr>Hash := EncodeToString b, JoinedAt := t\<rparr>)\<lparr>LastMessageAt := t\<rparr>) (users r))"
  by (auto simp: AddOrUpdate_def normalizeHash_def Let_def split: option.splits)

lemma users_AddInvited:
  "users (snd (AddInvited b t r)) =
     (if length b \<noteq> 16 \<or> map_of (users r) (EncodeToString b) \<noteq> None then users r
      else gput (EncodeToString b)
        (zeroUser\<lparr>Hash := EncodeToString b, JoinedAt := t, Invited := True\<rparr>) (users r))"
  by (auto simp: AddInvited_def normalizeHash_def Let_def)

text \<open>
  The remaining user-level writes are all a changed copy stored under the key it was found at:
  \<open>upd_at h f m\<close>.
\<close>

definition upd_at :: "'k \<Rightarrow> ('v \<Rightarrow> 'v) \<Rightarrow> ('k, 'v) gmap \<Rightarrow> ('k, 'v) gmap" where
  "upd_at k f m = (case map_of m k of None \<Rightarrow> m | Some v \<Rightarrow> gput k (f v) m)"

lemma map_of_upd_at: "map_of (upd_at k f m) k' = (if k' = k then map_option f (map_of m k) else map_of m k')"
  by (auto simp: upd_at_def map_of_gput split: option.splits)

lemma keys_upd_at [simp]: "fst ` set (upd_at k f m) = fst ` set m"
  by (simp add: upd_at_def insert_absorb map_of_key split: option.split)

lemma length_upd_at [simp]: "length (upd_at k f m) = length m"
  by (simp add: upd_at_def length_gput map_of_key split: option.split)

lemma gmap_ok_upd_at [wf_intros]: "gmap_ok m \<Longrightarrow> gmap_ok (upd_at k f m)"
  by (auto simp: upd_at_def split: option.splits intro: wf_intros)

lemma users_Touch:
  "users (snd (Touch b t r)) = (if length b \<noteq> 16 then users r
     else upd_at (EncodeToString b) (\<lambda>u. u\<lparr>LastCommandAt := t, Invited := False\<rparr>) (users r))"
  by (auto simp: Touch_def normalizeHash_def upd_at_def split: option.splits)

lemma users_MarkMessage:
  "users (snd (MarkMessage b t r)) = (if length b \<noteq> 16 then users r
     else upd_at (EncodeToString b) (\<lambda>u. u\<lparr>LastMessageAt := t, Invited := False\<rparr>) (users r))"
  by (auto simp: MarkMessage_def normalizeHash_def upd_at_def split: option.splits)

lemma gput_same: "map_of m k = Some v \<Longrightarrow> gput k v m = m"
  by (induction m) (auto split: if_splits)

lemma users_UpdateLastAnnounce:
  "users (snd (UpdateLastAnnounce b t r)) = (if length b \<noteq> 16 then users r
     else upd_at (EncodeToString b)
       (\<lambda>u. if t > LastAnnounceAt u then u\<lparr>LastAnnounceAt := t, Invited := False\<rparr> else u) (users r))"
  by (auto simp: UpdateLastAnnounce_def normalizeHash_def upd_at_def gput_same split: option.splits)

lemma users_set_user: "users (snd (set_user f h r)) = upd_at (ToLower (uni r) h) f (users r)"
  by (auto simp: set_user_def upd_at_def Let_def split: option.splits)

lemma users_setters:
  "users (snd (SetPaused h p r)) = upd_at (ToLower (uni r) h) (\<lambda>u. u\<lparr>Paused := p\<rparr>) (users r)"
  "users (snd (SetTextOnly h p r)) = upd_at (ToLower (uni r) h) (\<lambda>u. u\<lparr>TextOnly := p\<rparr>) (users r)"
  "users (snd (SetNickname h n r)) = upd_at (ToLower (uni r) h) (\<lambda>u. u\<lparr>Nickname := n\<rparr>) (users r)"
  "users (snd (SetRole h role r)) =
     (if role \<in> {'''', ''mod'', ''admin''}
      then upd_at (ToLower (uni r) h) (\<lambda>u. u\<lparr>Role := role\<rparr>) (users r) else users r)"
  by (simp_all add: SetPaused_def SetTextOnly_def SetNickname_def SetRole_def users_set_user)

lemma users_Prune:
  "users (snd (Prune now idle silent r)) = filter (\<lambda>(h, u). \<not> prunable now idle silent u) (users r)"
proof (cases "filter (\<lambda>(h, u). prunable now idle silent u) (users r) = []")
  case True
  then have "\<forall>p\<in>set (users r). \<not> (case p of (h, u) \<Rightarrow> prunable now idle silent u)"
    by (simp add: filter_empty_conv)
  then have "filter (\<lambda>(h, u). \<not> prunable now idle silent u) (users r) = users r"
    by (intro filter_True) auto
  with True show ?thesis by (simp add: Prune_def Let_def)
next
  case False
  have "Not \<circ> (\<lambda>(h, u). prunable now idle silent u) = (\<lambda>(h :: string, u). \<not> prunable now idle silent u)"
    by auto
  with False show ?thesis by (simp add: Prune_def Let_def)
qed

lemma users_Remove: "users (snd (Remove h r)) = gdel (ToLower (uni r) h) (users r)"
  by (simp add: Remove_def Let_def gdel_absent map_of_eq_None_iff)

lemma users_Ban: "users (snd (Ban h r)) = gdel (ToLower (uni r) h) (users r)"
  by (simp add: Ban_def Let_def)

lemma banlist_Ban: "banlist (snd (Ban h r)) = sput (ToLower (uni r) h) (banlist r)"
  by (simp add: Ban_def Let_def)

lemma users_Unban [simp]: "users (snd (Unban h r)) = users r"
  by (simp add: Unban_def Let_def)

lemma banlist_Unban: "banlist (snd (Unban h r)) = filter (\<lambda>x. x \<noteq> ToLower (uni r) h) (banlist r)"
  by (auto simp: Unban_def Let_def intro!: filter_True [symmetric])

lemma users_Flush [simp]: "users (snd (Flush r)) = users r"
  by (simp add: Flush_def)

lemmas users_simps =
  users_AddOrUpdate users_AddInvited users_Touch users_MarkMessage users_UpdateLastAnnounce
  users_setters users_Prune users_Remove users_Ban

lemma set_sput [simp]: "set (sput x xs) = insert x (set xs)"
  by (auto simp: sput_def)

lemma distinct_sput [simp]: "distinct xs \<Longrightarrow> distinct (sput x xs)"
  by (auto simp: sput_def)

end
