(* ===== verification/RosterProps.thy ===== *)
theory RosterProps
  imports Roster
begin

text \<open>
  The roster's invariant and its reachable states, the interface \<open>member_book\<close> through which the
  commands and the inbox use it, and the properties of the methods: which users a sweep removes, what
  counts as having spoken, how a query resolves, in which order the members are listed, and what
  reaches the disk.
\<close>

subsection \<open>Well-formed rosters\<close>

definition role_ok :: "string \<Rightarrow> bool" where
  "role_ok s \<longleftrightarrow> s \<in> {'''', ''mod'', ''admin''}"

definition wf_users :: "(string, User) gmap \<Rightarrow> bool" where
  "wf_users m \<longleftrightarrow> gmap_ok m \<and> (\<forall>(h, u) \<in> set m. hex_hash h \<and> Hash u = h \<and> role_ok (Role u))"

definition wf_roster :: "Roster \<Rightarrow> bool" where
  "wf_roster r \<longleftrightarrow> wf_users (users r) \<and> distinct (banlist r) \<and> (\<forall>h \<in> set (banlist r). hex_hash h)"

lemma wf_users_gput [wf_intros]:
  "wf_users m \<Longrightarrow> hex_hash h \<Longrightarrow> Hash u = h \<Longrightarrow> role_ok (Role u) \<Longrightarrow> wf_users (gput h u m)"
  by (auto simp: wf_users_def set_gput intro: wf_intros)

lemma wf_users_gdel [wf_intros]: "wf_users m \<Longrightarrow> wf_users (gdel h m)"
  by (auto simp: wf_users_def set_gdel intro: wf_intros)

lemma wf_users_filter [wf_intros]: "wf_users m \<Longrightarrow> wf_users (filter P m)"
  by (auto simp: wf_users_def intro: wf_intros)

lemma wf_usersD:
  assumes "wf_users m" and "map_of m h = Some u"
  shows "hex_hash h" "Hash u = h" "role_ok (Role u)"
  using assms map_of_SomeD [OF assms(2)] by (auto simp: wf_users_def)

lemma wf_users_upd_at [wf_intros]:
  "wf_users m \<Longrightarrow> (\<And>u. Hash (f u) = Hash u) \<Longrightarrow> (\<And>u. role_ok (Role u) \<Longrightarrow> role_ok (Role (f u))) \<Longrightarrow>
   wf_users (upd_at h f m)"
  by (auto simp: upd_at_def split: option.splits intro!: wf_intros dest: wf_usersD)

lemma role_ok_zero [simp]: "role_ok (Role zeroUser)" "Role zeroUser = []"
  by (simp_all add: role_ok_def zeroUser_def)

lemma Resolve_member:
  assumes "Resolve q r = Inr u"
  shows "u \<in> snd ` set (users r)"
proof -
  have "u \<in> set (map snd (users r))" if "filter P (map snd (users r)) = [u]" for P
    using that by (metis filter_is_subset list.set_intros(1) subset_iff)
  with assms show ?thesis
    by (auto simp: Resolve_def Let_def split: if_splits list.splits)
qed

lemma Resolve_wf:
  assumes "wf_roster r" and "Resolve q r = Inr u"
  shows "hex_hash (Hash u)" "map_of (users r) (Hash u) = Some u"
proof -
  from Resolve_member [OF assms(2)] obtain h where h: "(h, u) \<in> set (users r)" by auto
  with assms(1) have "hex_hash h" "Hash u = h" by (auto simp: wf_roster_def wf_users_def)
  with h assms(1) show "hex_hash (Hash u)" "map_of (users r) (Hash u) = Some u"
    by (auto simp: wf_roster_def wf_users_def intro: gmap_lookup)
qed

lemma wf_roster_methods [wf_intros]:
  assumes "wf_roster r"
  shows "wf_roster (snd (AddOrUpdate b t r))" "wf_roster (snd (AddInvited b t r))"
    "wf_roster (snd (Touch b t r))" "wf_roster (snd (MarkMessage b t r))"
    "wf_roster (snd (UpdateLastAnnounce b t r))" "wf_roster (snd (Prune t d d' r))"
    "wf_roster (snd (Remove h r))" "wf_roster (snd (SetPaused h x r))"
    "wf_roster (snd (SetTextOnly h x r))" "wf_roster (snd (SetRole h role r))"
    "wf_roster (snd (SetNickname h n r))" "wf_roster (snd (Unban h r))" "wf_roster (snd (Flush r))"
  using assms unfolding wf_roster_def users_simps banlist_frame banlist_Unban users_Unban users_Flush
  by (auto intro!: wf_intros simp: role_ok_def split: option.split dest: wf_usersD)

lemma wf_roster_Ban [wf_intros]: "wf_roster r \<Longrightarrow> hex_hash h \<Longrightarrow> wf_roster (snd (Ban h r))"
  by (auto simp: wf_roster_def users_Ban banlist_Ban intro: wf_intros)

subsection \<open>Reachable rosters\<close>

text \<open>
  One rule per mutating method, with any arguments; \<^verbatim>\<open>Ban\<close> is called with the hash of a user that
  \<^verbatim>\<open>Resolve\<close> returned, which is its only call site. The initial rosters are what \<open>New\<close> builds from no
  store, from a missing or empty file, or from a file that holds well-formed users and bans.
\<close>

inductive roster_step :: "Roster \<Rightarrow> Roster \<Rightarrow> bool" where
  add: "roster_step r (snd (AddOrUpdate b t r))"
| invite: "roster_step r (snd (AddInvited b t r))"
| touch: "roster_step r (snd (Touch b t r))"
| mark: "roster_step r (snd (MarkMessage b t r))"
| announce: "roster_step r (snd (UpdateLastAnnounce b t r))"
| prune: "roster_step r (snd (Prune t d d' r))"
| remove: "roster_step r (snd (Remove h r))"
| pause: "roster_step r (snd (SetPaused h x r))"
| textonly: "roster_step r (snd (SetTextOnly h x r))"
| role: "roster_step r (snd (SetRole h s r))"
| nick: "roster_step r (snd (SetNickname h n r))"
| ban: "Resolve q r = Inr u \<Longrightarrow> roster_step r (snd (Ban (Hash u) r))"
| unban: "roster_step r (snd (Unban h r))"
| flush: "roster_step r (snd (Flush r))"

definition wf_state :: "State \<Rightarrow> bool" where
  "wf_state s \<longleftrightarrow> gmap_ok (sUsers s) \<and> (\<forall>(h, u) \<in> set (sUsers s). hex_hash h \<and> role_ok (Role u)) \<and>
     (\<forall>h \<in> set (sBanlist s). hex_hash h)"

definition roster_init :: "Roster \<Rightarrow> bool" where
  "roster_init r \<longleftrightarrow> (\<exists>un st. New un st = Inr r \<and>
     (\<forall>f s. st = Some f \<longrightarrow> content f = Parsed s \<longrightarrow> wf_state s))"

lemma set_foldl_sput: "set (foldl (\<lambda>bs h. sput (g h) bs) acc hs) = set acc \<union> g ` set hs"
  by (induction hs arbitrary: acc) auto

lemma distinct_foldl_sput: "distinct acc \<Longrightarrow> distinct (foldl (\<lambda>bs h. sput (g h) bs) acc hs)"
  by (induction hs arbitrary: acc) auto

lemma wf_roster_New:
  assumes "New un st = Inr r" and "\<And>f s. st = Some f \<Longrightarrow> content f = Parsed s \<Longrightarrow> wf_state s"
  shows "wf_roster r"
proof (cases st)
  case None
  with assms(1) show ?thesis by (auto simp: New_def wf_roster_def wf_users_def)
next
  case (Some f)
  then obtain s where s: "ReadStore \<lparr>sUsers = [], sBanlist = []\<rparr> f = Inr s"
    and r: "r = \<lparr>users = map (\<lambda>(h, u). (h, u\<lparr>Hash := h\<rparr>)) (sUsers s),
                 banlist = foldl (\<lambda>bs h. sput (ToLower un h) bs) [] (sBanlist s),
                 store = Some f, dirty = False, uni = un\<rparr>"
    using assms(1) by (auto simp: New_def split: sum.splits)
  have "wf_state s"
    using s assms(2) Some
    by (auto simp: ReadStore_def wf_state_def split: filedata.splits)
  moreover have "fst \<circ> (\<lambda>(h, u). (h, u\<lparr>Hash := h\<rparr>)) = (fst :: string \<times> User \<Rightarrow> string)"
    by auto
  ultimately show ?thesis
    by (auto simp: r wf_roster_def wf_users_def wf_state_def gmap_ok_def set_foldl_sput
        distinct_foldl_sput)
qed

interpretation roster_sys: step_system roster_init roster_step wf_roster
proof
  fix s assume "roster_init s"
  then show "wf_roster s" by (auto simp: roster_init_def intro: wf_roster_New)
next
  fix s t assume "wf_roster s" "roster_step s t"
  from this(2,1) show "wf_roster t"
    by (induction rule: roster_step.induct) (auto intro: wf_intros dest: Resolve_wf)
qed

text \<open>
  C17: in every state the roster can reach through its methods, from a fresh start or a well-formed
  state file, the keys of the user table are distinct, each is the 32-digit lower-case hash stored in
  its user, every role is empty, mod or admin, and the ban list holds distinct hashes of the same form.
\<close>

theorem roster_reachable_wf:
  assumes "roster_init r0" and "reaches roster_step r0 r"
  shows "wf_roster r"
  using assms by (rule roster_sys.inv_reachable)

theorem roster_reachable_wf_witness:
  "wf_roster (snd (AddOrUpdate (replicate 16 (CHR 0xAA)) 5
     \<lparr>users = [], banlist = [], store = None, dirty = False, uni = \<lparr>uc_lower = id, uc_print = (\<lambda>_. True)\<rparr>\<rparr>))"
proof (rule roster_reachable_wf [OF _ reaches_one [where step = roster_step]])
  show "roster_init \<lparr>users = [], banlist = [], store = None, dirty = False,
      uni = \<lparr>uc_lower = id, uc_print = (\<lambda>_. True)\<rparr>\<rparr>"
    unfolding roster_init_def New_def by (rule exI, rule exI [of _ None]) simp
qed (rule roster_step.add)

subsection \<open>Pruning\<close>

lemma prunable_iff:
  "prunable now idle silent u \<longleftrightarrow>
     \<not> Invited u \<and> (LastSeen u < now - idle \<or> (silent > 0 \<and> LastSpoke u < now - silent))"
  by (auto simp: prunable_def Let_def)

text \<open>
  C18: a sweep removes exactly the members it should. A member stays, unchanged, if and only if they are
  an invitee not yet heard from, or they were seen inside the idle window and, when the silent rule is
  on, spoke inside the silent window; and the hashes reported as pruned are exactly the ones removed.
\<close>

theorem Prune_exact:
  assumes "wf_roster r"
  shows "(map_of (users (snd (Prune now idle silent r))) h = Some u \<longleftrightarrow>
           map_of (users r) h = Some u \<and>
           (Invited u \<or> (now - idle \<le> LastSeen u \<and> (silent > 0 \<longrightarrow> now - silent \<le> LastSpoke u)))) \<and>
         (h \<in> set (fst (fst (Prune now idle silent r))) \<longleftrightarrow>
           map_of (users r) h \<noteq> None \<and> map_of (users (snd (Prune now idle silent r))) h = None)"
proof -
  have ok: "gmap_ok (users r)" using assms by (simp add: wf_roster_def wf_users_def)
  have kept: "map_of (users (snd (Prune now idle silent r))) h =
      (case map_of (users r) h of None \<Rightarrow> None
       | Some v \<Rightarrow> if prunable now idle silent v then None else Some v)"
    by (auto simp: users_Prune map_of_filter_Some [OF ok] split: option.split)
  have "fst (fst (Prune now idle silent r)) = map fst (filter (\<lambda>(h, u). prunable now idle silent u) (users r))"
    by (auto simp: Prune_def Let_def split: prod.split)
  then have "h \<in> set (fst (fst (Prune now idle silent r))) \<longleftrightarrow>
      (\<exists>v. map_of (users r) h = Some v \<and> prunable now idle silent v)"
    using ok by (force simp: gmap_lookup_iff)
  then show ?thesis
    using kept by (auto simp: prunable_iff split: option.splits if_splits)
qed

definition aliceBytes :: bytes where "aliceBytes = replicate 16 (CHR 0xAA)"
definition alice :: string where "alice = replicate 32 (CHR ''a'')"
definition bobBytes :: bytes where "bobBytes = replicate 16 (CHR 0xBB)"
definition bob :: string where "bob = replicate 32 (CHR ''b'')"
definition noUnicode :: unicode where "noUnicode = \<lparr>uc_lower = id, uc_print = (\<lambda>_. True)\<rparr>"

text \<open>Two example members, and a roster holding both: alice joined at 1000, bob was invited at 0.\<close>

definition demo :: Roster where
  "demo = \<lparr>users = [(alice, zeroUser\<lparr>Hash := alice, Nickname := ''al'', JoinedAt := 1000, LastMessageAt := 1000\<rparr>),
                    (bob, zeroUser\<lparr>Hash := bob, Invited := True\<rparr>)],
           banlist = [], store = None, dirty = False, uni = noUnicode\<rparr>"

lemma numeral_replicate: "replicate (numeral k) x = x # replicate (pred_numeral k) x"
  by (simp add: numeral_eq_Suc)

lemma demo_hashes:
  "EncodeToString aliceBytes = alice" "EncodeToString bobBytes = bob"
  "length aliceBytes = 16" "length bobBytes = 16" "hex_hash alice" "hex_hash bob" "alice \<noteq> bob"
  by (simp_all add: aliceBytes_def bobBytes_def alice_def bob_def numeral_replicate text_eval
      hex_hash_def is_lower_hex_def)

lemma wf_demo: "wf_roster demo"
  by (simp add: demo_def wf_roster_def wf_users_def gmap_ok_def demo_hashes zeroUser_def role_ok_def)

lemma demo_lookup:
  "map_of (users demo) alice =
     Some (zeroUser\<lparr>Hash := alice, Nickname := ''al'', JoinedAt := 1000, LastMessageAt := 1000\<rparr>)"
  "map_of (users demo) bob = Some (zeroUser\<lparr>Hash := bob, Invited := True\<rparr>)"
  using demo_hashes(7) by (simp_all add: demo_def)

theorem Prune_exact_witness:
  "map_of (users (snd (Prune 5000 1000 0 demo))) alice = None \<and>
   map_of (users (snd (Prune 5000 1000 0 demo))) bob = Some (zeroUser\<lparr>Hash := bob, Invited := True\<rparr>)"
proof
  have "LastSeen (zeroUser\<lparr>Hash := alice, Nickname := ''al'', JoinedAt := 1000, LastMessageAt := 1000\<rparr>) = 1000"
    and "\<not> Invited (zeroUser\<lparr>Hash := alice, Nickname := ''al'', JoinedAt := 1000, LastMessageAt := 1000\<rparr>)"
    by (simp_all add: LastSeen_def zeroUser_def)
  then have "map_of (users (snd (Prune 5000 1000 0 demo))) alice \<noteq> Some u" for u
    using Prune_exact [OF wf_demo, of 5000 1000 0 alice u] by (auto simp: demo_lookup(1))
  then show "map_of (users (snd (Prune 5000 1000 0 demo))) alice = None" by blast
  show "map_of (users (snd (Prune 5000 1000 0 demo))) bob = Some (zeroUser\<lparr>Hash := bob, Invited := True\<rparr>)"
    using Prune_exact [OF wf_demo, of 5000 1000 0 bob "zeroUser\<lparr>Hash := bob, Invited := True\<rparr>"]
    by (simp add: demo_lookup(2))
qed

subsection \<open>Presence is not speech\<close>

lemma LastSpoke_max: "LastSpoke u = max (JoinedAt u) (LastMessageAt u)"
  by (simp add: LastSpoke_def Let_def)

lemma LastSeen_max:
  "LastSeen u = max (max (max (JoinedAt u) (LastMessageAt u)) (LastAnnounceAt u)) (LastCommandAt u)"
  by (simp add: LastSeen_def Let_def max_def)

lemma lookup_Touch:
  "map_of (users (snd (Touch b t r))) h =
     map_option (\<lambda>u. if length b = 16 \<and> EncodeToString b = h
                     then u\<lparr>LastCommandAt := t, Invited := False\<rparr> else u) (map_of (users r) h)"
  by (cases "map_of (users r) h") (auto simp: users_Touch map_of_upd_at)

lemma lookup_UpdateLastAnnounce:
  "map_of (users (snd (UpdateLastAnnounce b t r))) h =
     map_option (\<lambda>u. if length b = 16 \<and> EncodeToString b = h \<and> t > LastAnnounceAt u
                     then u\<lparr>LastAnnounceAt := t, Invited := False\<rparr> else u) (map_of (users r) h)"
  by (cases "map_of (users r) h") (auto simp: users_UpdateLastAnnounce map_of_upd_at)

text \<open>
  The traffic that is not a chat message: a command, an over-long message or a message while paused marks its
  sender present (\<^verbatim>\<open>Touch\<close>), an announce too (\<^verbatim>\<open>UpdateLastAnnounce\<close>); and a command may then do to the roster, with
  any arguments, what the handlers of the commands do: set the flags, nicknames and roles, ban, unban, remove, add by \<^verbatim>\<open>/join\<close>
  and by \<^verbatim>\<open>/adduser\<close>.
\<close>

datatype presence =
    Touched bytes time | Announced bytes time
  | Pauses string bool | TextOnlys string bool | Nicks string string | Roles string string
  | Bans string | Unbans string | Removes string | Joins bytes time | Invites bytes time

fun presence_step :: "presence \<Rightarrow> Roster \<Rightarrow> Roster" where
  "presence_step (Touched b t) r = snd (Touch b t r)"
| "presence_step (Announced b t) r = snd (UpdateLastAnnounce b t r)"
| "presence_step (Pauses h x) r = snd (SetPaused h x r)"
| "presence_step (TextOnlys h x) r = snd (SetTextOnly h x r)"
| "presence_step (Nicks h n) r = snd (SetNickname h n r)"
| "presence_step (Roles h s) r = snd (SetRole h s r)"
| "presence_step (Bans q) r = (case Resolve q r of Inl _ \<Rightarrow> r | Inr u \<Rightarrow> snd (Ban (Hash u) r))"
| "presence_step (Unbans h) r = snd (Unban h r)"
| "presence_step (Removes h) r = snd (Remove h r)"
| "presence_step (Joins b t) r = snd (AddOrUpdate b t r)"
| "presence_step (Invites b t) r = snd (AddInvited b t r)"

text \<open>\<^verbatim>\<open>/join\<close> by a member and \<^verbatim>\<open>/adduser\<close> of one are refused, so only somebody who was removed is added under \<open>h\<close>.\<close>

fun adds_back :: "string \<Rightarrow> presence \<Rightarrow> bool" where
  "adds_back h (Joins b t) \<longleftrightarrow> EncodeToString b = h"
| "adds_back h (Invites b t) \<longleftrightarrow> EncodeToString b = h"
| "adds_back h _ \<longleftrightarrow> False"

definition unspoken :: "User \<Rightarrow> User option \<Rightarrow> bool" where
  "unspoken u x \<longleftrightarrow> (\<forall>u'. x = Some u' \<longrightarrow> LastSpoke u' = LastSpoke u \<and> (Invited u' \<longrightarrow> Invited u))"

lemma presence_step_user:
  assumes "unspoken u (map_of (users r) h)" and "\<not> adds_back h p"
  shows "unspoken u (map_of (users (presence_step p r)) h)"
  using assms
  by (cases p) (auto simp: unspoken_def lookup_Touch lookup_UpdateLastAnnounce LastSpoke_max users_simps map_of_upd_at
      map_of_gput map_of_gdel split: if_splits sum.split)

lemma presence_fold_user:
  assumes "unspoken u (map_of (users r) h)" and "list_all (\<lambda>p. \<not> adds_back h p) ps"
  shows "unspoken u (map_of (users (fold presence_step ps r)) h)"
  using assms by (induction ps arbitrary: r) (auto intro: presence_step_user)

lemma wf_presence_fold: "wf_roster r \<Longrightarrow> wf_roster (fold presence_step ps r)"
proof (induction ps arbitrary: r)
  case (Cons p ps)
  have "wf_roster (presence_step p r)" using Cons.prems by (cases p) (auto intro: wf_intros dest: Resolve_wf split: sum.split)
  with Cons.IH show ?case by simp
qed simp

text \<open>
  C19: running commands and announcing never saves a lurker from the silent sweep. However many commands
  and announces a member who is no longer an untouched invitee produces, and whatever commands of anybody do to
  the roster meanwhile short of adding that member again after a removal, a sweep with the silent rule on
  removes them once their last chat message, or their join, is older than the silent window.
\<close>

theorem lurker_is_swept:
  assumes "wf_roster r" and "map_of (users r) h = Some u" and "\<not> Invited u"
    and "0 < silent" and "LastSpoke u < now - silent" and "list_all (\<lambda>p. \<not> adds_back h p) ps"
  shows "map_of (users (snd (Prune now idle silent (fold presence_step ps r)))) h = None"
proof -
  let ?r = "fold presence_step ps r"
  have ok: "gmap_ok (users ?r)"
    using wf_presence_fold [OF assms(1)] by (simp add: wf_roster_def wf_users_def)
  have "unspoken u (map_of (users ?r) h)"
    using assms(2) by (intro presence_fold_user [OF _ assms(6)]) (simp add: unspoken_def)
  with assms show ?thesis
    by (auto simp: users_Prune map_of_filter_Some [OF ok] prunable_iff unspoken_def split: option.split)
qed

theorem lurker_is_swept_witness:
  "map_of (users (snd (Prune 5000 100000 1000
     (fold presence_step [Touched aliceBytes 4900, Announced aliceBytes 4950, Nicks alice ''a'', Unbans bob] demo)))) alice = None"
  by (rule lurker_is_swept [OF wf_demo demo_lookup(1)]) (simp_all add: zeroUser_def LastSpoke_def)

lemma lookup_announced:
  assumes "map_of (users r) h = Some u"
  shows "\<exists>u1. map_of (users (snd (UpdateLastAnnounce b t r))) h = Some u1 \<and>
    LastSeen u1 \<le> max (LastSeen u) t \<and> LastSpoke u1 = LastSpoke u"
  using assms by (auto simp: lookup_UpdateLastAnnounce LastSeen_max LastSpoke_max)

text \<open>
  A replayed announce cannot make a member look present. However many announces arrive, as long as
  each was emitted no later than \<open>T\<close>, nobody's \<^verbatim>\<open>LastSeen\<close> passes the later of its old value and \<open>T\<close>;
  and an announce no newer than the newest one already recorded changes nothing at all, on disk or in
  memory.
\<close>

theorem announce_replay_harmless:
  assumes "list_all (\<lambda>(b, t). t \<le> T) as" and "map_of (users r) h = Some u"
    and "map_of (users (fold (\<lambda>(b, t) s. snd (UpdateLastAnnounce b t s)) as r)) h = Some u'"
  shows "LastSeen u' \<le> max (LastSeen u) T \<and> LastSpoke u' = LastSpoke u \<and>
    (\<forall>b t. EncodeToString b = h \<longrightarrow> t \<le> LastAnnounceAt u \<longrightarrow> snd (UpdateLastAnnounce b t r) = r)"
proof -
  have "LastSeen u' \<le> max (LastSeen u) T \<and> LastSpoke u' = LastSpoke u"
    using assms
  proof (induction as arbitrary: r u)
    case (Cons a as)
    obtain b t where a: "a = (b, t)" by (cases a)
    obtain u1 where u1: "map_of (users (snd (UpdateLastAnnounce b t r))) h = Some u1"
        "LastSeen u1 \<le> max (LastSeen u) t" "LastSpoke u1 = LastSpoke u"
      using lookup_announced [OF Cons.prems(2)] by blast
    have "LastSeen u' \<le> max (LastSeen u1) T \<and> LastSpoke u' = LastSpoke u1"
      using Cons.IH [OF _ u1(1)] Cons.prems a by simp
    with u1 Cons.prems(1) a show ?case by auto
  qed simp
  moreover have "\<forall>b t. EncodeToString b = h \<longrightarrow> t \<le> LastAnnounceAt u \<longrightarrow> snd (UpdateLastAnnounce b t r) = r"
    using assms(2) by (auto simp: UpdateLastAnnounce_def normalizeHash_def)
  ultimately show ?thesis by blast
qed

theorem announce_replay_harmless_witness:
  "\<exists>u'. map_of (users (snd (UpdateLastAnnounce aliceBytes 1500 demo))) alice = Some u' \<and> LastSeen u' \<le> 1500"
proof -
  obtain u' where u': "map_of (users (snd (UpdateLastAnnounce aliceBytes 1500 demo))) alice = Some u'"
    by (simp add: users_simps map_of_upd_at demo_hashes demo_lookup)
  have "LastSeen u' \<le> max (LastSeen (zeroUser\<lparr>Hash := alice, Nickname := ''al'', JoinedAt := 1000,
      LastMessageAt := 1000\<rparr>)) 1500"
    using announce_replay_harmless [of 1500 "[(aliceBytes, 1500)]" demo alice, OF _ demo_lookup(1)] u' by simp
  with u' show ?thesis by (auto simp: LastSeen_def zeroUser_def)
qed

subsection \<open>Resolving a user identifier\<close>

lemma wf_users_distinct_values: "wf_users m \<Longrightarrow> distinct (map snd m)"
proof (induction m)
  case (Cons p m)
  obtain h u where p: "p = (h, u)" by (cases p)
  have "wf_users m" using Cons.prems by (auto simp: wf_users_def gmap_ok_def)
  moreover have "u \<notin> snd ` set m"
  proof
    assume "u \<in> snd ` set m"
    then obtain h' where "(h', u) \<in> set m" by auto
    with Cons.prems p have "h' = h" and "h' \<in> fst ` set m" by (force simp: wf_users_def)+
    with Cons.prems p show False by (simp add: wf_users_def gmap_ok_def)
  qed
  ultimately show ?case using Cons.IH p by simp
qed simp

lemma filter_singleton_iff:
  "distinct xs \<Longrightarrow> filter P xs = [x] \<longleftrightarrow> x \<in> set xs \<and> P x \<and> (\<forall>y \<in> set xs. P y \<longrightarrow> y = x)"
proof (induction xs)
  case (Cons a xs)
  then show ?case by (cases "P a") (auto simp: filter_empty_conv)
qed simp

definition unique_user :: "Roster \<Rightarrow> (User \<Rightarrow> bool) \<Rightarrow> User \<Rightarrow> bool" where
  "unique_user r P u \<longleftrightarrow> u \<in> snd ` set (users r) \<and> P u \<and> (\<forall>v \<in> snd ` set (users r). P v \<longrightarrow> v = u)"

lemma filter_unique_user:
  assumes "wf_roster r"
  shows "filter P (map snd (users r)) = [u] \<longleftrightarrow> unique_user r P u"
  using assms
  by (simp add: filter_singleton_iff wf_users_distinct_values wf_roster_def unique_user_def)

text \<open>
  C20: an identifier resolves to a user exactly when, trimmed and lower-cased, it is not empty and it is
  the nickname of that user and of nobody else, or nobody has it as nickname and it is a prefix, of at
  least four hexadecimal digits, of that user's hash and of nobody else's.
\<close>

theorem Resolve_spec:
  assumes "wf_roster r" and "q = ToLower (uni r) (TrimSpace query)"
  shows "Resolve query r = Inr u \<longleftrightarrow> q \<noteq> [] \<and>
    (unique_user r (\<lambda>v. ToLower (uni r) (Nickname v) = q) u \<or>
     ((\<forall>v \<in> snd ` set (users r). ToLower (uni r) (Nickname v) \<noteq> q) \<and> isHexPrefix q \<and> 4 \<le> length q \<and>
      unique_user r (\<lambda>v. HasPrefix (Hash v) q) u))"
proof -
  let ?nick = "\<lambda>v. ToLower (uni r) (Nickname v) = q"
  have one: "filter P (map snd (users r)) = [v] \<longleftrightarrow> unique_user r P v" for P v
    by (rule filter_unique_user [OF assms(1)])
  have case_sel: "(case xs of [] \<Rightarrow> Inl e | [v] \<Rightarrow> Inr v | v # w # ws \<Rightarrow> Inl e') = Inr u \<longleftrightarrow> xs = [u]"
    for xs :: "User list" and e e' :: gerror
    by (auto split: list.split)
  show ?thesis
  proof (cases "filter ?nick (map snd (users r))")
    case Nil
    then have none: "\<forall>v \<in> snd ` set (users r). \<not> ?nick v" by (force simp: filter_empty_conv)
    then have "\<not> unique_user r ?nick u" by (auto simp: unique_user_def)
    with Nil none show ?thesis
      by (simp add: Resolve_def Let_def assms(2) [symmetric] one [symmetric] case_sel) blast
  next
    case (Cons v vs)
    then have "v \<in> set (filter ?nick (map snd (users r)))" by simp
    then have some: "\<not> (\<forall>v \<in> snd ` set (users r). \<not> ?nick v)" by force
    have "Resolve query r = Inr u \<longleftrightarrow> q \<noteq> [] \<and> v # vs = [u]"
      by (cases vs) (simp_all add: Resolve_def Let_def assms(2) [symmetric] Cons)
    then have "Resolve query r = Inr u \<longleftrightarrow> q \<noteq> [] \<and> filter ?nick (map snd (users r)) = [u]"
      using Cons by simp
    with some one show ?thesis by auto
  qed
qed

theorem Resolve_spec_witness:
  "Resolve ''AL'' demo = Inr (zeroUser\<lparr>Hash := alice, Nickname := ''al'', JoinedAt := 1000, LastMessageAt := 1000\<rparr>)"
proof -
  let ?a = "zeroUser\<lparr>Hash := alice, Nickname := ''al'', JoinedAt := 1000, LastMessageAt := 1000\<rparr>"
  have q: "''al'' = ToLower (uni demo) (TrimSpace ''AL'')"
    by (simp add: demo_def noUnicode_def text_eval, code_simp)
  have "unique_user demo (\<lambda>v. ToLower (uni demo) (Nickname v) = ''al'') ?a"
    by (simp add: unique_user_def demo_def noUnicode_def zeroUser_def text_eval)
  with Resolve_spec [OF wf_demo q, of ?a] show ?thesis by simp
qed

subsection \<open>The order of the member list\<close>

lemma user_less_iff:
  "user_less un a b \<longleftrightarrow>
     ToLower un (Nickname a) \<noteq> [] \<and> ToLower un (Nickname b) = [] \<or>
     (ToLower un (Nickname a) = []) = (ToLower un (Nickname b) = []) \<and>
       (ToLower un (Nickname a) < ToLower un (Nickname b) \<or>
        ToLower un (Nickname a) = ToLower un (Nickname b) \<and> Hash a < Hash b)"
  by (auto simp: user_less_def Let_def)

lemma strict_total_user_less:
  assumes "inj_on Hash A"
  shows "strict_total_on A (user_less un)"
  unfolding strict_total_on_def
proof (intro conjI ballI impI)
  fix x y assume "x \<in> A" "y \<in> A" "x \<noteq> y"
  with assms have "Hash x \<noteq> Hash y" by (auto dest: inj_onD)
  then show "user_less un x y \<or> user_less un y x" unfolding user_less_iff by force
next
  fix x y z assume "user_less un x y" "user_less un y z"
  then show "user_less un x z" unfolding user_less_iff
    by (cases "ToLower un (Nickname x) = []"; cases "ToLower un (Nickname y) = []";
        cases "ToLower un (Nickname z) = []") (auto dest: less_trans)
qed (simp add: user_less_def Let_def)

text \<open>
  The member list shows every member exactly once, named members first in case-insensitive nickname
  order and the unnamed ones after them by hash; no other arrangement of the members has this order, so
  it does not depend on the iteration order of the map or on the sorting algorithm.
\<close>

theorem List_users_sorted:
  assumes "wf_roster r"
  shows "mset (List_users r) = mset (map snd (users r)) \<and>
    sorted_wrt (user_less (uni r)) (List_users r) \<and>
    (\<forall>us. mset us = mset (map snd (users r)) \<longrightarrow> sorted_wrt (user_less (uni r)) us \<longrightarrow> us = List_users r)"
proof -
  have wf: "wf_users (users r)" using assms by (simp add: wf_roster_def)
  have "inj_on Hash (set (map snd (users r)))"
  proof (rule inj_onI)
    fix u v assume "u \<in> set (map snd (users r))" "v \<in> set (map snd (users r))" "Hash u = Hash v"
    moreover from this obtain h h' where "(h, u) \<in> set (users r)" "(h', v) \<in> set (users r)" by auto
    moreover have "Hash w = k" if "(k, w) \<in> set (users r)" for k w
      using wf that by (auto simp: wf_users_def)
    ultimately have "(h, u) \<in> set (users r)" "(h, v) \<in> set (users r)" by metis+
    with wf show "u = v" unfolding wf_users_def gmap_ok_def by (blast dest: eq_key_imp_eq_value)
  qed
  then have tot: "strict_total_on (set (map snd (users r))) (user_less (uni r))"
    by (rule strict_total_user_less)
  have sorted: "sorted_wrt (user_less (uni r)) (List_users r)"
    unfolding List_users_def by (rule sorted_sort_by [OF tot wf_users_distinct_values [OF wf]])
  moreover have m: "mset (List_users r) = mset (map snd (users r))" by (simp add: List_users_def)
  moreover have "us = List_users r"
    if "mset us = mset (map snd (users r))" "sorted_wrt (user_less (uni r)) us" for us
    using sorted_by_unique [of us "user_less (uni r)" "List_users r"] that tot sorted m
    by (metis set_mset_mset)
  ultimately show ?thesis by blast
qed

theorem List_users_sorted_witness:
  "sorted_wrt (user_less noUnicode) (List_users demo)"
  using List_users_sorted [OF wf_demo] by (simp add: demo_def)

subsection \<open>What a restart reads back\<close>

text \<open>
  The members and the ban set a restart would load from the store as it is now. The roster is a
  write-behind store: joins, roles, bans and settings are saved at once, activity stamps only mark it.
\<close>

definition restart :: "Roster \<Rightarrow> ((string, User) gmap \<times> string set) option" where
  "restart r = (case New (uni r) (store r) of
      Inl _ \<Rightarrow> None | Inr r' \<Rightarrow> Some (users r', set (banlist r')))"

text \<open>What can come back of the members in memory: of a nickname that is not UTF-8, only what JSON makes of it.\<close>

definition nick_via_json :: "User \<Rightarrow> User" where
  "nick_via_json u = u\<lparr>Nickname := json_text (Nickname u)\<rparr>"

definition in_memory :: "Roster \<Rightarrow> ((string, User) gmap \<times> string set) option" where
  "in_memory r = Some (map (\<lambda>(h, u). (h, nick_via_json u)) (users r), set (banlist r))"

definition nicks_valid :: "(string, User) gmap \<Rightarrow> bool" where
  "nicks_valid m \<longleftrightarrow> list_all (\<lambda>(h, u). valid_utf8 (Nickname u)) m"

lemma nicks_valid_same: "nicks_valid m \<Longrightarrow> map (\<lambda>(h, u). (h, nick_via_json u)) m = m"
  by (auto simp: nicks_valid_def list_all_iff nick_via_json_def json_text_valid intro!: map_idI)

definition reliable_store :: "Roster \<Rightarrow> bool" where
  "reliable_store r \<longleftrightarrow> wf_roster r \<and> (\<exists>f. store r = Some f \<and> answers f = [])"

lemma json_text_role: "role_ok s \<Longrightarrow> json_text s = s"
  by (intro json_text_valid valid_utf8_ascii) (auto simp: role_ok_def is_ascii_def)

lemma json_text_hash: "hex_hash s \<Longrightarrow> json_text s = s"
  by (intro json_text_valid valid_utf8_ascii) (auto simp: hex_hash_def is_ascii_def is_lower_hex_def list_all_iff)

lemma Hash_restored:
  assumes "wf_users m"
  shows "map (\<lambda>(h, u). (h, u\<lparr>Hash := h\<rparr>)) (map (\<lambda>(h, u). (h, json_user u)) m) = map (\<lambda>(h, u). (h, nick_via_json u)) m"
  using assms by (auto simp: wf_users_def json_user_def nick_via_json_def json_text_role)

lemma restart_parsed:
  assumes "wf_roster r" and "store r = Some f" and "content f = Parsed (state_of r)"
  shows "restart r = in_memory r"
proof -
  have "ToLower (uni r) ` json_text ` set (banlist r) = set (banlist r)"
    using assms(1) by (force simp: wf_roster_def ToLower_hex_hash json_text_hash)
  then show ?thesis
    using assms Hash_restored [of "users r"]
    by (simp add: restart_def in_memory_def New_def ReadStore_def state_of_def set_foldl_sput wf_roster_def)
qed

lemma persistLocked_restart:
  assumes "wf_roster r" and "store r = Some f" and "answers f = []"
  shows "restart (snd (persistLocked r)) = in_memory (snd (persistLocked r))"
    and "\<exists>f'. store (snd (persistLocked r)) = Some f' \<and> answers f' = []"
proof -
  have p: "snd (persistLocked r) = r\<lparr>dirty := False, store := Some (f\<lparr>content := Parsed (state_of r)\<rparr>)\<rparr>"
    using assms by (simp add: persistLocked_def Save_def)
  show "restart (snd (persistLocked r)) = in_memory (snd (persistLocked r))"
    using assms unfolding p
    by (intro restart_parsed) (auto simp: wf_roster_def state_of_def)
  show "\<exists>f'. store (snd (persistLocked r)) = Some f' \<and> answers f' = []"
    using assms unfolding p by simp
qed

text \<open>Every method ends in one of three ways: nothing changed, marked, or saved.\<close>

definition save_shape :: "Roster \<Rightarrow> Roster \<Rightarrow> bool" where
  "save_shape r t \<longleftrightarrow> t = r \<or> (\<exists>r'. store r' = store r \<and> uni r' = uni r \<and>
    (t = deferPersistLocked r' \<or> t = snd (persistLocked r')))"

lemma save_shapeI:
  "save_shape r r"
  "store r' = store r \<Longrightarrow> uni r' = uni r \<Longrightarrow> save_shape r (deferPersistLocked r')"
  "store r' = store r \<Longrightarrow> uni r' = uni r \<Longrightarrow> save_shape r (snd (persistLocked r'))"
  by (auto simp: save_shape_def)

lemma roster_step_shape: "roster_step r t \<Longrightarrow> save_shape r t"
  by (induction rule: roster_step.induct)
     (simp_all add: method_defs Let_def save_shapeI split: sum.split option.split)

interpretation roster_disk: write_behind roster_step in_memory restart dirty reliable_store
proof
  fix s t assume rel: "reliable_store s" and st: "roster_step s t"
  then have wft: "wf_roster t" using roster_sys.inv_step by (auto simp: reliable_store_def)
  obtain f where f: "store s = Some f" "answers f = []" using rel by (auto simp: reliable_store_def)
  from roster_step_shape [OF st] consider "t = s"
    | r' where "t = deferPersistLocked r'" "store r' = Some f"
    | r' where "t = snd (persistLocked r')" "store r' = Some f"
    using f by (auto simp: save_shape_def)
  then have "reliable_store t \<and> (t = s \<or> dirty t \<or> restart t = in_memory t)"
  proof cases
    case 2
    then show ?thesis using wft f by (simp add: reliable_store_def deferPersistLocked_def)
  next
    case 3
    then have "wf_roster r'" using wft by (simp add: wf_roster_def)
    with 3 f wft show ?thesis by (simp add: reliable_store_def persistLocked_restart)
  qed (use rel in simp)
  then show "reliable_store t"
    and "dirty t \<or> restart t = in_memory t \<or> (in_memory t = in_memory s \<and> restart t = restart s \<and> dirty t = dirty s)"
    by auto
qed

lemma New_in_sync:
  assumes "New un (Some f) = Inr r" and "\<forall>s. content f = Parsed s \<longrightarrow> nicks_valid (sUsers s)"
  shows "restart r = in_memory r \<and> store r = Some f"
proof -
  from assms(1) have "store r = Some f" "uni r = un" by (auto simp: New_def split: sum.splits)
  moreover have "nicks_valid (users r)"
    using assms by (fastforce simp: New_def ReadStore_def nicks_valid_def list_all_iff split: sum.splits filedata.splits)
  ultimately show ?thesis using assms(1) by (simp add: restart_def in_memory_def nicks_valid_same)
qed

text \<open>
  C21: nothing is lost across a clean restart as long as no write fails. Start from a well-formed state file on a disk on
  which every save succeeds (C22 shows what a failed one does), run any sequence of methods, flush: a new process that reads
  the file has exactly the members, with every field, and exactly the bans that the old one had; only a
  nickname that is not valid UTF-8 comes back as JSON writes it, U+FFFD for each bad byte. (The methods take any nickname; the
  callers pass only those that match the nickname pattern.) Before the flush the same holds whenever
  no deferred activity stamp is pending. The nicknames of the file at the start are valid UTF-8, as
  everything is that JSON decoding yields.
\<close>

theorem restart_roundtrip:
  assumes "New un (Some f) = Inr r0" and "answers f = []" and "\<forall>s. content f = Parsed s \<longrightarrow> nicks_valid (sUsers s)"
    and "wf_roster r0" and "reaches roster_step r0 r"
  shows "restart (snd (Flush r)) = Some (map (\<lambda>(h, u). (h, u\<lparr>Nickname := json_text (Nickname u)\<rparr>)) (users r), set (banlist r)) \<and>
    (nicks_valid (users r) \<longrightarrow> restart (snd (Flush r)) = Some (users r, set (banlist r))) \<and>
    (\<not> dirty r \<longrightarrow> restart r = restart (snd (Flush r)))"
proof -
  have rel0: "reliable_store r0" and sync0: "restart r0 = in_memory r0"
    using New_in_sync [OF assms(1,3)] assms(2,4) by (auto simp: reliable_store_def)
  have rel: "reliable_store r" using roster_disk.reliable_reaches [OF assms(5) rel0] .
  then obtain f' where f': "store r = Some f'" "answers f' = []" "wf_roster r"
    by (auto simp: reliable_store_def)
  have sync: "dirty r \<or> restart r = in_memory r"
    using roster_disk.in_sync_reaches [OF assms(5) rel0] sync0 by blast
  moreover have "restart (snd (persistLocked r)) = in_memory r"
    using persistLocked_restart(1) [OF f'(3,1,2)] by (simp add: in_memory_def)
  ultimately have "restart (snd (Flush r)) = in_memory r" by (auto simp: Flush_def)
  moreover have "\<not> dirty r \<longrightarrow> snd (Flush r) = r" by (simp add: Flush_def)
  ultimately show ?thesis
    using nicks_valid_same [of "users r"] by (simp add: in_memory_def nick_via_json_def)
qed

definition freshRoster :: Roster where
  "freshRoster = \<lparr>users = [], banlist = [], store = Some \<lparr>content = Absent, answers = []\<rparr>, dirty = False,
     uni = noUnicode\<rparr>"

theorem restart_roundtrip_witness:
  "restart (snd (Flush (snd (AddOrUpdate aliceBytes 7 freshRoster)))) =
     Some ([(alice, zeroUser\<lparr>Hash := alice, JoinedAt := 7, LastMessageAt := 7\<rparr>)], {})"
proof -
  have new: "New noUnicode (Some \<lparr>content = Absent, answers = []\<rparr>) = Inr freshRoster"
    by (simp add: New_def ReadStore_def freshRoster_def)
  have wf: "wf_roster freshRoster" by (simp add: freshRoster_def wf_roster_def wf_users_def)
  have "users (snd (AddOrUpdate aliceBytes 7 freshRoster)) =
      [(alice, zeroUser\<lparr>Hash := alice, JoinedAt := 7, LastMessageAt := 7\<rparr>)]"
    by (simp add: users_simps demo_hashes freshRoster_def)
  moreover have "banlist freshRoster = []" by (simp add: freshRoster_def)
  ultimately show ?thesis
    using restart_roundtrip [OF new _ _ wf reaches_one [where step = roster_step, OF roster_step.add], of aliceBytes 7]
    by (simp add: zeroUser_def nicks_valid_def)
qed

text \<open>
  C22: a failed flush is not retried. When the save of a flush fails, the error is returned and the file
  keeps its old contents, but the mark is already cleared: the following flush, at shutdown for example,
  writes nothing and reports success although the file does not hold the activity stamps in memory.
\<close>

theorem failed_Flush_forgets:
  assumes "dirty r" and "store r = Some f" and "answers f = Some e # as"
  shows "fst (Flush r) = Some (ErrIO e) \<and>
    (\<exists>f'. store (snd (Flush r)) = Some f' \<and> content f' = content f) \<and>
    Flush (snd (Flush r)) = (None, snd (Flush r))"
  using assms by (simp add: Flush_def persistLocked_def Save_def)

theorem failed_Flush_forgets_witness:
  "Flush (snd (Flush (snd (Touch aliceBytes 9 (demo\<lparr>store := Some \<lparr>content = Absent, answers = [Some ''disk full'']\<rparr>\<rparr>))))) =
   (None, snd (Flush (snd (Touch aliceBytes 9 (demo\<lparr>store := Some \<lparr>content = Absent, answers = [Some ''disk full'']\<rparr>\<rparr>)))))"
proof -
  let ?r = "snd (Touch aliceBytes 9 (demo\<lparr>store := Some \<lparr>content = Absent, answers = [Some ''disk full'']\<rparr>\<rparr>))"
  have "dirty ?r" "store ?r = Some \<lparr>content = Absent, answers = [Some ''disk full'']\<rparr>"
    by (simp_all add: Touch_def normalizeHash_def demo_hashes demo_lookup deferPersistLocked_def)
  from failed_Flush_forgets [OF this] show ?thesis by simp
qed

end
