(* ===== verification/GroupInfo.thy ===== *)
theory GroupInfo
  imports Utf8 Storage
begin

text \<open>
  \<^verbatim>\<open>internal/groupinfo\<close>: the group description and the pinned messages, their limits, and how the pins
  are rendered. \<open>Store\<close> is the struct of the same name without its mutex (each method is one step), with
  the file it is saved to as the typed file of theory \<open>Storage\<close>.

  \<open>HumanAge\<close> divides exactly. The code goes through a float64, which for ages of more than 4096 hours
  can land on the next day a nanosecond or two early; nothing else is abstracted.
\<close>

unbundle bit_operations_syntax

definition MaxInfoBytes :: int where "MaxInfoBytes = 256"
definition MaxPins :: nat where "MaxPins = 10"
definition MaxPinBytes :: int where "MaxPinBytes = 200"

record Pin =
  At :: time
  By :: string
  ByNick :: string
  Text :: string

definition zeroPin :: Pin where
  "zeroPin = \<lparr>At = 0, By = [], ByNick = [], Text = []\<rparr>"

record fileFormat =
  fInfo :: string
  fPins :: "Pin list"

record Store =
  gpath :: "fileFormat store_file"
  info :: string
  pins :: "Pin list"

datatype info_error = ErrPinsFull | ErrSave string

subsection \<open>Cutting a text at a byte limit\<close>

fun backoff :: "string \<Rightarrow> nat \<Rightarrow> nat" where
  "backoff s k = (if k > 0 \<and> (ord (s ! k) AND 0xC0) = 0x80 then backoff s (k - 1) else k)"

declare backoff.simps [simp del]

definition TruncateText :: "string \<Rightarrow> int \<Rightarrow> string" where
  "TruncateText s limit =
     (if limit \<le> 0 \<or> int (length s) \<le> limit then s else take (backoff s (nat limit)) s)"

subsection \<open>Methods of the store\<close>

definition load :: "fileFormat store_file \<Rightarrow> string + Store" where
  "load f = (case ReadStore \<lparr>fInfo = [], fPins = []\<rparr> f of
      Inl e \<Rightarrow> Inl e
    | Inr d \<Rightarrow> Inr \<lparr>gpath = f, info = TruncateText (fInfo d) MaxInfoBytes,
        pins = map (\<lambda>p. p\<lparr>Text := TruncateText (Text p) MaxPinBytes\<rparr>)
          (if length (fPins d) > MaxPins then take MaxPins (fPins d) else fPins d)\<rparr>)"

text \<open>The file holds what JSON makes of the texts: see \<open>json_text\<close>.\<close>

definition json_pin :: "Pin \<Rightarrow> Pin" where
  "json_pin p = p\<lparr>By := json_text (By p), ByNick := json_text (ByNick p), Text := json_text (Text p)\<rparr>"

definition persistStore :: "Store \<Rightarrow> info_error option \<times> Store" where
  "persistStore s = (let (e, f) = Save \<lparr>fInfo = json_text (info s), fPins = map json_pin (pins s)\<rparr> (gpath s)
                     in (map_option ErrSave e, s\<lparr>gpath := f\<rparr>))"

definition texts_valid :: "Store \<Rightarrow> bool" where
  "texts_valid s \<longleftrightarrow> valid_utf8 (info s) \<and>
     list_all (\<lambda>p. valid_utf8 (By p) \<and> valid_utf8 (ByNick p) \<and> valid_utf8 (Text p)) (pins s)"

definition SetInfo :: "string \<Rightarrow> Store \<Rightarrow> info_error option \<times> Store" where
  "SetInfo text s = persistStore (s\<lparr>info := TruncateText text MaxInfoBytes\<rparr>)"

definition Pins :: "Store \<Rightarrow> Pin list" where "Pins s = pins s"

definition PinCount :: "Store \<Rightarrow> nat" where "PinCount s = length (pins s)"

definition AddPin :: "Pin \<Rightarrow> Store \<Rightarrow> info_error option \<times> Store" where
  "AddPin p s =
     (if length (pins s) \<ge> MaxPins then (Some ErrPinsFull, s)
      else persistStore (s\<lparr>pins := pins s @ [p\<lparr>Text := TruncateText (Text p) MaxPinBytes\<rparr>]\<rparr>))"

definition RemovePin :: "int \<Rightarrow> Store \<Rightarrow> (Pin \<times> bool \<times> info_error option) \<times> Store" where
  "RemovePin n s =
     (if n < 1 \<or> n > int (length (pins s)) then ((zeroPin, False, None), s)
      else (let removed = pins s ! nat (n - 1);
                (e, s') = persistStore (s\<lparr>pins := take (nat (n - 1)) (pins s) @ drop (nat n) (pins s)\<rparr>)
            in ((removed, True, e), s')))"

subsection \<open>Rendering\<close>

definition HumanAge :: "duration \<Rightarrow> string" where
  "HumanAge d0 = (let d = (if d0 < 0 then 0 else d0) in
     if d < Minute then Itoa (d div Second) @ ''s''
     else if d < Hour then Itoa (d div Minute) @ ''m''
     else if d < 24 * Hour then Itoa (d div Hour) @ ''h''
     else Itoa (d div (24 * Hour)) @ ''d'')"

definition scrub :: "string \<Rightarrow> string" where
  "scrub s =
     (let bad = (\<lambda>c. (ord c < 0x20 \<and> c \<noteq> CHR 0x09 \<and> c \<noteq> CHR 0x0A \<and> c \<noteq> CHR 0x0D) \<or> ord c = 0x7F) in
      if \<not> list_ex bad s then s else map (\<lambda>c. if bad c then CHR ''?'' else c) s)"

definition render_pin :: "time \<Rightarrow> nat \<Rightarrow> Pin \<Rightarrow> string" where
  "render_pin now n p =
     (let who = (if ByNick p = [] \<and> length (By p) \<ge> 8 then take 8 (By p) else ByNick p);
          age = HumanAge (time_sub now (At p));
          tag = (if who = [] \<and> At p = 0 then ''''
                 else if who = [] then ''['' @ age @ ''] ''
                 else if At p = 0 then ''['' @ who @ ''] ''
                 else ''['' @ who @ '', '' @ age @ ''] '')
      in nl @ dec_nat n @ ''. '' @ tag @ scrub (Text p))"

definition Render :: "Pin list \<Rightarrow> time \<Rightarrow> string" where
  "Render ps now =
     (if ps = [] then ''''
      else ''Pinned ('' @ dec_nat (length ps) @ ''):'' @
        concat (map (\<lambda>i. render_pin now (i + 1) (ps ! i)) [0..<length ps]))"

subsection \<open>Truncation\<close>

lemma mask_top_bits:
  assumes "n < 256"
  shows "n AND 0xC0 = n div 64 * (64 :: nat)"
proof -
  have m: "(0xC0 :: nat) = push_bit 6 (mask 2)" by (simp add: push_bit_eq_mult mask_eq_exp_minus_1)
  have "n div 64 * 64 = push_bit 6 (drop_bit 6 n)" by (simp add: push_bit_eq_mult drop_bit_eq_div)
  moreover have "k - 6 < 2" if "bit n k" for k
  proof -
    have "k < 8" using that assms power_increasing [of 8 k "2 :: nat"]
      by (rule_tac ccontr) (auto simp: bit_iff_odd)
    then show ?thesis by simp
  qed
  ultimately show ?thesis
    unfolding m by (intro bit_eqI) (auto simp: bit_and_iff bit_push_bit_iff bit_mask_iff bit_drop_bit_eq)
qed

lemma byte_mask_cont: "(ord c AND 0xC0) = 0x80 \<longleftrightarrow> is_cont c"
proof -
  have "ord c AND 0xC0 = ord c div 64 * 64" by (rule mask_top_bits) simp
  moreover have "ord c div 64 = 2 \<longleftrightarrow> 128 \<le> ord c \<and> ord c \<le> 191" by auto
  ultimately show ?thesis by (auto simp: is_cont_def)
qed

lemma backoff_le: "backoff s k \<le> k"
proof (induction s k rule: backoff.induct)
  case (1 s k)
  then show ?case by (cases "k > 0 \<and> (ord (s ! k) AND 0xC0) = 0x80") (auto simp: backoff.simps [of s k])
qed

lemma backoff_stop: "backoff s k = 0 \<or> \<not> is_cont (s ! backoff s k)"
proof (induction s k rule: backoff.induct)
  case (1 s k)
  then show ?case by (subst (1 2) backoff.simps) (auto simp: byte_mask_cont)
qed

lemma backoff_run: "backoff s k < i \<Longrightarrow> i \<le> k \<Longrightarrow> is_cont (s ! i)"
proof (induction s k rule: backoff.induct)
  case (1 s k)
  show ?case
  proof (cases "k > 0 \<and> is_cont (s ! k)")
    case True
    then have "backoff s k = backoff s (k - 1)" by (subst backoff.simps) (simp add: byte_mask_cont)
    with 1 True show ?thesis by (cases "i = k") (auto simp: byte_mask_cont)
  next
    case False
    then have "backoff s k = k" by (subst backoff.simps) (auto simp: byte_mask_cont)
    with 1 show ?thesis by simp
  qed
qed

lemma length_TruncateText: "0 < n \<Longrightarrow> length (TruncateText s n) \<le> nat n"
  using backoff_le [of s "nat n"] by (auto simp: TruncateText_def)

lemma TruncateText_short: "int (length s) \<le> n \<Longrightarrow> TruncateText s n = s"
  by (simp add: TruncateText_def)

lemma TruncateText_idem: "TruncateText (TruncateText s n) n = TruncateText s n"
  using length_TruncateText [of n s] by (cases "0 < n") (auto simp: TruncateText_def)

text \<open>
  A cut text is a prefix of the original within the byte limit, it is still well-formed UTF-8 when
  the original was, it is the whole text when that fits, and otherwise no longer prefix that ends at a
  character boundary fits.
\<close>

theorem TruncateText_spec:
  assumes "0 < n" and "valid_utf8 s"
  shows "prefix (TruncateText s n) s \<and> int (length (TruncateText s n)) \<le> n \<and>
    valid_utf8 (TruncateText s n) \<and> (int (length s) \<le> n \<longrightarrow> TruncateText s n = s) \<and>
    (\<forall>i. length (TruncateText s n) < i \<and> i < length s \<and> \<not> is_cont (s ! i) \<longrightarrow> n < int i)"
proof (cases "int (length s) \<le> n")
  case True
  with assms show ?thesis by (auto simp: TruncateText_def)
next
  case False
  let ?k = "backoff s (nat n)"
  have t: "TruncateText s n = take ?k s" using False assms(1) by (simp add: TruncateText_def)
  have k: "?k \<le> nat n" by (rule backoff_le)
  have "valid_utf8 (take ?k s)" using valid_utf8_take [OF assms(2)] backoff_stop [of s "nat n"] by blast
  moreover have "n < int i" if "?k < i" "i < length s" "\<not> is_cont (s ! i)" for i
    using backoff_run [of s "nat n" i] that assms(1) by (cases "i \<le> nat n") auto
  moreover have "length (take ?k s) = ?k" using k False by simp
  ultimately show ?thesis unfolding t using k assms(1) False by (auto simp: take_is_prefix)
qed

theorem TruncateText_spec_witness:
  "TruncateText (''a'' @ mdash) 2 = ''a'' \<and> prefix (TruncateText (''a'' @ mdash) 2) (''a'' @ mdash)"
proof -
  have "valid_utf8 (''a'' @ mdash)"
    by (simp add: mdash_def decode_rune.simps in_range_def is_cont_def Let_def)
  from TruncateText_spec [OF _ this, of 2] show ?thesis
    by (simp add: TruncateText_def mdash_def byte_mask_cont is_cont_def backoff.simps)
qed

subsection \<open>Limits of the stored text\<close>

definition gi_ok :: "Store \<Rightarrow> bool" where
  "gi_ok s \<longleftrightarrow> length (info s) \<le> 256 \<and> length (pins s) \<le> 10 \<and>
     (\<forall>p \<in> set (pins s). length (Text p) \<le> 200)"

inductive gi_step :: "Store \<Rightarrow> Store \<Rightarrow> bool" where
  set_info: "gi_step s (snd (SetInfo t s))"
| add_pin: "gi_step s (snd (AddPin p s))"
| remove_pin: "gi_step s (snd (RemovePin n s))"

definition gi_init :: "Store \<Rightarrow> bool" where
  "gi_init s \<longleftrightarrow> load (gpath s) = Inr s"

lemma persistStore_frame [simp]:
  "info (snd (persistStore s)) = info s" "pins (snd (persistStore s)) = pins s"
  by (simp_all add: persistStore_def split: prod.split)

lemmas limit_bounds =
  length_TruncateText [of MaxInfoBytes, simplified MaxInfoBytes_def, simplified]
  length_TruncateText [of MaxPinBytes, simplified MaxPinBytes_def, simplified]

lemma gi_ok_load: "load f = Inr s \<Longrightarrow> gi_ok s"
  by (auto simp: load_def gi_ok_def MaxInfoBytes_def MaxPins_def MaxPinBytes_def limit_bounds
      split: sum.splits)

lemma gi_ok_writes:
  assumes "gi_ok s"
  shows "gi_ok (s\<lparr>info := TruncateText t MaxInfoBytes\<rparr>)"
    and "\<not> MaxPins \<le> length (pins s) \<Longrightarrow> gi_ok (s\<lparr>pins := pins s @ [p\<lparr>Text := TruncateText (Text p) MaxPinBytes\<rparr>]\<rparr>)"
    and "gi_ok (s\<lparr>pins := take (nat (n - 1)) (pins s) @ drop (nat n) (pins s)\<rparr>)"
  using assms
  by (auto simp: gi_ok_def MaxInfoBytes_def MaxPins_def MaxPinBytes_def limit_bounds
      dest: in_set_takeD in_set_dropD)

lemma gi_ok_persist [simp]: "gi_ok (snd (persistStore s)) = gi_ok s"
  by (simp add: gi_ok_def)

lemma gi_ok_steps [wf_intros]:
  assumes "gi_ok s"
  shows "gi_ok (snd (SetInfo t s))" "gi_ok (snd (AddPin p s))" "gi_ok (snd (RemovePin n s))"
  using assms by (simp_all add: SetInfo_def AddPin_def RemovePin_def Let_def gi_ok_writes)

interpretation gi_sys: step_system gi_init gi_step gi_ok
proof
  fix s assume "gi_init s"
  then show "gi_ok s" by (simp add: gi_init_def gi_ok_load)
next
  fix s t assume "gi_ok s" "gi_step s t"
  from this(2,1) show "gi_ok t" by (induction rule: gi_step.induct) (auto intro: wf_intros)
qed

lemma persistStore_load:
  assumes "gi_ok s" and "persistStore s = (None, s')" and "texts_valid s'"
  shows "load (gpath s') = Inr s'"
proof -
  obtain f where f0: "Save \<lparr>fInfo = json_text (info s), fPins = map json_pin (pins s)\<rparr> (gpath s) = (None, f)" "s' = s\<lparr>gpath := f\<rparr>"
    using assms(2) by (auto simp: persistStore_def split: prod.splits)
  have "map json_pin (pins s) = pins s" "json_text (info s) = info s"
    using assms(3) f0(2) by (auto intro!: map_idI simp: texts_valid_def list_all_iff json_pin_def json_text_valid)
  with f0 have f: "Save \<lparr>fInfo = info s, fPins = pins s\<rparr> (gpath s) = (None, f)" "s' = s\<lparr>gpath := f\<rparr>" by simp_all
  have "map (\<lambda>p. p\<lparr>Text := TruncateText (Text p) MaxPinBytes\<rparr>) (pins s) = pins s"
    using assms(1) by (intro map_idI) (auto simp: gi_ok_def TruncateText_def MaxPinBytes_def)
  moreover have "TruncateText (info s) MaxInfoBytes = info s"
    using assms(1) by (simp add: gi_ok_def TruncateText_def MaxInfoBytes_def)
  ultimately show ?thesis
    using assms(1) f by (simp add: load_def Save_then_Read [OF f(1)] gi_ok_def MaxPins_def)
qed

text \<open>
  C23: the limits hold in every reachable state, also when the file was edited by hand: the description
  has at most 256 bytes, there are at most 10 pins and each has at most 200 bytes. And an operation that
  reports success is durable: a new process that loads the file gets exactly the store in memory, as long
  as its texts are well-formed UTF-8, the only ones JSON keeps.
\<close>

theorem groupinfo_limits_and_durability:
  assumes "gi_init s0" and "reaches gi_step s0 s"
  shows "length (info s) \<le> 256 \<and> length (pins s) \<le> 10 \<and> (\<forall>p \<in> set (pins s). length (Text p) \<le> 200) \<and>
    (\<forall>t s'. SetInfo t s = (None, s') \<and> texts_valid s' \<longrightarrow> load (gpath s') = Inr s') \<and>
    (\<forall>p s'. AddPin p s = (None, s') \<and> texts_valid s' \<longrightarrow> load (gpath s') = Inr s') \<and>
    (\<forall>n q s'. RemovePin n s = ((q, True, None), s') \<and> texts_valid s' \<longrightarrow> load (gpath s') = Inr s')"
proof -
  have ok: "gi_ok s" using assms by (rule gi_sys.inv_reachable)
  have "load (gpath s') = Inr s'" if "SetInfo t s = (None, s')" "texts_valid s'" for t s'
    using that persistStore_load [OF gi_ok_writes(1) [OF ok]] by (simp add: SetInfo_def)
  moreover have "load (gpath s') = Inr s'" if "AddPin p s = (None, s')" "texts_valid s'" for p s'
    using that persistStore_load [OF gi_ok_writes(2) [OF ok]] by (simp add: AddPin_def split: if_splits)
  moreover have "load (gpath s') = Inr s'" if "RemovePin n s = ((q, True, None), s')" "texts_valid s'" for n q s'
    using that persistStore_load [OF gi_ok_writes(3) [OF ok]]
    by (auto simp: RemovePin_def Let_def split: if_splits prod.splits)
  ultimately show ?thesis using ok by (auto simp: gi_ok_def)
qed

definition emptyStore :: Store where
  "emptyStore = \<lparr>gpath = \<lparr>content = Absent, answers = []\<rparr>, info = [], pins = []\<rparr>"

theorem groupinfo_limits_and_durability_witness:
  "length (info (snd (SetInfo (replicate 300 CHR ''x'') emptyStore))) \<le> 256 \<and>
   load (gpath (snd (SetInfo ''hi'' emptyStore))) = Inr (snd (SetInfo ''hi'' emptyStore))"
proof
  have init: "gi_init emptyStore"
    by (simp add: gi_init_def load_def ReadStore_def emptyStore_def TruncateText_def MaxPins_def)
  show "length (info (snd (SetInfo (replicate 300 CHR ''x'') emptyStore))) \<le> 256"
    using groupinfo_limits_and_durability [OF init reaches_one [where step = gi_step, OF gi_step.set_info]] by blast
  have "SetInfo ''hi'' emptyStore = (None, snd (SetInfo ''hi'' emptyStore))"
    by (simp add: SetInfo_def persistStore_def Save_def emptyStore_def)
  moreover have "texts_valid (snd (SetInfo ''hi'' emptyStore))"
    by (simp add: SetInfo_def persistStore_def emptyStore_def texts_valid_def TruncateText_def MaxInfoBytes_def
        valid_utf8_ascii is_ascii_def split: prod.split)
  ultimately show "load (gpath (snd (SetInfo ''hi'' emptyStore))) = Inr (snd (SetInfo ''hi'' emptyStore))"
    using groupinfo_limits_and_durability [OF init reaches.refl] by blast
qed

subsection \<open>Rendering\<close>

interpretation gi_scrub: scrubber scrub
  by unfold_locales (auto simp: scrub_def control_byte_def Let_def list_ex_iff)

lemma length_dec_nat_le:
  "n < 10 \<Longrightarrow> length (dec_nat n) \<le> 1" "n < 100 \<Longrightarrow> length (dec_nat n) \<le> 2"
  "n < 1000000 \<Longrightarrow> length (dec_nat n) \<le> 6"
  using length_dec_nat_mono [of n 9] length_dec_nat_mono [of n 99] length_dec_nat_mono [of n 999999]
  by (simp_all add: dec_nat.simps)

lemma length_Itoa_div:
  assumes "0 \<le> d" and "d < int k * q" and "0 < q" and "length (dec_nat (k - 1)) \<le> m"
  shows "length (Itoa (d div q)) \<le> m"
proof -
  have "0 \<le> d div q" using assms(1,3) by (simp add: pos_imp_zdiv_nonneg_iff)
  moreover have "d div q < int k"
  proof (rule ccontr)
    assume "\<not> d div q < int k"
    then have "int k * q \<le> d div q * q" using assms(3) by (intro mult_right_mono) auto
    also have "\<dots> \<le> d" using assms(3) by (simp flip: minus_mod_eq_div_mult)
    finally show False using assms(2) by simp
  qed
  ultimately have "nat (d div q) \<le> k - 1" by linarith
  then have "length (dec_nat (nat (d div q))) \<le> length (dec_nat (k - 1))" by (rule length_dec_nat_mono)
  with assms(4) \<open>0 \<le> d div q\<close> show ?thesis by (simp add: Itoa_def)
qed

lemma length_HumanAge: "d \<le> maxDuration \<Longrightarrow> length (HumanAge d) \<le> 7"
  using length_Itoa_div [of "if d < 0 then 0 else d" 60 Second 6]
    length_Itoa_div [of "if d < 0 then 0 else d" 60 Minute 6]
    length_Itoa_div [of "if d < 0 then 0 else d" 24 Hour 6]
    length_Itoa_div [of "if d < 0 then 0 else d" 1000000 "24 * Hour" 6]
    length_dec_nat_le(3) [of 59] length_dec_nat_le(3) [of 23] length_dec_nat_le(3) [of 999999]
  by (simp add: HumanAge_def Let_def duration_defs split: if_splits)

lemma length_render_pin:
  assumes "n \<le> 10" and "length (ByNick p) \<le> 32" and "length (Text p) \<le> 200"
  shows "length (render_pin now n p) \<le> 249"
proof -
  have age: "length (HumanAge (time_sub now (At p))) \<le> 7"
    by (intro length_HumanAge) (simp add: time_sub_def duration_defs)
  have num: "length (dec_nat n) \<le> 2" using assms(1) by (intro length_dec_nat_le(2)) simp
  show ?thesis
    using assms age num by (auto simp: render_pin_def Let_def gi_scrub.scrub_length)
qed

lemma sum_list_le_mult:
  "(\<And>x. x \<in> set xs \<Longrightarrow> f x \<le> c) \<Longrightarrow> sum_list (map f xs) \<le> length xs * (c :: nat)"
  by (induction xs) (auto simp: add_mono)

lemma Render_infix:
  assumes "i < length ps"
  shows "\<exists>pre post. Render ps now = pre @ render_pin now (i + 1) (ps ! i) @ post"
proof -
  have "[0..<length ps] = [0..<i] @ i # [Suc i..<length ps]"
    using assms by (metis le_add_same_cancel1 less_imp_le_nat upt_add_eq_append upt_conv_Cons zero_le add_0 le_Suc_ex)
  moreover have "ps \<noteq> []" using assms by auto
  ultimately have "Render ps now = (''Pinned ('' @ dec_nat (length ps) @ ''):'' @
      concat (map (\<lambda>i. render_pin now (i + 1) (ps ! i)) [0..<i])) @ render_pin now (i + 1) (ps ! i) @
      concat (map (\<lambda>i. render_pin now (i + 1) (ps ! i)) [Suc i..<length ps])"
    by (simp add: Render_def)
  then show ?thesis by blast
qed

lemma length_Render:
  assumes "gi_ok s" and "\<And>p. p \<in> set (pins s) \<Longrightarrow> length (ByNick p) \<le> 32"
  shows "length (Render (pins s) now) \<le> 2502"
proof -
  let ?ps = "pins s" and ?line = "\<lambda>i. render_pin now (i + 1) (pins s ! i)"
  have n: "length ?ps \<le> 10" and tl: "\<forall>p \<in> set ?ps. length (Text p) \<le> 200"
    using assms(1) by (auto simp: gi_ok_def)
  have "length (?line i) \<le> 249" if "i < length ?ps" for i
    using that n assms(2) tl by (intro length_render_pin) auto
  then have "sum_list (map (\<lambda>i. length (?line i)) [0..<length ?ps]) \<le> length [0..<length ?ps] * 249"
    by (intro sum_list_le_mult) auto
  then have "length (concat (map ?line [0..<length ?ps])) \<le> length ?ps * 249"
    by (simp add: length_concat comp_def)
  also have "\<dots> \<le> 2490" using n by simp
  finally show ?thesis
    using length_dec_nat_le(2) [of "length ?ps"] n by (auto simp: Render_def)
qed

text \<open>
  What \<^verbatim>\<open>/pins\<close> shows and every joiner is sent. With the limits of the store and nicknames of at most
  32 bytes, the rendered block has at most 2502 bytes, whatever the pins say and however old they are;
  its text lines carry no control byte; and the number shown in front of a pin is the number that
  \<^verbatim>\<open>RemovePin\<close> removes it by, which leaves every other pin in place and in order.
\<close>

theorem Render_bounded_and_numbered:
  assumes "gi_ok s" and "\<forall>p \<in> set (pins s). length (ByNick p) \<le> 32"
  shows "length (Render (pins s) now) \<le> 2502 \<and>
    (\<forall>i < length (pins s).
       (\<exists>pre post. Render (pins s) now = pre @ render_pin now (i + 1) (pins s ! i) @ post) \<and>
       (\<forall>c \<in> set (scrub (Text (pins s ! i))). \<not> control_byte c) \<and>
       fst (fst (RemovePin (int i + 1) s)) = pins s ! i \<and>
       pins (snd (RemovePin (int i + 1) s)) = take i (pins s) @ drop (Suc i) (pins s))"
proof -
  have "length (Render (pins s) now) \<le> 2502" using assms by (intro length_Render) auto
  moreover have "\<exists>pre post. Render (pins s) now = pre @ render_pin now (i + 1) (pins s ! i) @ post"
    if "i < length (pins s)" for i
    using that by (intro Render_infix)
  ultimately show ?thesis
    using gi_scrub.scrub_no_control
    by (simp add: RemovePin_def Let_def nat_add_distrib split: prod.split)
qed

theorem Render_bounded_and_numbered_witness:
  "length (Render (pins (snd (AddPin \<lparr>At = 5, By = [], ByNick = ''al'', Text = ''hi''\<rparr> emptyStore))) 9) \<le> 2502"
proof -
  let ?s = "snd (AddPin \<lparr>At = 5, By = [], ByNick = ''al'', Text = ''hi''\<rparr> emptyStore)"
  have ok: "gi_ok ?s" by (rule gi_ok_steps) (simp add: gi_ok_def emptyStore_def)
  have nick: "\<forall>p \<in> set (pins ?s). length (ByNick p) \<le> 32" by (simp add: AddPin_def emptyStore_def MaxPins_def)
  from Render_bounded_and_numbered [OF ok nick] show ?thesis by blast
qed

end
