(* ===== verification/Commands.thy ===== *)
theory Commands
  imports Parser Config RosterProps GroupInfo
begin

text \<open>
  \<^verbatim>\<open>internal/commands/handlers.go\<close> and \<^verbatim>\<open>info.go\<close>: what every slash command does.

  \<open>Dispatcher\<close> is the struct of the same name. The roster and the group-information store it points to
  are part of its state; the function fields the service wires in are fields here too, with \<^const>\<open>None\<close> (or
  \<^const>\<open>False\<close>) for nil: \<open>Announce\<close> holds the error the hook returns, \<open>PathLookup\<close> and
  \<open>LookupAnnouncedName\<close> are functions. The hooks that act on the rest of the service (\<^verbatim>\<open>OnJoin\<close>,
  \<^verbatim>\<open>OnAdminAdd\<close>, \<^verbatim>\<open>OverflowLog\<close>, a successful \<^verbatim>\<open>Announce\<close> call) are recorded as emitted events, in order.
  \<open>PacketFits n\<close> stands for \<^verbatim>\<open>lxmf.CheckOpportunisticSize\<close> accepting a content of \<open>n\<close> bytes: the library's
  check reads nothing of the content but its length.

  A handler takes the time it reads from the clock as an argument and returns the reply, the events and
  the new dispatcher. \<open>Dispatch\<close> is the switch over the command name.
\<close>

subsection \<open>Roles\<close>

datatype Role = RoleUser | RoleMod | RoleAdmin

fun role_rank :: "Role \<Rightarrow> nat" where
  "role_rank RoleUser = 0"
| "role_rank RoleMod = 1"
| "role_rank RoleAdmin = 2"

instantiation Role :: linorder
begin

definition less_eq_Role :: "Role \<Rightarrow> Role \<Rightarrow> bool" where
  "less_eq_Role a b \<longleftrightarrow> role_rank a \<le> role_rank b"

definition less_Role :: "Role \<Rightarrow> Role \<Rightarrow> bool" where
  "less_Role a b \<longleftrightarrow> role_rank a < role_rank b"

instance
proof
  fix x y :: Role
  show "x \<le> y \<Longrightarrow> y \<le> x \<Longrightarrow> x = y" by (cases x; cases y) (auto simp: less_eq_Role_def)
qed (auto simp: less_eq_Role_def less_Role_def)

end

definition atLeastMod :: "Role \<Rightarrow> bool" where
  "atLeastMod r \<longleftrightarrow> r = RoleMod \<or> r = RoleAdmin"

definition parseRole :: "string \<Rightarrow> Role" where
  "parseRole s = (if s = ''admin'' then RoleAdmin else if s = ''mod'' then RoleMod else RoleUser)"

definition roleName :: "Role \<Rightarrow> string" where
  "roleName r = (case r of RoleAdmin \<Rightarrow> ''admin'' | RoleMod \<Rightarrow> ''mod'' | RoleUser \<Rightarrow> ''user'')"

subsection \<open>State\<close>

record Caller =
  CHash :: string
  HashBytes :: "bytes option"
  CRole :: Role
  Member :: bool
  CPaused :: bool
  CTextOnly :: bool

record PathInfo =
  Known :: bool
  PLastSeen :: time
  Hops :: int
  NextHopHex :: string
  LinkActive :: bool

record Dispatcher =
  Cfg :: Config
  Rost :: Roster
  Info :: "Store option"
  Announce :: "string option option"
  PathLookup :: "(string \<Rightarrow> PathInfo) option"
  OnJoin :: bool
  OnAdminAdd :: bool
  LookupAnnouncedName :: "(bytes \<Rightarrow> string) option"
  MaxReplyContentBytes :: int
  OverflowLog :: bool
  PacketFits :: "nat \<Rightarrow> bool"

datatype hook = Joined string | AdminAdded string | Announced_now | Overflowed string nat nat string

type_synonym outcome = "(string \<times> hook list) \<times> Dispatcher"

definition reply :: "string \<Rightarrow> Dispatcher \<Rightarrow> outcome" where
  "reply s d = ((s, []), d)"

abbreviation err_text :: "Dispatcher \<Rightarrow> gerror \<Rightarrow> string" where
  "err_text d e \<equiv> Error (uni (Rost d)) e"

definition configRole :: "Dispatcher \<Rightarrow> string \<Rightarrow> Role" where
  "configRole d hashHex =
     (if IsAdmin (uni (Rost d)) (Cfg d) hashHex then RoleAdmin
      else if IsMod (uni (Rost d)) (Cfg d) hashHex then RoleMod
      else RoleUser)"

definition deriveCaller :: "Dispatcher \<Rightarrow> string \<Rightarrow> Caller" where
  "deriveCaller d senderHash =
     (let sh = ToLower (uni (Rost d)) senderHash;
          hb = mustHexBytes sh;
          c = \<lparr>CHash = sh, HashBytes = hb, CRole = configRole d sh,
               Member = (case hb of None \<Rightarrow> False | Some b \<Rightarrow> Has b (Rost d)),
               CPaused = False, CTextOnly = False\<rparr>
      in if \<not> Member c then c
         else (case Get sh (Rost d) of
             None \<Rightarrow> c
           | Some u \<Rightarrow> c\<lparr>CPaused := Paused u, CTextOnly := TextOnly u,
               CRole := (if parseRole (Role u) > CRole c then parseRole (Role u) else CRole c)\<rparr>))"

subsection \<open>Fixed texts\<close>

definition Version :: string where "Version = ''1.18.1''"
definition RepoURL :: string where "RepoURL = ''https://github.com/thatSFguy/reticulum-group-chat''"

definition aboutText :: string where
  "aboutText = ''fwdsvc v'' @ Version @ nl @ ''Source: '' @ RepoURL"

definition helpText :: "Caller \<Rightarrow> string" where
  "helpText c =
     ''Commands:'' @ nl @ ''/?, /help'' @ nl @ ''/about - version + repo'' @ nl @
     ''/info - about this group'' @ nl @ ''/users /mods /admin - lists'' @ nl @
     (if \<not> Member c then ''/join - join the chat'' @ nl
      else ''/pins - pinned messages'' @ nl @ ''/nick NAME - rename self'' @ nl @
        ''/leave - leave the chat'' @ nl @ ''/pause /resume - mute/unmute'' @ nl @
        ''/textonly /showall - skip media'' @ nl) @
     (if atLeastMod (CRole c) then
        ''/nick USER NAME - mod'' @ nl @ ''/kick /ban /unban /path USER - mod'' @ nl @
        ''/adduser HASH /removeuser USER - mod'' @ nl @ ''/pin TEXT /unpin N - mod'' @ nl @
        ''/announce - mod'' @ nl @
        (if CRole c = RoleAdmin then ''/setinfo TEXT - admin'' @ nl @ ''/usermode ROLE USER - admin'' @ nl else '''') @
        ''USER = nick or hex (>=4)''
      else if Member c then ''USER = nick or hex (>=4)'' else '''')"

subsection \<open>Lists\<close>

definition maxListedUsers :: nat where "maxListedUsers = 200"

definition footer :: "nat \<Rightarrow> string" where
  "footer n = nl @ ''  ...and '' @ dec_nat n @ '' more (see operator log)''"

text \<open>The loop of \<^verbatim>\<open>fitList\<close>: the lines to come, the text so far, \<^verbatim>\<open>used\<close> and \<^verbatim>\<open>kept\<close>.\<close>

fun fit_loop :: "int \<Rightarrow> string list \<Rightarrow> string \<Rightarrow> nat \<Rightarrow> nat \<Rightarrow> string \<times> nat" where
  "fit_loop limit [] b used kept = (b, kept)"
| "fit_loop limit (line # rest) b used kept =
     (let need = 1 + length line in
      if int (used + need + length (footer (length rest))) > limit \<and> length rest > 0
      then (b @ footer (length (line # rest)), kept)
      else if int (used + need) > limit then (b @ footer (length (line # rest)), kept)
      else fit_loop limit rest (b @ nl @ line) (used + need) (kept + 1))"

definition fitList :: "Dispatcher \<Rightarrow> string \<Rightarrow> string \<Rightarrow> string list \<Rightarrow> string \<times> hook list" where
  "fitList d cmd header lines =
     (let full = (if lines = [] then header else header @ nl @ Join lines nl);
          limit = MaxReplyContentBytes d in
      if limit \<le> 0 \<or> int (length full) \<le> limit then (full, [])
      else (let (b, kept) = fit_loop limit lines header (length header) 0 in
        if kept = length lines then (full, [])
        else (b, if OverflowLog d then [Overflowed cmd kept (length lines) full] else [])))"

definition user_line :: "User \<Rightarrow> string" where
  "user_line u = ''  '' @ (if Nickname u = [] then ''(no nick)'' else Nickname u) @ '' '' @ mdash @ '' '' @
     first8 (Hash u) @ (if Paused u then '' [paused]'' else '''')"

definition listUsers :: "Dispatcher \<Rightarrow> string \<times> hook list" where
  "listUsers d =
     (let us = List_users (Rost d) in
      if us = [] then (''No users.'', [])
      else (let header = ''Users ('' @ dec_nat (length us) @ ''):'';
                truncated = (if length us > maxListedUsers then length us - maxListedUsers else 0);
                shown = (if length us > maxListedUsers then take maxListedUsers us else us);
                lines = map user_line shown @
                  (if truncated > 0 then [''  '' @ ellipsis @ '' and '' @ dec_nat truncated @ '' more''] else [])
            in fitList d ''/users'' header lines))"

definition listConfigList :: "Dispatcher \<Rightarrow> string \<Rightarrow> string list \<Rightarrow> string \<times> hook list" where
  "listConfigList d label hashes =
     (if hashes = [] then (''No '' @ label @ '' configured.'', [])
      else (let sorted_hs = sort hashes;
                header = titleCase label @ '' ('' @ dec_nat (length sorted_hs) @ ''):'';
                line = (\<lambda>h. let nick = (case Get h (Rost d) of Some u \<Rightarrow> Nickname u | None \<Rightarrow> '''') in
                          if nick \<noteq> [] then ''  '' @ nick @ '' '' @ mdash @ '' '' @ first8 h else ''  '' @ first8 h)
            in fitList d (''/'' @ label) header (map line sorted_hs)))"

subsection \<open>Membership\<close>

definition is_full :: "Dispatcher \<Rightarrow> bool" where
  "is_full d \<longleftrightarrow> MaxMembers (Service (Cfg d)) > 0 \<and> int (Len (Rost d)) \<ge> MaxMembers (Service (Cfg d))"

text \<open>The nickname a new member gets from an announced display name, when there is one and it survives.\<close>

definition default_nick :: "Dispatcher \<Rightarrow> bytes \<Rightarrow> string" where
  "default_nick d hb = (case LookupAnnouncedName d of
      None \<Rightarrow> ''''
    | Some f \<Rightarrow> if f hb = [] then '''' else SanitizeNickname (f hb))"

definition handleJoin :: "time \<Rightarrow> Caller \<Rightarrow> Dispatcher \<Rightarrow> outcome" where
  "handleJoin now c d =
     (if Member c then reply ''You're already in the chat. Send /pause to mute, /leave to exit.'' d
      else case HashBytes c of
        None \<Rightarrow> reply ''Couldn't join: malformed sender hash.'' d
      | Some hb \<Rightarrow>
        if Locked (Service (Cfg d)) \<and> \<not> atLeastMod (CRole c) then
          reply (''This is a closed group '' @ mdash @ '' you need to be invited.'' @ nl @
            ''Give an admin your address to be added:'' @ nl @ CHash c) d
        else if IsBanned hb (Rost d) then reply ''You're banned from this chat.'' d
        else if is_full d then
          reply (''Sorry, the chat is full ('' @ dec_nat (Len (Rost d)) @ ''/'' @
            Itoa (MaxMembers (Service (Cfg d))) @ '' members). Please try again later.'') d
        else (let ((_, e), r1) = AddOrUpdate hb now (Rost d); d1 = d\<lparr>Rost := r1\<rparr> in
          case e of Some err \<Rightarrow> reply (''Couldn't join: '' @ err_text d err) d1
          | None \<Rightarrow>
            (let nick = default_nick d1 hb;
                 bare = (case Get (CHash c) r1 of Some u \<Rightarrow> Nickname u = [] | None \<Rightarrow> False);
                 r2 = (if bare \<and> nick \<noteq> [] then snd (SetNickname (CHash c) nick r1) else r1)
             in ((''Joined. You'll receive forwarded messages from now on. /pause to mute, /leave to exit, /? for help.'',
                  if OnJoin d then [Joined (CHash c)] else []), d1\<lparr>Rost := r2\<rparr>))))"

definition handleLeave :: "Caller \<Rightarrow> Dispatcher \<Rightarrow> outcome" where
  "handleLeave c d =
     (if \<not> Member c then reply ''You're not in the chat.'' d
      else (let ((_, e), r) = Remove (CHash c) (Rost d) in
        case e of Some err \<Rightarrow> reply (''Couldn't leave: '' @ err_text d err) (d\<lparr>Rost := r\<rparr>)
        | None \<Rightarrow> reply ''Left the chat. Send /join any time to come back.'' (d\<lparr>Rost := r\<rparr>)))"

text \<open>
  A setter call and its two possible replies, the shape of \<^verbatim>\<open>/pause\<close>, \<^verbatim>\<open>/resume\<close>, \<^verbatim>\<open>/textonly\<close>,
  \<^verbatim>\<open>/showall\<close> and the end of \<^verbatim>\<open>/nick\<close>.
\<close>

definition set_and_reply :: "string \<Rightarrow> string \<Rightarrow> gerror option \<times> Roster \<Rightarrow> Dispatcher \<Rightarrow> outcome" where
  "set_and_reply failed ok res d =
     (let (e, r) = res in
      case e of Some err \<Rightarrow> reply (failed @ err_text d err) (d\<lparr>Rost := r\<rparr>)
      | None \<Rightarrow> reply ok (d\<lparr>Rost := r\<rparr>))"

definition handlePause :: "Caller \<Rightarrow> Dispatcher \<Rightarrow> outcome" where
  "handlePause c d =
     (if \<not> Member c then reply ''You're not in the chat. Send /join first.'' d
      else if CPaused c then reply ''You're already paused. Send /resume to come back.'' d
      else set_and_reply ''Couldn't pause: '' ''Paused. You won't receive forwarded messages until you /resume.''
        (SetPaused (CHash c) True (Rost d)) d)"

definition handleResume :: "Caller \<Rightarrow> Dispatcher \<Rightarrow> outcome" where
  "handleResume c d =
     (if \<not> Member c then reply ''You're not in the chat. Send /join first.'' d
      else if \<not> CPaused c then reply ''You're not paused.'' d
      else set_and_reply ''Couldn't resume: '' ''Resumed. You'll receive forwarded messages again.''
        (SetPaused (CHash c) False (Rost d)) d)"

definition handleTextOnly :: "Caller \<Rightarrow> Dispatcher \<Rightarrow> outcome" where
  "handleTextOnly c d =
     (if \<not> Member c then reply ''You're not in the chat. Send /join first.'' d
      else if CTextOnly c then
        reply ''You're already on text-only. Send /showall to start receiving attachments again.'' d
      else set_and_reply ''Couldn't switch to text-only: ''
        ''Text-only mode on. You'll get the chat text but no image/file attachments. Send /showall to switch back.''
        (SetTextOnly (CHash c) True (Rost d)) d)"

definition handleShowAll :: "Caller \<Rightarrow> Dispatcher \<Rightarrow> outcome" where
  "handleShowAll c d =
     (if \<not> Member c then reply ''You're not in the chat. Send /join first.'' d
      else if \<not> CTextOnly c then reply ''You're already receiving everything.'' d
      else set_and_reply ''Couldn't switch back: '' ''Showing all. You'll receive image and other attachments again.''
        (SetTextOnly (CHash c) False (Rost d)) d)"

definition handleNick :: "Caller \<Rightarrow> string list \<Rightarrow> Dispatcher \<Rightarrow> outcome" where
  "handleNick c args d = (case args of
      [] \<Rightarrow> reply ''Usage: /nick <newname>   (mod/admin: /nick <user> <newname>)'' d
    | [newNick] \<Rightarrow>
        if \<not> Member c then reply ''Send /join first.'' d
        else if \<not> nickRE newNick then reply ''Nickname must be 1-24 chars from [A-Za-z0-9_-] (no spaces).'' d
        else set_and_reply ''Couldn't change nickname: '' (''Nickname set to '' @ newNick @ ''.'')
          (SetNickname (CHash c) newNick (Rost d)) d
    | [who, newNick] \<Rightarrow>
        if \<not> atLeastMod (CRole c) then
          reply ''Nicknames can't contain spaces. Use a single word from [A-Za-z0-9_-] (1-24 chars).'' d
        else (case Resolve who (Rost d) of
            Inl e \<Rightarrow> reply (err_text d e) d
          | Inr target \<Rightarrow>
              if \<not> nickRE newNick then reply ''Nickname must be 1-24 chars from [A-Za-z0-9_-] (no spaces).'' d
              else set_and_reply ''Couldn't change nickname: ''
                (''Set '' @ first8 (Hash target) @ [CHR 0x27] @ ''s nickname to '' @ newNick @ ''.'')
                (SetNickname (Hash target) newNick (Rost d)) d)
    | _ \<Rightarrow>
        if \<not> atLeastMod (CRole c) then
          reply ''Nicknames can't contain spaces. Use a single word from [A-Za-z0-9_-] (1-24 chars).'' d
        else reply ''Usage: /nick <newname>   or   /nick <user> <newname>   (no spaces in either argument)'' d)"

subsection \<open>Moderation\<close>

definition user_label :: "User \<Rightarrow> string" where
  "user_label u = (if Nickname u = [] then first8 (Hash u) else Nickname u)"

text \<open>The second half of \<^verbatim>\<open>/usermode\<close>: the role name is known and the target resolved.\<close>

definition usermode_apply :: "Caller \<Rightarrow> string \<Rightarrow> User \<Rightarrow> Dispatcher \<Rightarrow> outcome" where
  "usermode_apply c requested target d =
     (let reqRole = parseRole requested in
      if Hash target = CHash c \<and> reqRole < RoleAdmin \<and> configRole d (CHash c) < RoleAdmin then
        reply ''You can't remove your own admin role. Ask another admin, or edit the config.'' d
      else
        (let rosterVal = (if requested = ''user'' then [] else requested);
             (e, r) = SetRole (Hash target) rosterVal (Rost d);
             d' = d\<lparr>Rost := r\<rparr> in
         case e of Some err \<Rightarrow> reply (''Couldn't set role: '' @ err_text d err) d'
         | None \<Rightarrow>
           (let flr = configRole d (Hash target);
                effective = (if flr > reqRole then flr else reqRole) in
            if effective > reqRole then
              reply (user_label target @ '' is '' @ roleName flr @
                '' via the config file, so their effective role stays '' @ roleName effective @
                ''. Edit the config to lower it.'') d'
            else reply (''Set '' @ user_label target @ [CHR 0x27] @ ''s role to '' @ roleName effective @ ''.'') d')))"

definition handleUserMode :: "Caller \<Rightarrow> string list \<Rightarrow> Dispatcher \<Rightarrow> outcome" where
  "handleUserMode c args d =
     (if CRole c \<noteq> RoleAdmin then reply ''Only admins can change roles.'' d
      else case args of
        [arg0, who] \<Rightarrow>
          (let requested = ToLower (uni (Rost d)) arg0 in
           if requested \<notin> {''admin'', ''mod'', ''user''} then reply ''Role must be admin, mod, or user.'' d
           else case Resolve who (Rost d) of
             Inl e \<Rightarrow> reply (err_text d e) d
           | Inr target \<Rightarrow> usermode_apply c requested target d)
      | _ \<Rightarrow> reply ''Usage: /usermode <admin|mod|user> <user>'' d)"

definition handleAddUser :: "time \<Rightarrow> Role \<Rightarrow> string list \<Rightarrow> Dispatcher \<Rightarrow> outcome" where
  "handleAddUser now role args d =
     (if \<not> atLeastMod role then reply ''Only mods or admins can add users.'' d
      else case args of
        [arg0] \<Rightarrow>
          (let hashHex = ToLower (uni (Rost d)) (TrimSpace arg0) in
           case mustHexBytes hashHex of
             None \<Rightarrow> reply (''That doesn't look like a valid address '' @ mdash @ '' expected 32 hex characters.'') d
           | Some hb \<Rightarrow>
             if IsBanned hb (Rost d) then
               reply (first8 hashHex @ '' is banned. /unban them first, then /adduser.'') d
             else if Has hb (Rost d) then reply (first8 hashHex @ '' is already in the group.'') d
             else if is_full d then
               reply (''Can't add '' @ mdash @ '' the group is full ('' @ dec_nat (Len (Rost d)) @ ''/'' @
                 Itoa (MaxMembers (Service (Cfg d))) @ '' members).'') d
             else (let ((_, e), r1) = AddInvited hb now (Rost d); d1 = d\<lparr>Rost := r1\<rparr> in
               case e of Some err \<Rightarrow> reply (''Couldn't add user: '' @ err_text d err) d1
               | None \<Rightarrow>
                 (let nick = default_nick d1 hb;
                      r2 = (if nick \<noteq> [] then snd (SetNickname hashHex nick r1) else r1);
                      unheard = (case PathLookup d of None \<Rightarrow> False | Some f \<Rightarrow> \<not> Known (f hashHex))
                  in ((''Added '' @ first8 hashHex @
                        (if unheard then '' '' @ mdash @ '' they'll be welcomed once we hear from them.''
                         else '' and sent them a welcome.''),
                       if OnAdminAdd d then [AdminAdded hashHex] else []), d1\<lparr>Rost := r2\<rparr>))))
      | _ \<Rightarrow> reply (''Usage: /adduser <hash>   (32 hex chars '' @ mdash @ '' the user's LXMF address)'') d)"

definition handleRemoveUser :: "Role \<Rightarrow> string list \<Rightarrow> Dispatcher \<Rightarrow> outcome" where
  "handleRemoveUser role args d =
     (if \<not> atLeastMod role then reply ''Only mods or admins can remove users.'' d
      else case args of
        [who] \<Rightarrow> (case Resolve who (Rost d) of
            Inl e \<Rightarrow> reply (err_text d e) d
          | Inr target \<Rightarrow>
            (let ((removed, e), r) = Remove (Hash target) (Rost d); d' = d\<lparr>Rost := r\<rparr> in
             case e of Some err \<Rightarrow> reply (''Couldn't remove: '' @ err_text d err) d'
             | None \<Rightarrow>
               if \<not> removed then reply (first8 (Hash target) @ '' was not in the group.'') d'
               else if Locked (Service (Cfg d)) then
                 reply (''Removed '' @ user_label target @ ''. They can't rejoin until an admin runs /adduser.'') d'
               else reply (''Removed '' @ user_label target @ ''. They can rejoin with /join.'') d'))
      | _ \<Rightarrow> reply ''Usage: /removeuser <user>'' d)"

definition handleKick :: "Role \<Rightarrow> string list \<Rightarrow> Dispatcher \<Rightarrow> outcome" where
  "handleKick role args d =
     (if \<not> atLeastMod role then reply ''Only mods or admins can kick.'' d
      else case args of
        [who] \<Rightarrow> (case Resolve who (Rost d) of
            Inl e \<Rightarrow> reply (err_text d e) d
          | Inr target \<Rightarrow>
            (let ((removed, e), r) = Remove (Hash target) (Rost d); d' = d\<lparr>Rost := r\<rparr> in
             case e of Some err \<Rightarrow> reply (''Couldn't kick: '' @ err_text d err) d'
             | None \<Rightarrow>
               if \<not> removed then reply (first8 (Hash target) @ '' was not in the roster.'') d'
               else reply (''Kicked '' @ user_label target @ ''. They can rejoin with /join.'') d'))
      | _ \<Rightarrow> reply ''Usage: /kick <user>'' d)"

definition handleBan :: "Role \<Rightarrow> string list \<Rightarrow> Dispatcher \<Rightarrow> outcome" where
  "handleBan role args d =
     (if \<not> atLeastMod role then reply ''Only mods or admins can ban.'' d
      else case args of
        [who] \<Rightarrow> (case Resolve who (Rost d) of
            Inl e \<Rightarrow> reply (err_text d e) d
          | Inr target \<Rightarrow>
            (let (e, r) = Ban (Hash target) (Rost d); d' = d\<lparr>Rost := r\<rparr> in
             case e of Some err \<Rightarrow> reply (''Couldn't ban: '' @ err_text d err) d'
             | None \<Rightarrow> reply (''Banned '' @ user_label target @ ''. Their messages will be dropped.'') d'))
      | _ \<Rightarrow> reply ''Usage: /ban <user>'' d)"

text \<open>The second half of \<^verbatim>\<open>/unban\<close>, for an argument that is no banned hash itself.\<close>

definition unban_prefix :: "string \<Rightarrow> Dispatcher \<Rightarrow> outcome" where
  "unban_prefix hash d =
     (let matches = filter (\<lambda>h. HasPrefix h hash) (Banlist (Rost d)) in
      case matches of
        [] \<Rightarrow> reply (hash @ '' is not banned.'') d
      | [m] \<Rightarrow>
          (let ((ok, e), r) = Unban m (Rost d); d' = d\<lparr>Rost := r\<rparr> in
           case e of Some err \<Rightarrow> reply (''Couldn't unban: '' @ err_text d err) d'
           | None \<Rightarrow> if ok then reply (''Unbanned '' @ first8 m @ ''.'') d' else reply ''Unbanned.'' d')
      | _ \<Rightarrow> reply (Quote (uni (Rost d)) hash @ '' matches multiple banned users: '' @
                Join (shortHashes matches) '', '') d)"

definition handleUnban :: "Role \<Rightarrow> string list \<Rightarrow> Dispatcher \<Rightarrow> outcome" where
  "handleUnban role args d =
     (if \<not> atLeastMod role then reply ''Only mods or admins can unban.'' d
      else case args of
        [arg0] \<Rightarrow>
          (let hash = ToLower (uni (Rost d)) (TrimSpace arg0) in
           case find (\<lambda>h. h = hash) (Banlist (Rost d)) of
             Some h \<Rightarrow>
               (let ((ok, e), r) = Unban h (Rost d); d' = d\<lparr>Rost := r\<rparr> in
                case e of Some err \<Rightarrow> reply (''Couldn't unban: '' @ err_text d err) d'
                | None \<Rightarrow> if ok then reply (''Unbanned '' @ first8 h @ ''.'') d' else unban_prefix hash d')
           | None \<Rightarrow> unban_prefix hash d)
      | _ \<Rightarrow> reply ''Usage: /unban <user>'' d)"

definition handlePath :: "time \<Rightarrow> Role \<Rightarrow> string list \<Rightarrow> Dispatcher \<Rightarrow> outcome" where
  "handlePath now role args d =
     (if \<not> atLeastMod role then reply ''Only mods or admins can /path.'' d
      else if length args \<noteq> 1 then reply ''Usage: /path <user>'' d
      else case PathLookup d of
        None \<Rightarrow> reply ''Path lookup not wired (server bug).'' d
      | Some f \<Rightarrow> (case Resolve (hd args) (Rost d) of
          Inl e \<Rightarrow> reply (err_text d e) d
        | Inr target \<Rightarrow>
          (let i = f (Hash target);
               head = ''Path to '' @ (if Nickname target = [] then ''(no nick)'' else Nickname target) @ '' ('' @
                      first8 (Hash target) @ ''):'' @ nl in
           if \<not> Known i then reply (head @ ''  no announce cached '' @ mdash @ '' they haven't reached us'') d
           else reply (head @ ''  hops: '' @ Itoa (Hops i) @ nl @
             ''  announce age: '' @ seconds_string (round_seconds (time_sub now (PLastSeen i))) @ nl @
             (if NextHopHex i \<noteq> [] then ''  next hop: '' @ first8 (NextHopHex i) @ '' (multi-hop)'' @ nl
              else ''  next hop: direct'' @ nl) @
             (if LinkActive i then ''  link: active'' else ''  link: none'')) d)))"

definition handleAnnounce :: "Role \<Rightarrow> Dispatcher \<Rightarrow> outcome" where
  "handleAnnounce role d =
     (if \<not> atLeastMod role then reply ''Only mods or admins can /announce.'' d
      else case Announce d of
        None \<Rightarrow> reply ''Announce hook not wired (server bug).'' d
      | Some (Some err) \<Rightarrow> reply (''Announce failed: '' @ err) d
      | Some None \<Rightarrow> ((''OK, announced.'', [Announced_now]), d))"

subsection \<open>Description and pins\<close>

definition renderInfo :: "Dispatcher \<Rightarrow> Caller \<Rightarrow> string \<Rightarrow> nat \<Rightarrow> string" where
  "renderInfo d c desc npins =
     DisplayName (Service (Cfg d)) @
     (if desc \<noteq> [] then nl @ desc
      else if CRole c = RoleAdmin then nl @ ''No description set '' @ mdash @ '' /setinfo <text> to add one.''
      else nl @ ''No description set.'') @
     (if Member c then (if npins > 0 then nl @ dec_nat npins @ '' pinned '' @ mdash @ '' /pins'' else '''')
      else if Locked (Service (Cfg d)) then
        nl @ ''Invite-only. Give an admin your address to be added:'' @ nl @ CHash c
      else nl @ ''/join to take part, /? for help.'')"

definition handleInfo :: "Caller \<Rightarrow> Dispatcher \<Rightarrow> outcome" where
  "handleInfo c d = (case Info d of
      None \<Rightarrow> reply ''Group info not wired (server bug).'' d
    | Some s \<Rightarrow> reply (renderInfo d c (info s) (PinCount s)) d)"

text \<open>
  The probe of \<^verbatim>\<open>singlePacketReplyBytes\<close>: upward from \<open>n\<close> until the library refuses the next size. It is
  bounded by \<open>probe_fuel\<close>; \<open>probe_edge\<close> below shows that the bound is not reached as long as the library
  refuses some size of at most that many bytes, and its cap is 295.
\<close>

fun probe :: "(nat \<Rightarrow> bool) \<Rightarrow> nat \<Rightarrow> nat \<Rightarrow> nat" where
  "probe fits 0 n = n"
| "probe fits (Suc fuel) n = (if fits (n + 1) then probe fits fuel (n + 1) else n)"

definition probe_fuel :: nat where "probe_fuel = 1024"

definition singlePacketReplyBytes :: "Dispatcher \<Rightarrow> nat" where
  "singlePacketReplyBytes d = probe (PacketFits d) probe_fuel 0"

definition InfoOverflow :: "Dispatcher \<Rightarrow> string \<Rightarrow> int" where
  "InfoOverflow d desc =
     (let stranger = \<lparr>CHash = replicate 32 CHR ''0'', HashBytes = None, CRole = RoleUser, Member = False,
                      CPaused = False, CTextOnly = False\<rparr>;
          member = stranger\<lparr>Member := True\<rparr>;
          worst = foldl (\<lambda>w c. if length (renderInfo d c desc MaxPins) > w
                               then length (renderInfo d c desc MaxPins) else w) 0 [stranger, member]
      in int worst - int (singlePacketReplyBytes d))"

definition info_err :: "info_error \<Rightarrow> string" where
  "info_err e = (case e of ErrPinsFull \<Rightarrow> ''pin list is full (max '' @ dec_nat MaxPins @ '')'' | ErrSave m \<Rightarrow> m)"

definition handleSetInfo :: "Caller \<Rightarrow> string \<Rightarrow> Dispatcher \<Rightarrow> outcome" where
  "handleSetInfo c text d =
     (if CRole c \<noteq> RoleAdmin then reply ''Only admins can set the group description.'' d
      else case Info d of
        None \<Rightarrow> reply ''Group info not wired (server bug).'' d
      | Some s \<Rightarrow>
        if TrimSpace text = [] then
          (if info s = [] then reply ''No description is set. Usage: /setinfo <text>'' d
           else (let (e, s') = SetInfo '''' s; d' = d\<lparr>Info := Some s'\<rparr> in
             case e of Some err \<Rightarrow> reply (''Couldn't clear the description: '' @ info_err err) d'
             | None \<Rightarrow> reply ''Cleared the group description.'' d'))
        else
          (let clean = scrubControlBytes (TrimSpace text); n = int (length clean); over = InfoOverflow d clean in
           if n > MaxInfoBytes then
             reply (''That's '' @ Itoa n @ '' bytes and the limit is '' @ Itoa MaxInfoBytes @ '' '' @ mdash @
               '' /info answers non-members, so it's capped to one packet on a slow link. Trim '' @
               Itoa (n - MaxInfoBytes) @ ''.'') d
           else if over > 0 then
             (let room = n - over in
              if room \<le> 0 then
                reply (''The display name '' @ Quote (uni (Rost d)) (DisplayName (Service (Cfg d))) @
                  '' already fills the one packet /info has to fit in, so there's no room for a description. Shorten display_name in the config first.'') d
              else reply (''That's '' @ Itoa n @ '' bytes; with this group's display name, /info has room for '' @
                Itoa room @ '' '' @ mdash @ '' it answers non-members, so it has to fit in one packet. Trim '' @
                Itoa over @ ''.'') d)
           else
             (let (e, s') = SetInfo clean s; d' = d\<lparr>Info := Some s'\<rparr> in
              case e of Some err \<Rightarrow> reply (''Couldn't set the description: '' @ info_err err) d'
              | None \<Rightarrow> reply (''Group description set ('' @ Itoa n @ ''/'' @ Itoa (n - InfoOverflow d' clean) @
                  '' bytes). Anyone can read it with /info.'') d')))"

definition handlePins :: "time \<Rightarrow> Caller \<Rightarrow> Dispatcher \<Rightarrow> outcome" where
  "handlePins now c d = (case Info d of
      None \<Rightarrow> reply ''Group info not wired (server bug).'' d
    | Some s \<Rightarrow>
        if \<not> Member c \<and> CRole c = RoleUser then reply ''Only members can read the pins. Send /join first.'' d
        else if Pins s = [] then
          (if atLeastMod (CRole c) then reply ''No pinned messages. /pin <text> to add one.'' d
           else reply ''No pinned messages.'' d)
        else reply (Render (Pins s) now @
          (if atLeastMod (CRole c) then nl @ ''/unpin <n> to remove one.'' else '''')) d)"

definition handlePin :: "time \<Rightarrow> Caller \<Rightarrow> string \<Rightarrow> Dispatcher \<Rightarrow> outcome" where
  "handlePin now c text d =
     (if \<not> atLeastMod (CRole c) then reply ''Only mods or admins can pin messages.'' d
      else case Info d of
        None \<Rightarrow> reply ''Group info not wired (server bug).'' d
      | Some s \<Rightarrow>
        (let clean = collapseLines (scrubControlBytes (TrimSpace text)); n = int (length clean) in
         if clean = [] then reply ''Usage: /pin <text>'' d
         else if n > MaxPinBytes then
           reply (''That pin is '' @ Itoa n @ '' bytes and the limit is '' @ Itoa MaxPinBytes @ '' '' @ mdash @
             '' every joiner receives the whole list. Trim '' @ Itoa (n - MaxPinBytes) @ ''.'') d
         else
           (let nick = (case Get (CHash c) (Rost d) of Some u \<Rightarrow> Nickname u | None \<Rightarrow> '''');
                (e, s') = AddPin \<lparr>At = now, By = CHash c, ByNick = nick, Text = clean\<rparr> s;
                d' = d\<lparr>Info := Some s'\<rparr> in
            case e of
              Some ErrPinsFull \<Rightarrow> reply (''The pin list is full ('' @ dec_nat MaxPins @ ''). /unpin <n> to make room.'') d'
            | Some err \<Rightarrow> reply (''Couldn't pin: '' @ info_err err) d'
            | None \<Rightarrow> reply (''Pinned as #'' @ dec_nat (PinCount s') @
                ''. Members see it with /pins; new members get the list right after their history replay.'') d')))"

definition ellipsize :: "string \<Rightarrow> int \<Rightarrow> string" where
  "ellipsize s limit = (if int (length s) \<le> limit then s else TruncateText s (limit - 1) @ ellipsis)"

definition handleUnpin :: "Caller \<Rightarrow> string list \<Rightarrow> Dispatcher \<Rightarrow> outcome" where
  "handleUnpin c args d =
     (if \<not> atLeastMod (CRole c) then reply ''Only mods or admins can unpin messages.'' d
      else case Info d of
        None \<Rightarrow> reply ''Group info not wired (server bug).'' d
      | Some s \<Rightarrow>
        if length args \<noteq> 1 then reply ''Usage: /unpin <n>   (the number shown by /pins)'' d
        else case Atoi (hd args) of
          None \<Rightarrow> reply ''Give the pin's number as shown by /pins, e.g. /unpin 2.'' d
        | Some n \<Rightarrow>
          (let ((removed, ok, e), s') = RemovePin n s; d' = d\<lparr>Info := Some s'\<rparr> in
           case e of Some err \<Rightarrow> reply (''Couldn't unpin: '' @ info_err err) d'
           | None \<Rightarrow>
             if \<not> ok then
               (if PinCount s' = 0 then reply ''There are no pinned messages.'' d'
                else if PinCount s' = 1 then reply (''There's only one pin '' @ mdash @ '' /unpin 1.'') d'
                else reply (''No pin #'' @ Itoa n @ '' '' @ mdash @ '' pins are numbered 1-'' @ dec_nat (PinCount s') @ ''.'') d')
             else reply (''Unpinned #'' @ Itoa n @ '' ('' @ Quote (uni (Rost d)) (ellipsize (Text removed) 40) @ ''). '' @
               dec_nat (PinCount s') @ '' left.'') d'))"

subsection \<open>The switch\<close>

definition reply_list :: "string \<times> hook list \<Rightarrow> Dispatcher \<Rightarrow> outcome" where
  "reply_list p d = (p, d)"

definition Dispatch :: "time \<Rightarrow> string \<Rightarrow> Parsed \<Rightarrow> Dispatcher \<Rightarrow> outcome" where
  "Dispatch now senderHash parsed d =
     (let c = deriveCaller d senderHash; n = Name parsed; args = Args parsed in
      if n = ''?'' \<or> n = ''help'' then reply (helpText c) d
      else if n = ''about'' \<or> n = ''version'' then reply aboutText d
      else if n = ''info'' then handleInfo c d
      else if n = ''setinfo'' then handleSetInfo c (Rest parsed) d
      else if n = ''pins'' then handlePins now c d
      else if n = ''pin'' then handlePin now c (Rest parsed) d
      else if n = ''unpin'' then handleUnpin c args d
      else if n = ''users'' then
        (if \<not> Member c \<and> CRole c = RoleUser then reply ''Only members can list users. Send /join first.'' d
         else reply_list (listUsers d) d)
      else if n = ''mods'' then reply_list (listConfigList d ''mods'' (Mods (Cfg d))) d
      else if n = ''admin'' \<or> n = ''admins'' then reply_list (listConfigList d ''admins'' (Admins (Cfg d))) d
      else if n = ''join'' then handleJoin now c d
      else if n = ''leave'' then handleLeave c d
      else if n = ''pause'' then handlePause c d
      else if n = ''resume'' then handleResume c d
      else if n = ''textonly'' then handleTextOnly c d
      else if n = ''showall'' then handleShowAll c d
      else if n = ''nick'' then handleNick c args d
      else if n = ''usermode'' then handleUserMode c args d
      else if n = ''adduser'' then handleAddUser now (CRole c) args d
      else if n = ''removeuser'' then handleRemoveUser (CRole c) args d
      else if n = ''kick'' then handleKick (CRole c) args d
      else if n = ''ban'' then handleBan (CRole c) args d
      else if n = ''unban'' then handleUnban (CRole c) args d
      else if n = ''announce'' then handleAnnounce (CRole c) d
      else if n = ''path'' then handlePath now (CRole c) args d
      else reply (''unknown command /'' @ scrubControlBytes n @ '' '' @ mdash @ '' try /?'') d)"

end
