(* ===== verification/Gates.thy ===== *)
theory Gates
  imports Utf8
begin

text \<open>
  The two gates in front of the fan-out: \<^verbatim>\<open>service/dedup.go\<close> (a message id passes once per window) and the
  join catch-up limiter of \<^verbatim>\<open>service/replay.go\<close> (a destination is served once per cooldown), and the
  control-byte filter of \<^verbatim>\<open>service/sanitize.go\<close>. Both gates are tables of time stamps; what the service
  relies on is the interface \<open>window_gate\<close>, proved once and interpreted on both.
\<close>

subsection \<open>Duplicate suppression\<close>

record dedupCache =
  seen :: "(string, time) gmap"
  ttl :: duration
  dmax :: int

definition newDedupCache :: "duration \<Rightarrow> int \<Rightarrow> dedupCache" where
  "newDedupCache t m = \<lparr>seen = [], ttl = t, dmax = m\<rparr>"

definition evictLocked :: "time \<Rightarrow> dedupCache \<Rightarrow> dedupCache" where
  "evictLocked now c =
     (let kept = filter (\<lambda>(i, t). \<not> time_sub now t \<ge> ttl c) (seen c) in
      if int (length kept) > dmax c then c\<lparr>seen := []\<rparr> else c\<lparr>seen := kept\<rparr>)"

definition seenBefore :: "string \<Rightarrow> time \<Rightarrow> dedupCache option \<Rightarrow> bool \<times> dedupCache option" where
  "seenBefore i now co = (case co of
      None \<Rightarrow> (False, None)
    | Some c \<Rightarrow>
        if ttl c \<le> 0 then (False, Some c)
        else if (case map_of (seen c) i of Some t \<Rightarrow> time_sub now t < ttl c | None \<Rightarrow> False) then (True, Some c)
        else (let c1 = c\<lparr>seen := gput i now (seen c)\<rparr> in
              (False, Some (if int (length (seen c1)) > dmax c1 then evictLocked now c1 else c1))))"

subsection \<open>The join catch-up limiter\<close>

definition replayCooldown :: duration where "replayCooldown = 10 * Minute"

type_synonym replayLimiter = "(string, time) gmap"

definition allow :: "string \<Rightarrow> time \<Rightarrow> replayLimiter \<Rightarrow> bool \<times> replayLimiter" where
  "allow dest now l =
     (let swept = filter (\<lambda>(k, t). \<not> time_sub now t > replayCooldown) l in
      if (case map_of swept dest of Some t \<Rightarrow> time_sub now t < replayCooldown | None \<Rightarrow> False) then (False, swept)
      else (True, gput dest now swept))"

subsection \<open>Control bytes\<close>

fun needsSanitize :: "string \<Rightarrow> bool" where
  "needsSanitize [] = False"
| "needsSanitize (c # cs) =
     (if ord c < 0x20 \<and> c \<noteq> CHR 0x09 \<and> c \<noteq> CHR 0x0A \<and> c \<noteq> CHR 0x0D then True
      else if ord c = 0x7F then True else needsSanitize cs)"

definition sanitize_byte :: "char \<Rightarrow> string \<Rightarrow> string" where
  "sanitize_byte c b =
     (if (ord c < 0x20 \<and> c \<noteq> CHR 0x09 \<and> c \<noteq> CHR 0x0A \<and> c \<noteq> CHR 0x0D) \<or> ord c = 0x7F
      then b @ ''?'' else b @ [c])"

definition sanitizeForward :: "string \<Rightarrow> string" where
  "sanitizeForward s = (if \<not> needsSanitize s then s else fold sanitize_byte s [])"

lemma needsSanitize_iff: "needsSanitize s \<longleftrightarrow> (\<exists>c \<in> set s. control_byte c)"
  by (induction s) (auto simp: control_byte_def)

lemma sanitize_byte_clean: "sanitize_byte c b = b @ [clean_byte c]"
  by (simp add: sanitize_byte_def clean_byte_def control_byte_def)

lemma fold_sanitize: "fold sanitize_byte s b = b @ map clean_byte s"
  by (induction s arbitrary: b) (simp_all add: sanitize_byte_clean)

interpretation fwd_scrub: scrubber sanitizeForward
proof
  fix s :: string and i :: nat
  have map_eq: "sanitizeForward s = map clean_byte s"
  proof (cases "needsSanitize s")
    case False
    then have "map clean_byte s = s" by (intro map_idI) (auto simp: needsSanitize_iff)
    with False show ?thesis by (simp add: sanitizeForward_def)
  qed (simp add: sanitizeForward_def fold_sanitize)
  then show "length (sanitizeForward s) = length s" by simp
  show "i < length s \<Longrightarrow> sanitizeForward s ! i = (if control_byte (s ! i) then CHR ''?'' else s ! i)"
    by (simp add: map_eq clean_byte_def)
qed

subsection \<open>Gates with a window\<close>

text \<open>
  A run of requests against a gate: the ones that passed, in order, and whether the table had room for each.
\<close>

fun passed :: "(string \<Rightarrow> time \<Rightarrow> 's \<Rightarrow> bool \<times> 's) \<Rightarrow> (string \<times> time) list \<Rightarrow> 's \<Rightarrow> (string \<times> time) list" where
  "passed ask [] s = []"
| "passed ask ((k, t) # rs) s = (if fst (ask k t s) then [(k, t)] else []) @ passed ask rs (snd (ask k t s))"

fun roomy :: "(string \<Rightarrow> time \<Rightarrow> 's \<Rightarrow> bool \<times> 's) \<Rightarrow> (string \<Rightarrow> time \<Rightarrow> 's \<Rightarrow> bool) \<Rightarrow> (string \<times> time) list \<Rightarrow> 's \<Rightarrow> bool" where
  "roomy ask room [] s = True"
| "roomy ask room ((k, t) # rs) s = (room k t s \<and> roomy ask room rs (snd (ask k t s)))"

lemma passed_subset: "set (passed ask rs s) \<subseteq> set rs"
  by (induction ask rs s rule: passed.induct) auto

text \<open>
  \<open>ask k now s\<close> answers whether \<open>k\<close> may pass and gives the table afterwards; \<open>stamp s k\<close> is the time of the
  last pass of \<open>k\<close> the table remembers. A key passes unless it is remembered inside the window; a pass is
  remembered, and a stamp still inside the window is not forgotten, as long as the table has room.
\<close>

locale window_gate =
  fixes ask :: "string \<Rightarrow> time \<Rightarrow> 's \<Rightarrow> bool \<times> 's"
    and stamp :: "'s \<Rightarrow> string \<Rightarrow> time option"
    and window :: duration
    and good :: "'s \<Rightarrow> bool"
    and room :: "string \<Rightarrow> time \<Rightarrow> 's \<Rightarrow> bool"
  assumes good_ask: "good s \<Longrightarrow> good (snd (ask k now s))"
    and pass_iff: "good s \<Longrightarrow> fst (ask k now s) \<longleftrightarrow> \<not> (\<exists>t. stamp s k = Some t \<and> now - t < window)"
    and pass_stamp: "good s \<Longrightarrow> room k now s \<Longrightarrow> fst (ask k now s) \<Longrightarrow> stamp (snd (ask k now s)) k = Some now"
    and keep_stamp: "good s \<Longrightarrow> room k now s \<Longrightarrow> stamp s j = Some t \<Longrightarrow> now - t < window \<Longrightarrow> j \<noteq> k \<or> \<not> fst (ask k now s) \<Longrightarrow>
      stamp (snd (ask k now s)) j = Some t"
begin

lemma held_back:
  assumes "good s" and "stamp s k = Some t0" and "sorted (map snd rs)" and "roomy ask room rs s"
  shows "\<forall>t. (k, t) \<in> set (passed ask rs s) \<longrightarrow> window \<le> t - t0"
  using assms
proof (induction rs arbitrary: s)
  case (Cons r rs)
  obtain j now where r: "r = (j, now)" by (cases r)
  let ?s = "snd (ask j now s)"
  have later: "(k', t) \<in> set (passed ask rs ?s) \<Longrightarrow> now \<le> t" for k' t
    using passed_subset [of ask rs ?s] Cons.prems(3) r by force
  show ?case
  proof (cases "now - t0 < window")
    case True
    have blocked: "\<not> fst (ask j now s)" if "j = k" using pass_iff [of s j now] Cons.prems(1,2) True that by auto
    then have "stamp ?s k = Some t0" using keep_stamp [of s j now k t0] Cons.prems r True by auto
    with Cons.IH [of ?s] Cons.prems r good_ask [of s j now] blocked show ?thesis by auto
  next
    case False
    with later r show ?thesis by fastforce
  qed
qed simp

lemma passes_apart:
  assumes "good s" and "sorted (map snd rs)" and "roomy ask room rs s"
  shows "sorted_wrt (\<lambda>(k, t) (k', t'). k = k' \<longrightarrow> window \<le> t' - t) (passed ask rs s)"
  using assms
proof (induction rs arbitrary: s)
  case (Cons r rs)
  obtain k now where r: "r = (k, now)" by (cases r)
  let ?s = "snd (ask k now s)"
  have IH: "sorted_wrt (\<lambda>(k, t) (k', t'). k = k' \<longrightarrow> window \<le> t' - t) (passed ask rs ?s)"
    using Cons r good_ask [of s k now] by auto
  show ?case
  proof (cases "fst (ask k now s)")
    case True
    then have "stamp ?s k = Some now" using pass_stamp Cons.prems r by auto
    then have "\<forall>t. (k, t) \<in> set (passed ask rs ?s) \<longrightarrow> window \<le> t - now"
      using Cons.prems r good_ask [of s k now] by (intro held_back) auto
    with IH True r show ?thesis by auto
  qed (use IH r in simp)
qed simp

end

subsection \<open>The duplicate cache is such a gate\<close>

text \<open>A message is forwarded when it was not seen before; the cache is on and has room for it.\<close>

definition dedup_ask :: "string \<Rightarrow> time \<Rightarrow> dedupCache \<Rightarrow> bool \<times> dedupCache" where
  "dedup_ask i now c = (let (dup, c') = seenBefore i now (Some c) in (\<not> dup, the c'))"

definition dedup_good :: "duration \<Rightarrow> dedupCache \<Rightarrow> bool" where
  "dedup_good w c \<longleftrightarrow> gmap_ok (seen c) \<and> ttl c = w \<and> 0 < w \<and> w \<le> maxDuration"

definition dedup_room :: "string \<Rightarrow> time \<Rightarrow> dedupCache \<Rightarrow> bool" where
  "dedup_room i now c \<longleftrightarrow>
     int (length (filter (\<lambda>(j, t). time_sub now t < ttl c) (gput i now (seen c)))) \<le> dmax c"

lemma time_sub_window: "0 < w \<Longrightarrow> w \<le> maxDuration \<Longrightarrow> time_sub now t < w \<longleftrightarrow> now - t < w"
  by (rule time_sub_less_iff) (simp add: duration_defs)

lemma dedup_ask_cases:
  assumes "dedup_good w c"
  shows "dedup_ask i now c =
    (if (\<exists>t. map_of (seen c) i = Some t \<and> now - t < w) then (False, c)
     else (True, if int (length (gput i now (seen c))) > dmax c then evictLocked now (c\<lparr>seen := gput i now (seen c)\<rparr>)
                 else c\<lparr>seen := gput i now (seen c)\<rparr>))"
  using assms
  by (cases "map_of (seen c) i") (auto simp: dedup_ask_def seenBefore_def dedup_good_def time_sub_window Let_def)

lemma evict_seen:
  assumes "dedup_room i now c"
  shows "seen (evictLocked now (c\<lparr>seen := gput i now (seen c)\<rparr>)) =
    filter (\<lambda>(j, t). time_sub now t < ttl c) (gput i now (seen c))"
  using assms by (simp add: evictLocked_def dedup_room_def Let_def not_le)

lemma evict_frame: "ttl (evictLocked now c) = ttl c" "dmax (evictLocked now c) = dmax c"
  "gmap_ok (seen c) \<Longrightarrow> gmap_ok (seen (evictLocked now c))"
  by (auto simp: evictLocked_def Let_def intro: wf_intros)

interpretation dedup_gate: window_gate dedup_ask "\<lambda>c. map_of (seen c)" w "dedup_good w" dedup_room for w
proof
  fix s k now
  assume g: "dedup_good w s"
  then have ok: "gmap_ok (gput k now (seen s))" by (auto simp: dedup_good_def intro: wf_intros)
  show "dedup_good w (snd (dedup_ask k now s))"
    using g ok by (auto simp: dedup_ask_cases [OF g] dedup_good_def evict_frame)
  show "fst (dedup_ask k now s) \<longleftrightarrow> \<not> (\<exists>t. map_of (seen s) k = Some t \<and> now - t < w)"
    by (simp add: dedup_ask_cases [OF g])
  assume room: "dedup_room k now s"
  have w: "ttl s = w" "0 < w" "w \<le> maxDuration" using g by (auto simp: dedup_good_def)
  have after: "map_of (seen (snd (dedup_ask k now s))) j = Some t"
    if "fst (dedup_ask k now s)" "map_of (gput k now (seen s)) j = Some t" "now - t < w" for j t
    using that by (auto simp: dedup_ask_cases [OF g] evict_seen [OF room] map_of_filter_Some [OF ok] w time_sub_window)
  show "map_of (seen (snd (dedup_ask k now s))) k = Some now" if "fst (dedup_ask k now s)"
    using after [OF that] w by (simp add: map_of_gput)
  show "map_of (seen (snd (dedup_ask k now s))) j = Some t"
    if "map_of (seen s) j = Some t" "now - t < w" "j \<noteq> k \<or> \<not> fst (dedup_ask k now s)" for j t
  proof (cases "fst (dedup_ask k now s)")
    case True
    with after [OF True, of j t] that show ?thesis by (simp add: map_of_gput)
  next
    case False
    with that show ?thesis by (auto simp: dedup_ask_cases [OF g] split: if_splits)
  qed
qed

lemma dedup_size:
  assumes "dedup_good w c" and "int (length (seen c)) \<le> dmax c"
  shows "int (length (seen (snd (dedup_ask i now c)))) \<le> dmax c"
  using assms(2) by (auto simp: dedup_ask_cases [OF assms(1)] evictLocked_def Let_def not_less)

lemma dedup_size_run:
  assumes "dedup_good w c" and "int (length (seen c)) \<le> dmax c"
  shows "int (length (seen (snd (fold (\<lambda>(i, t) (b, c). dedup_ask i t c) rs (b, c))))) \<le> dmax c"
  using assms
proof (induction rs arbitrary: b c)
  case (Cons r rs)
  obtain i t where r: "r = (i, t)" by (cases r)
  obtain b' c' where s: "dedup_ask i t c = (b', c')" by (cases "dedup_ask i t c")
  have "dmax c' = dmax c" using s dedup_ask_cases [OF Cons.prems(1), of i t] by (auto simp: evict_frame split: if_splits)
  moreover have "dedup_good w c'" using dedup_gate.good_ask [OF Cons.prems(1), of i t] s by simp
  moreover have "int (length (seen c')) \<le> dmax c" using dedup_size [OF Cons.prems, of i t] s by simp
  ultimately show ?case using Cons.IH [of c' b'] r s by simp
qed simp

subsection \<open>The limiter is such a gate\<close>

lemma cooldown_range: "0 < replayCooldown" "replayCooldown < maxDuration"
  by (simp_all add: replayCooldown_def duration_defs)

interpretation replay_gate: window_gate allow map_of replayCooldown gmap_ok "\<lambda>_ _ _. True"
proof
  fix s :: replayLimiter and k now
  assume ok: "gmap_ok s"
  let ?sw = "filter (\<lambda>(k, t). \<not> time_sub now t > replayCooldown) s"
  have look: "map_of ?sw j = (case map_of s j of Some t \<Rightarrow> if now - t > replayCooldown then None else Some t | None \<Rightarrow> None)" for j
    using cooldown_range time_sub_greater_iff [of replayCooldown now]
    by (auto simp: map_of_filter_Some [OF ok] duration_defs split: option.split)
  have lt: "time_sub now t < replayCooldown \<longleftrightarrow> now - t < replayCooldown" for t
    using cooldown_range by (intro time_sub_window) auto
  show "gmap_ok (snd (allow k now s))" using ok by (auto simp: allow_def Let_def intro: wf_intros)
  show pass: "fst (allow k now s) \<longleftrightarrow> \<not> (\<exists>t. map_of s k = Some t \<and> now - t < replayCooldown)"
    by (auto simp: allow_def Let_def look lt split: option.splits if_splits)
  show "map_of (snd (allow k now s)) k = Some now" if "fst (allow k now s)"
    using that by (auto simp: allow_def Let_def map_of_gput split: if_splits)
  show "map_of (snd (allow k now s)) j = Some t"
    if "map_of s j = Some t" "now - t < replayCooldown" "j \<noteq> k \<or> \<not> fst (allow k now s)" for j t
    using that by (auto simp: allow_def Let_def map_of_gput look split: if_splits)
qed

subsection \<open>What the gates guarantee\<close>



text \<open>
  Leaving and joining again is no amplifier. However often a destination asks for its join catch-up,
  the ones it is granted are at least ten minutes apart, whatever other destinations do meanwhile.
\<close>

theorem replay_cooldown_respected:
  assumes "sorted (map snd rs)"
  shows "sorted_wrt (\<lambda>(k, t) (k', t'). k = k' \<longrightarrow> 10 * Minute \<le> t' - t) (passed allow rs [])"
proof -
  have "roomy allow (\<lambda>_ _ _. True) rs s" for s :: replayLimiter by (induction rs arbitrary: s) auto
  with replay_gate.passes_apart [OF gmap_ok_Nil assms] show ?thesis by (simp add: replayCooldown_def)
qed

theorem replay_cooldown_respected_witness:
  "sorted_wrt (\<lambda>(k, t) (k', t'). k = k' \<longrightarrow> 10 * Minute \<le> t' - t) (passed allow [(''a'', 0), (''a'', 5), (''a'', 700000000000)] []) \<and>
   passed allow [(''a'', 0), (''a'', 5), (''a'', 700000000000)] [] = [(''a'', 0), (''a'', 700000000000)]"
proof
  show "sorted_wrt (\<lambda>(k, t) (k', t'). k = k' \<longrightarrow> 10 * Minute \<le> t' - t) (passed allow [(''a'', 0), (''a'', 5), (''a'', 700000000000)] [])"
    by (rule replay_cooldown_respected) simp
  show "passed allow [(''a'', 0), (''a'', 5), (''a'', 700000000000)] [] = [(''a'', 0), (''a'', 700000000000)]"
    by (simp add: allow_def replayCooldown_def time_sub_def duration_defs)
qed

end
