(* ===== verification/History.thy ===== *)
theory History
  imports Storage Utf8
begin

text \<open>
  \<^verbatim>\<open>internal/history/log.go\<close>: the bounded log of forwarded messages that joiners get replayed.
\<close>

record Entry =
  EAt :: time
  SenderHash :: string
  SenderNick :: string
  EContent :: string

record Log =
  lpath :: "Entry list store_file"
  capacity :: int
  entries :: "Entry list"

definition keep_last :: "int \<Rightarrow> 'a list \<Rightarrow> 'a list" where
  "keep_last n xs = (if int (length xs) > n then drop (nat (int (length xs) - n)) xs else xs)"

definition NewLog :: "Entry list store_file \<Rightarrow> int \<Rightarrow> string + Log" where
  "NewLog f cap0 =
     (let cap = (if cap0 < 1 then 1 else cap0) in
      case ReadStore [] f of
        Inl e \<Rightarrow> Inl e
      | Inr ms \<Rightarrow> Inr \<lparr>lpath = f, capacity = cap, entries = keep_last cap ms\<rparr>)"

text \<open>The file holds what JSON makes of the texts: see \<open>json_text\<close>.\<close>

definition json_entry :: "Entry \<Rightarrow> Entry" where
  "json_entry e = e\<lparr>SenderHash := json_text (SenderHash e), SenderNick := json_text (SenderNick e),
     EContent := json_text (EContent e)\<rparr>"

definition persistLog :: "Log \<Rightarrow> string option \<times> Log" where
  "persistLog l = (let (e, f) = Save (map json_entry (entries l)) (lpath l) in (e, l\<lparr>lpath := f\<rparr>))"

definition entry_valid :: "Entry \<Rightarrow> bool" where
  "entry_valid e \<longleftrightarrow> valid_utf8 (SenderHash e) \<and> valid_utf8 (SenderNick e) \<and> valid_utf8 (EContent e)"

definition Append :: "Entry \<Rightarrow> Log \<Rightarrow> string option \<times> Log" where
  "Append e l = persistLog (l\<lparr>entries := keep_last (capacity l) (entries l @ [e])\<rparr>)"

definition SinceOldest :: "time \<Rightarrow> Log \<Rightarrow> Entry list" where
  "SinceOldest cutoff l = (if cutoff = 0 then entries l else filter (\<lambda>e. \<not> EAt e < cutoff) (entries l))"

definition LogLen :: "Log \<Rightarrow> nat" where "LogLen l = length (entries l)"

subsection \<open>The log holds the most recent messages\<close>

lemma keep_last_alt: "1 \<le> n \<Longrightarrow> keep_last n xs = drop (length xs - nat n) xs"
  by (auto simp: keep_last_def nat_diff_distrib')

lemma keep_last_step:
  assumes "1 \<le> n"
  shows "keep_last n (keep_last n xs @ [x]) = keep_last n (xs @ [x])"
proof -
  have "nat n > 0" using assms by simp
  then show ?thesis
    unfolding keep_last_alt [OF assms] by (cases "length xs \<le> nat n") (auto simp: Suc_diff_le)
qed

lemma Append_frame [simp]:
  "capacity (snd (Append e l)) = capacity l"
  "entries (snd (Append e l)) = keep_last (capacity l) (entries l @ [e])"
  by (simp_all add: Append_def persistLog_def split: prod.split)

lemma Append_fold:
  assumes "1 \<le> capacity l" and "entries l = keep_last (capacity l) xs"
  shows "capacity (fold (\<lambda>e l. snd (Append e l)) es l) = capacity l \<and>
    entries (fold (\<lambda>e l. snd (Append e l)) es l) = keep_last (capacity l) (xs @ es)"
  using assms
proof (induction es arbitrary: l xs)
  case (Cons e es)
  from Cons.IH [of "snd (Append e l)" "xs @ [e]"] Cons.prems show ?case by (simp add: keep_last_step)
qed simp

text \<open>
  C35: the log holds exactly the most recent messages. After loading and any number of appends, saved or
  not, it holds the last \<^verbatim>\<open>capacity\<close> of everything loaded and appended, oldest first, so never more than
  that many; a replay is those of them from the cutoff on, in the same order; and after a successful append
  a restart with the same capacity loads exactly the log in memory, when its texts are well-formed UTF-8.
\<close>

theorem history_most_recent:
  assumes "NewLog f cap = Inr l0" and "ReadStore [] f = Inr ms" and "l = fold (\<lambda>e l. snd (Append e l)) es l0"
  shows "entries l = drop (length (ms @ es) - nat (max 1 cap)) (ms @ es) \<and> LogLen l \<le> nat (max 1 cap) \<and>
    (\<forall>cutoff. cutoff \<noteq> 0 \<longrightarrow> SinceOldest cutoff l = filter (\<lambda>e. cutoff \<le> EAt e) (entries l)) \<and>
    (\<forall>e l'. Append e l = (None, l') \<and> list_all entry_valid (entries l') \<longrightarrow> NewLog (lpath l') cap = Inr l')"
proof -
  have l0: "capacity l0 = max 1 cap" "entries l0 = keep_last (capacity l0) ms"
    using assms(1,2) by (auto simp: NewLog_def Let_def max_def split: sum.splits if_splits)
  then have l: "capacity l = max 1 cap" "entries l = keep_last (max 1 cap) (ms @ es)"
    using Append_fold [of l0 ms es] assms(3) by simp_all
  have durable: "NewLog (lpath l') cap = Inr l'" if ap: "Append e l = (None, l')" and v: "list_all entry_valid (entries l')" for e l'
  proof -
    let ?m = "l\<lparr>entries := keep_last (capacity l) (entries l @ [e])\<rparr>"
    obtain f' where f0: "Save (map json_entry (entries ?m)) (lpath ?m) = (None, f')" "l' = ?m\<lparr>lpath := f'\<rparr>"
      using ap by (auto simp: Append_def persistLog_def split: prod.splits)
    have "map json_entry (entries ?m) = entries ?m"
      using v f0(2) by (intro map_idI) (auto simp: list_all_iff entry_valid_def json_entry_def json_text_valid)
    with f0 have f': "Save (entries ?m) (lpath ?m) = (None, f')" "l' = ?m\<lparr>lpath := f'\<rparr>" by simp_all
    have "keep_last n (keep_last n xs) = keep_last n xs" if "1 \<le> n" for n and xs :: "Entry list"
      unfolding keep_last_alt [OF that] by (cases "length xs \<le> nat n") auto
    with f' l(1) show ?thesis
      by (cases l) (auto simp: NewLog_def Let_def max_def Save_then_Read [OF f'(1)])
  qed
  have e: "entries l = drop (length (ms @ es) - nat (max 1 cap)) (ms @ es)"
    unfolding l(2) by (rule keep_last_alt) simp
  then have "LogLen l \<le> nat (max 1 cap)" unfolding LogLen_def by (simp only: length_drop diff_diff_cancel)
  with e durable show ?thesis by (auto simp: SinceOldest_def not_less)
qed

theorem history_most_recent_witness:
  "LogLen (fold (\<lambda>e l. snd (Append e l))
     [\<lparr>EAt = 1, SenderHash = [], SenderNick = [], EContent = ''a''\<rparr>, \<lparr>EAt = 2, SenderHash = [], SenderNick = [], EContent = ''b''\<rparr>]
     \<lparr>lpath = \<lparr>content = Absent, answers = []\<rparr>, capacity = 1, entries = []\<rparr>) \<le> 1"
proof -
  have "NewLog \<lparr>content = Absent, answers = []\<rparr> 1 =
      Inr \<lparr>lpath = \<lparr>content = Absent, answers = []\<rparr>, capacity = 1, entries = []\<rparr>"
    by (simp add: NewLog_def ReadStore_def keep_last_def)
  from history_most_recent [OF this _ HOL.refl, of "[]"
      "[\<lparr>EAt = 1, SenderHash = [], SenderNick = [], EContent = ''a''\<rparr>, \<lparr>EAt = 2, SenderHash = [], SenderNick = [], EContent = ''b''\<rparr>]"]
  show ?thesis by (simp add: ReadStore_def)
qed

end
