(* ===== verification/Attachments.thy ===== *)
theory Attachments
  imports Config
begin

text \<open>
  \<^verbatim>\<open>internal/service/attachments.go\<close>: the LXMF fields of a message and the operator's policy on them.

  A fields map is a Go \<^verbatim>\<open>map[any]any\<close> filled by the msgpack decoder. A key is a value of one of the integer
  types, a string or something else, and two keys are equal only when their types are (\<open>fkey\<close>); of the values
  the code looks into byte strings, strings and nested maps, anything else it only passes on (\<open>VOther\<close>). The
  encoder that measures a value is an argument (\<^verbatim>\<open>msgpack.Marshal\<close>).
\<close>

datatype ikind = I_int | I_int8 | I_int16 | I_int32 | I_int64 | I_uint | I_uint8 | I_uint16 | I_uint32 | I_uint64

datatype fkey = KInt ikind int | KStr string | KOther string

datatype fval = VBytes bytes | VStr string | VMap "(fkey \<times> fval) list" | VOther string

type_synonym fieldmap = "(fkey, fval) gmap"

text \<open>An integer key converts to \<^verbatim>\<open>int\<close>; only \<^verbatim>\<open>uint\<close> and \<^verbatim>\<open>uint64\<close> can wrap.\<close>

definition keyAsInt :: "fkey \<Rightarrow> int option" where
  "keyAsInt k = (case k of
      KInt I_uint n \<Rightarrow> Some (wrap64 n)
    | KInt I_uint64 n \<Rightarrow> Some (wrap64 n)
    | KInt _ n \<Rightarrow> Some n
    | KStr s \<Rightarrow> Atoi s
    | KOther _ \<Rightarrow> None)"

definition attachmentLabel :: "int \<Rightarrow> string option" where
  "attachmentLabel key = (if key = 5 then Some ''file'' else if key = 6 then Some ''image''
     else if key = 7 then Some ''audio'' else None)"

definition fieldLabel :: "int \<Rightarrow> string" where
  "fieldLabel key =
     (if key = 5 then ''file'' else if key = 6 then ''image'' else if key = 7 then ''audio''
      else if key = 48 then ''reply-to'' else if key = 49 then ''reply text'' else if key = 64 then ''reaction''
      else if key = 65 then ''comment'' else if key = 66 then ''continuation''
      else ''field '' @ Itoa key)"

text \<open>
  \<^verbatim>\<open>%.1f\<close> of \<open>n / 1024\<close>: the quotient is exact in a float64 below \<open>2 ^ 53\<close>, and the printed decimal is the
  exact value rounded half to even.
\<close>

definition tenths_of_kb :: "int \<Rightarrow> int" where
  "tenths_of_kb n =
     (let q = 10 * n div 1024; r = 10 * n mod 1024 in if r > 512 \<or> (r = 512 \<and> odd q) then q + 1 else q)"

definition humanBytes :: "int \<Rightarrow> string" where
  "humanBytes n =
     (if n < 1024 then Itoa n @ '' B''
      else (let t = tenths_of_kb n in Itoa (t div 10) @ ''.'' @ Itoa (t mod 10) @ '' KB''))"

record filtered =
  out_fields :: fieldmap
  drops :: "string list"
  rejected :: "string list"

definition reject_label :: "int \<Rightarrow> filtered \<Rightarrow> filtered" where
  "reject_label key f = (case attachmentLabel key of None \<Rightarrow> f | Some l \<Rightarrow> f\<lparr>rejected := rejected f @ [l]\<rparr>)"

definition filter_step :: "(fval \<Rightarrow> int option) \<Rightarrow> ServiceConfig \<Rightarrow> fkey \<times> fval \<Rightarrow> filtered \<Rightarrow> filtered" where
  "filter_step msgpackSize cfg kv f = (case kv of (k, v) \<Rightarrow>
     (case keyAsInt k of
        None \<Rightarrow> f
      | Some keyInt \<Rightarrow>
          if keyInt \<notin> set (ForwardedFields cfg) then reject_label keyInt f
          else (case msgpackSize v of
              None \<Rightarrow> f
            | Some sz \<Rightarrow>
                if MaxAttachmentBytes cfg > 0 \<and> sz > MaxAttachmentBytes cfg
                then f\<lparr>drops := drops f @ [''['' @ fieldLabel keyInt @ '' not forwarded: '' @ humanBytes sz @ '' > '' @
                       humanBytes (MaxAttachmentBytes cfg) @ '' limit]'']\<rparr>
                else f\<lparr>out_fields := gput k v (out_fields f)\<rparr>)))"

text \<open>A nil and an empty fields map behave alike everywhere in the service, so both are the empty list.\<close>

definition filterAttachments :: "(fval \<Rightarrow> int option) \<Rightarrow> fieldmap \<Rightarrow> ServiceConfig \<Rightarrow> filtered" where
  "filterAttachments msgpackSize fin cfg =
     (let none = \<lparr>out_fields = [], drops = [], rejected = []\<rparr> in
      if fin = [] then none
      else if \<not> ForwardAttachments cfg
      then (let f = fold (\<lambda>(k, v) f. case keyAsInt k of None \<Rightarrow> f | Some i \<Rightarrow> reject_label i f) fin none
            in f\<lparr>rejected := sort_by (<) (rejected f)\<rparr>)
      else (let f = fold (filter_step msgpackSize cfg) fin none
            in f\<lparr>rejected := sort_by (<) (rejected f)\<rparr>))"

subsection \<open>What passes\<close>

definition field_passes :: "(fval \<Rightarrow> int option) \<Rightarrow> ServiceConfig \<Rightarrow> fkey \<times> fval \<Rightarrow> bool" where
  "field_passes msgpackSize cfg kv = (case kv of (k, v) \<Rightarrow>
     (case keyAsInt k of None \<Rightarrow> False | Some i \<Rightarrow> i \<in> set (ForwardedFields cfg) \<and>
       (case msgpackSize v of None \<Rightarrow> False
        | Some sz \<Rightarrow> MaxAttachmentBytes cfg \<le> 0 \<or> sz \<le> MaxAttachmentBytes cfg)))"

definition refused_label :: "ServiceConfig \<Rightarrow> fkey \<times> fval \<Rightarrow> string option" where
  "refused_label cfg kv = (case keyAsInt (fst kv) of None \<Rightarrow> None
     | Some i \<Rightarrow> if ForwardAttachments cfg \<and> i \<in> set (ForwardedFields cfg) then None else attachmentLabel i)"

lemma reject_label_simps [simp]:
  "out_fields (reject_label i f) = out_fields f" "drops (reject_label i f) = drops f"
  "rejected (reject_label i f) = rejected f @ (case attachmentLabel i of None \<Rightarrow> [] | Some l \<Rightarrow> [l])"
  by (simp_all add: reject_label_def split: option.split)

lemma gput_append: "k \<notin> fst ` set m \<Longrightarrow> gput k v m = m @ [(k, v)]"
  by (induction m) auto

lemma filter_step_out:
  "out_fields (filter_step sz cfg (k, v) f) =
    (if field_passes sz cfg (k, v) then gput k v (out_fields f) else out_fields f)"
  by (auto simp: filter_step_def field_passes_def split: option.split)

lemma filter_step_rejected:
  "ForwardAttachments cfg \<Longrightarrow> rejected (filter_step sz cfg kv f) =
    rejected f @ (case refused_label cfg kv of None \<Rightarrow> [] | Some l \<Rightarrow> [l])"
  by (auto simp: filter_step_def refused_label_def split: option.split prod.split)

lemma fold_filter_out:
  assumes "gmap_ok fin" and "fst ` set fin \<inter> fst ` set (out_fields f) = {}"
  shows "out_fields (fold (filter_step sz cfg) fin f) = out_fields f @ filter (field_passes sz cfg) fin"
  using assms
proof (induction fin arbitrary: f)
  case (Cons kv fin)
  obtain k v where kv: "kv = (k, v)" by (cases kv)
  have "k \<notin> fst ` set (out_fields f)" using Cons.prems(2) kv by auto
  then have s: "out_fields (filter_step sz cfg kv f) = out_fields f @ (if field_passes sz cfg kv then [kv] else [])"
    by (simp add: kv filter_step_out gput_append)
  have "k \<notin> fst ` set fin" "fst ` set fin \<inter> fst ` set (out_fields f) = {}"
    using Cons.prems kv by (auto simp: gmap_ok_def)
  then have "fst ` set fin \<inter> fst ` set (out_fields (filter_step sz cfg kv f)) = {}"
    unfolding s by (cases "field_passes sz cfg kv") (simp_all add: kv image_Un Int_Un_distrib)
  with Cons.IH [of "filter_step sz cfg kv f"] Cons.prems(1) show ?case by (simp add: s gmap_ok_def)
qed simp

lemma fold_filter_rejected:
  assumes "ForwardAttachments cfg"
  shows "rejected (fold (filter_step sz cfg) fin f) = rejected f @ List.map_filter (refused_label cfg) fin"
  by (induction fin arbitrary: f)
    (simp_all add: filter_step_rejected [OF assms] map_filter_simps split: option.split)

lemma filterAttachments_out:
  assumes "gmap_ok fin"
  shows "out_fields (filterAttachments sz fin cfg) = (if ForwardAttachments cfg then filter (field_passes sz cfg) fin else [])"
proof -
  have "out_fields (fold (\<lambda>(k, v) f. case keyAsInt k of None \<Rightarrow> f | Some i \<Rightarrow> reject_label i f) xs f) = out_fields f"
    for xs :: fieldmap and f
    by (induction xs arbitrary: f) (auto split: option.split)
  with fold_filter_out [OF assms] show ?thesis by (simp add: filterAttachments_def Let_def)
qed
lemma insert_by_insort: "insert_by (<) x xs = insort (x :: string) xs"
  by (induction xs) (auto simp: not_less)

lemma sort_by_sort: "sort_by (<) xs = sort (xs :: string list)"
  by (induction xs) (simp_all add: insert_by_insort)

lemma fold_reject_all:
  assumes "\<not> ForwardAttachments cfg"
  shows "rejected (fold (\<lambda>(k, v) f. case keyAsInt k of None \<Rightarrow> f | Some i \<Rightarrow> reject_label i f) fin f) =
    rejected f @ List.map_filter (refused_label cfg) fin"
  using assms
  by (induction fin arbitrary: f) (auto simp: map_filter_simps refused_label_def split: option.split)

lemma filterAttachments_rejected:
  "rejected (filterAttachments sz fin cfg) = sort (List.map_filter (refused_label cfg) fin)"
  by (simp add: filterAttachments_def Let_def fold_filter_rejected fold_reject_all sort_by_sort map_filter_simps)

lemma refused_label_kinds: "refused_label cfg kv = Some l \<Longrightarrow> l \<in> {''file'', ''image'', ''audio''}"
  by (cases "keyAsInt (fst kv)") (simp_all add: refused_label_def attachmentLabel_def split: if_splits)

lemma rejected_order:
  assumes "mset fin' = mset fin"
  shows "rejected (filterAttachments sz fin' cfg) = rejected (filterAttachments sz fin cfg)"
proof -
  have "mset (List.map_filter g fin') = mset (List.map_filter g fin)" for g :: "fkey \<times> fval \<Rightarrow> string option"
    using assms by (simp add: List.map_filter_def mset_filter)
  then show ?thesis unfolding filterAttachments_rejected by (metis sorted_list_of_multiset_mset)
qed



end
