(* ===== verification/IdMap.thy ===== *)
theory IdMap
  imports Prelude
begin

text \<open>
  \<^verbatim>\<open>internal/idmap/idmap.go\<close>: the cache that maps every recipient's id of a relayed message back to the
  message (a \<open>Bubble\<close>), so that a reaction can be rebound for each recipient.

  Bubbles are shared: the same one is reached from the cache under many ids, from the list and from queued
  messages, and a late send adds a view to it. So they live in a heap and are named by references
  (\<open>bref\<close>); Go's \<^verbatim>\<open>nil\<close> is \<open>None\<close>. A bubble has at most one list element, so its \<^verbatim>\<open>lru\<close> pointer is non-nil
  exactly when it is a member of the list, which is how the model reads it. The clock is an argument.
\<close>

type_synonym bref = nat

record Bubble =
  views :: "(string, string) gmap"
  expiresAt :: time

record Cache =
  cttl :: duration
  maxSize :: int
  byMsgID :: "(string, bref) gmap"
  lru :: "bref list"
  heap :: "bref \<Rightarrow> Bubble"
  fresh :: bref

definition NewBubble :: "duration \<Rightarrow> time \<Rightarrow> Cache \<Rightarrow> bref \<times> Cache" where
  "NewBubble d now c =
     (fresh c, c\<lparr>heap := (heap c)(fresh c := \<lparr>views = [], expiresAt = now + d\<rparr>), fresh := Suc (fresh c)\<rparr>)"

definition ViewFor :: "string \<Rightarrow> Bubble \<Rightarrow> string option" where
  "ViewFor recipientHex b = map_of (views b) recipientHex"

definition NewCache :: "duration \<Rightarrow> int \<Rightarrow> Cache" where
  "NewCache d n = \<lparr>cttl = d, maxSize = (if n < 0 then 0 else n), byMsgID = [], lru = [],
     heap = (\<lambda>_. \<lparr>views = [], expiresAt = 0\<rparr>), fresh = 0\<rparr>"

definition removeBubble :: "bref \<Rightarrow> Cache \<Rightarrow> Cache" where
  "removeBubble b c = c\<lparr>byMsgID := fold gdel (map snd (views (heap c b))) (byMsgID c), lru := removeAll b (lru c)\<rparr>"

lemma length_removeAll_last: "xs \<noteq> [] \<Longrightarrow> length (removeAll (last xs) xs) < length xs"
  by (rule length_removeAll_less) simp

function evictExpired :: "time \<Rightarrow> Cache \<Rightarrow> Cache" where
  "evictExpired now c =
     (if lru c = [] then c
      else if \<not> now > expiresAt (heap c (last (lru c))) then c
      else evictExpired now (removeBubble (last (lru c)) c))"
  by pat_completeness auto
termination
  by (relation "measure (length \<circ> lru \<circ> snd)") (auto simp: removeBubble_def intro: length_removeAll_last)

function cap_loop :: "Cache \<Rightarrow> Cache" where
  "cap_loop c =
     (if int (length (byMsgID c)) > maxSize c \<and> lru c \<noteq> [] then cap_loop (removeBubble (last (lru c)) c) else c)"
  by pat_completeness auto
termination
  by (relation "measure (length \<circ> lru)") (auto simp: removeBubble_def intro: length_removeAll_last)

declare evictExpired.simps [simp del] cap_loop.simps [simp del]

definition enforceCap :: "Cache \<Rightarrow> Cache" where
  "enforceCap c = (if maxSize c \<le> 0 then c else cap_loop c)"

definition to_front :: "bref \<Rightarrow> Cache \<Rightarrow> Cache" where
  "to_front b c = c\<lparr>lru := b # removeAll b (lru c)\<rparr>"

definition RegisterView :: "bref option \<Rightarrow> string \<Rightarrow> string \<Rightarrow> time \<Rightarrow> Cache \<Rightarrow> Cache" where
  "RegisterView bo recipientHex msgIDHex now c0 = (case bo of
      None \<Rightarrow> c0
    | Some b \<Rightarrow>
        if msgIDHex = [] then c0
        else (let c1 = evictExpired now c0;
                  c2 = c1\<lparr>heap := (heap c1)(b := (heap c1 b)\<lparr>views := gput recipientHex msgIDHex (views (heap c1 b))\<rparr>),
                          byMsgID := gput msgIDHex b (byMsgID c1)\<rparr>
              in enforceCap (to_front b c2)))"

definition Lookup :: "string \<Rightarrow> time \<Rightarrow> Cache \<Rightarrow> bref option \<times> Cache" where
  "Lookup msgIDHex now c = (case map_of (byMsgID c) msgIDHex of
      None \<Rightarrow> (None, c)
    | Some b \<Rightarrow>
        if now > expiresAt (heap c b) then (None, removeBubble b c)
        else (Some b, if b \<in> set (lru c) then to_front b c else c))"

definition CacheLen :: "Cache \<Rightarrow> nat" where "CacheLen c = length (byMsgID c)"

subsection \<open>Invariant\<close>

text \<open>Every indexed id is a view of its bubble, and the bubble is in the list: what the list drops, the index drops.\<close>

definition idmap_ok :: "Cache \<Rightarrow> bool" where
  "idmap_ok c \<longleftrightarrow> gmap_ok (byMsgID c) \<and> distinct (lru c) \<and> 0 \<le> maxSize c \<and>
     (\<forall>(m, b) \<in> set (byMsgID c). b \<in> set (lru c) \<and> m \<in> snd ` set (views (heap c b)))"

lemma idmap_okD:
  assumes "idmap_ok c" and "map_of (byMsgID c) m = Some b"
  shows "b \<in> set (lru c)" "m \<in> snd ` set (views (heap c b))"
  using assms by (auto simp: idmap_ok_def dest!: map_of_SomeD)

lemma fold_gdel: "fold gdel ks m = filter (\<lambda>p. fst p \<notin> set ks) m"
  by (induction ks arbitrary: m) (auto simp: gdel_filter intro: filter_cong)

lemma removeBubble_simps [simp]:
  "byMsgID (removeBubble b c) = filter (\<lambda>p. fst p \<notin> snd ` set (views (heap c b))) (byMsgID c)"
  "lru (removeBubble b c) = removeAll b (lru c)" "heap (removeBubble b c) = heap c"
  "maxSize (removeBubble b c) = maxSize c" "fresh (removeBubble b c) = fresh c"
  by (simp_all add: removeBubble_def fold_gdel)

lemma removeBubble_ok: "idmap_ok c \<Longrightarrow> idmap_ok (removeBubble b c)"
  by (auto simp: idmap_ok_def intro!: wf_intros distinct_removeAll split: prod.splits)

lemma evictExpired_ok: "idmap_ok c \<Longrightarrow> idmap_ok (evictExpired now c)"
  by (induction now c rule: evictExpired.induct) (subst evictExpired.simps, simp add: removeBubble_ok)

lemma cap_loop_ok: "idmap_ok c \<Longrightarrow> idmap_ok (cap_loop c)"
  by (induction c rule: cap_loop.induct) (subst cap_loop.simps, simp add: removeBubble_ok)

lemma evictExpired_frame [simp]:
  "heap (evictExpired now c) = heap c" "maxSize (evictExpired now c) = maxSize c" "fresh (evictExpired now c) = fresh c"
  by (induction now c rule: evictExpired.induct; subst evictExpired.simps; simp)+

lemma cap_loop_frame [simp]:
  "heap (cap_loop c) = heap c" "maxSize (cap_loop c) = maxSize c" "fresh (cap_loop c) = fresh c"
  by (induction c rule: cap_loop.induct; subst cap_loop.simps; simp)+

lemma cap_loop_size: "idmap_ok c \<Longrightarrow> int (length (byMsgID (cap_loop c))) \<le> maxSize c"
proof (induction c rule: cap_loop.induct)
  case (1 c)
  show ?case
  proof (cases "int (length (byMsgID c)) > maxSize c \<and> lru c \<noteq> []")
    case True
    with 1 show ?thesis by (subst cap_loop.simps) (simp add: removeBubble_ok)
  next
    case False
    have "byMsgID c = []" if "lru c = []" using 1(2) that by (cases "byMsgID c") (auto simp: idmap_ok_def)
    with False 1(2) show ?thesis by (subst cap_loop.simps) (auto simp: idmap_ok_def)
  qed
qed

lemma to_front_ok: "idmap_ok c \<Longrightarrow> idmap_ok (to_front b c)"
  by (auto simp: idmap_ok_def to_front_def intro: distinct_removeAll split: prod.splits)

text \<open>The state of \<^verbatim>\<open>RegisterView\<close> just before the cap is enforced.\<close>

definition registered :: "bref \<Rightarrow> string \<Rightarrow> string \<Rightarrow> Cache \<Rightarrow> Cache" where
  "registered b r m c = to_front b (c\<lparr>heap := (heap c)(b := (heap c b)\<lparr>views := gput r m (views (heap c b))\<rparr>),
     byMsgID := gput m b (byMsgID c)\<rparr>)"

lemma RegisterView_eq:
  "m \<noteq> [] \<Longrightarrow> RegisterView (Some b) r m now c = enforceCap (registered b r m (evictExpired now c))"
  by (simp add: RegisterView_def registered_def Let_def)

lemma gput_fresh: "k \<notin> fst ` set m \<Longrightarrow> gput k v m = m @ [(k, v)]"
  by (induction m) auto

lemma registered_ok:
  assumes "idmap_ok c" and "ViewFor r (heap c b) = None"
  shows "idmap_ok (registered b r m c)"
proof -
  have v: "gput r m (views (heap c b)) = views (heap c b) @ [(r, m)]"
    using assms(2) by (intro gput_fresh) (simp add: ViewFor_def map_of_eq_None_iff)
  have g: "gmap_ok (byMsgID c)" using assms(1) by (simp add: idmap_ok_def)
  have "\<forall>(m', b') \<in> set (gput m b (byMsgID c)). b' \<in> insert b (set (lru c)) \<and>
      m' \<in> snd ` set (views (((heap c)(b := (heap c b)\<lparr>views := gput r m (views (heap c b))\<rparr>)) b'))"
    using assms(1) by (auto simp: set_gput [OF g] idmap_ok_def v)
  then show ?thesis
    using assms(1) g
    by (simp add: idmap_ok_def registered_def to_front_def distinct_removeAll gmap_ok_gput del: fun_upd_apply)
qed

lemma RegisterView_ok:
  assumes "idmap_ok c" and "ViewFor r (heap c b) = None"
  shows "idmap_ok (RegisterView (Some b) r m now c)"
proof (cases "m = []")
  case False
  have "idmap_ok (registered b r m (evictExpired now c))"
    using assms by (intro registered_ok) (simp_all add: evictExpired_ok)
  with False show ?thesis by (simp add: RegisterView_eq enforceCap_def cap_loop_ok)
qed (use assms in \<open>simp add: RegisterView_def\<close>)

lemma Lookup_ok: "idmap_ok c \<Longrightarrow> idmap_ok (snd (Lookup m now c))"
  by (auto simp: Lookup_def removeBubble_ok to_front_ok split: option.split)

lemma NewBubble_ok:
  assumes "idmap_ok c" and "\<forall>b \<in> set (lru c). b < fresh c"
  shows "idmap_ok (snd (NewBubble d now c))"
  using assms by (fastforce simp: idmap_ok_def NewBubble_def)

subsection \<open>A registered id is found\<close>

text \<open>The front of the list survives the cap as long as its own ids fit.\<close>

lemma cap_loop_keeps_front:
  assumes "idmap_ok c" and "lru c = b # bs" and "map_of (byMsgID c) m = Some b"
    and "int (length (filter (\<lambda>p. snd p = b) (byMsgID c))) \<le> maxSize c"
    and "\<forall>b' \<in> set bs. m \<notin> snd ` set (views (heap c b'))"
  shows "map_of (byMsgID (cap_loop c)) m = Some b"
  using assms
proof (induction c arbitrary: bs rule: cap_loop.induct)
  case (1 c)
  have g: "gmap_ok (byMsgID c)" and d: "distinct (b # bs)" using 1(2,3) by (auto simp: idmap_ok_def)
  show ?case
  proof (cases "int (length (byMsgID c)) > maxSize c \<and> lru c \<noteq> []")
    case True
    have "filter (\<lambda>p. snd p = b) (byMsgID c) = byMsgID c" if "bs = []"
      using 1(2,3) that by (auto simp: idmap_ok_def filter_id_conv)
    with True 1(5) have bs: "bs \<noteq> []" by auto
    define z where "z = last bs"
    have z: "last (lru c) = z" "z \<in> set bs" "z \<noteq> b" using 1(3) bs d by (auto simp: z_def)
    have "map_of (byMsgID (cap_loop (removeBubble z c))) m = Some b"
    proof (rule 1(1) [of "removeAll z bs", unfolded z(1)])
      show "int (length (byMsgID c)) > maxSize c \<and> lru c \<noteq> []" by (rule True)
      show "idmap_ok (removeBubble z c)" using 1(2) by (rule removeBubble_ok)
      show "lru (removeBubble z c) = b # removeAll z bs" using 1(3) z by simp
      show "map_of (byMsgID (removeBubble z c)) m = Some b"
        using 1(4,6) z(2) by (simp add: map_of_filter_Some [OF g])
      have "length (filter (\<lambda>p. snd p = b) (filter P xs)) \<le> length (filter (\<lambda>p. snd p = b) xs)"
        for P and xs :: "(string \<times> bref) list" by (induction xs) auto
      from le_trans [OF this] 1(5) show "int (length (filter (\<lambda>p. snd p = b) (byMsgID (removeBubble z c)))) \<le> maxSize (removeBubble z c)"
        by (simp add: order_trans [OF _ 1(5)] del: filter_filter)
      show "\<forall>b' \<in> set (removeAll z bs). m \<notin> snd ` set (views (heap (removeBubble z c) b'))"
        using 1(6) by simp
    qed
    with True z show ?thesis by (subst cap_loop.simps) simp
  next
    case False
    with 1(4) show ?thesis by (subst cap_loop.simps) (simp only: if_False)
  qed
qed

lemma ids_of_bubble:
  assumes "idmap_ok c"
  shows "length (filter (\<lambda>p. snd p = b) (byMsgID c)) \<le> length (views (heap c b))"
proof -
  let ?l = "filter (\<lambda>p. snd p = b) (byMsgID c)"
  have "distinct (map fst ?l)" using assms by (auto simp: idmap_ok_def gmap_ok_def intro: distinct_map_filter)
  then have "length ?l = card (fst ` set ?l)" using distinct_card [of "map fst ?l"] by simp
  also have "\<dots> \<le> card (snd ` set (views (heap c b)))"
    using assms by (intro card_mono) (auto simp: idmap_ok_def)
  also have "\<dots> \<le> length (views (heap c b))"
    using card_image_le [of "set (views (heap c b))" snd] card_length [of "views (heap c b)"] by simp
  finally show ?thesis .
qed

lemma register_indexes:
  assumes "idmap_ok c" and "ViewFor r (heap c b) = None" and "m \<noteq> []"
    and "maxSize c = 0 \<or> int (length (views (heap c b))) < maxSize c"
    and "\<forall>b'. b' \<noteq> b \<longrightarrow> m \<notin> snd ` set (views (heap c b'))"
  shows "map_of (byMsgID (RegisterView (Some b) r m now c)) m = Some b"
proof -
  let ?c = "registered b r m (evictExpired now c)"
  have ok: "idmap_ok ?c" using assms(1,2) by (intro registered_ok) (simp_all add: evictExpired_ok)
  have v: "views (heap ?c b) = views (heap c b) @ [(r, m)]"
    using assms(2) by (simp add: registered_def to_front_def gput_fresh ViewFor_def map_of_eq_None_iff)
  have hit: "map_of (byMsgID ?c) m = Some b" by (simp add: registered_def to_front_def map_of_gput)
  show ?thesis
  proof (cases "maxSize c = 0")
    case True
    then show ?thesis using hit assms(3) by (simp add: RegisterView_eq enforceCap_def registered_def to_front_def)
  next
    case False
    have "map_of (byMsgID (cap_loop ?c)) m = Some b"
    proof (rule cap_loop_keeps_front [OF ok])
      show "lru ?c = b # removeAll b (lru (evictExpired now c))" by (simp add: registered_def to_front_def)
      show "map_of (byMsgID ?c) m = Some b" by (rule hit)
      show "int (length (filter (\<lambda>p. snd p = b) (byMsgID ?c))) \<le> maxSize ?c"
        using ids_of_bubble [OF ok, of b] v False assms(4) by (simp add: registered_def to_front_def)
      show "\<forall>b' \<in> set (removeAll b (lru (evictExpired now c))). m \<notin> snd ` set (views (heap ?c b'))"
        using assms(5) by (simp add: registered_def to_front_def)
    qed
    with hit assms(3) show ?thesis by (simp add: RegisterView_eq enforceCap_def)
  qed
qed

lemma RegisterView_heap [simp]:
  "heap (RegisterView (Some b) r m now c) =
     (if m = [] then heap c else (heap c)(b := (heap c b)\<lparr>views := gput r m (views (heap c b))\<rparr>))"
  by (simp add: RegisterView_def Let_def enforceCap_def to_front_def)

subsection \<open>The cache as a transition system\<close>

text \<open>
  The operations as the service performs them: a bubble is allocated, and a recipient's view of a bubble is
  registered at most once, because each fan-out sends one message to each recipient.
\<close>

inductive idmap_step :: "Cache \<Rightarrow> Cache \<Rightarrow> bool" where
  new: "idmap_step c (snd (NewBubble d now c))"
| register: "b < fresh c \<Longrightarrow> ViewFor r (heap c b) = None \<Longrightarrow> idmap_step c (RegisterView (Some b) r m now c)"
| register_nil: "idmap_step c (RegisterView None r m now c)"
| look: "idmap_step c (snd (Lookup m now c))"

definition idmap_inv :: "Cache \<Rightarrow> bool" where
  "idmap_inv c \<longleftrightarrow> idmap_ok c \<and> (\<forall>b \<in> set (lru c). b < fresh c) \<and>
     (maxSize c = 0 \<or> int (length (byMsgID c)) \<le> maxSize c)"

lemma lru_evict_subset: "set (lru (evictExpired now c)) \<subseteq> set (lru c)"
  by (induction now c rule: evictExpired.induct) (subst evictExpired.simps, auto)

lemma lru_cap_subset: "set (lru (cap_loop c)) \<subseteq> set (lru c)"
  by (induction c rule: cap_loop.induct) (subst cap_loop.simps, auto)

lemma evict_len: "length (byMsgID (evictExpired now c)) \<le> length (byMsgID c)"
proof (induction now c rule: evictExpired.induct)
  case (1 now c)
  let ?r = "removeBubble (last (lru c)) c"
  have "length (byMsgID ?r) \<le> length (byMsgID c)" by simp
  with 1 show ?case by (subst evictExpired.simps) (auto simp del: removeBubble_simps intro: order_trans)
qed

lemma RegisterView_inv:
  assumes "idmap_inv c" and "b < fresh c" and "ViewFor r (heap c b) = None"
  shows "idmap_inv (RegisterView (Some b) r m now c)"
proof (cases "m = []")
  case False
  let ?c = "registered b r m (evictExpired now c)"
  have ok: "idmap_ok (RegisterView (Some b) r m now c)" "idmap_ok ?c"
    using assms by (auto simp: idmap_inv_def evictExpired_ok intro: RegisterView_ok registered_ok)
  have frame: "fresh ?c = fresh c" "maxSize ?c = maxSize c" by (simp_all add: registered_def to_front_def)
  have "\<forall>b' \<in> set (lru ?c). b' < fresh c"
    using assms(1,2) lru_evict_subset [of now c] by (auto simp: registered_def to_front_def idmap_inv_def)
  then show ?thesis
    using ok cap_loop_size [OF ok(2)] lru_cap_subset [of ?c] False frame
    by (auto simp: idmap_inv_def RegisterView_eq enforceCap_def idmap_ok_def)
qed (use assms in \<open>simp add: RegisterView_def\<close>)

lemma Lookup_inv:
  assumes "idmap_inv c"
  shows "idmap_inv (snd (Lookup m now c))"
proof (cases "map_of (byMsgID c) m")
  case (Some b)
  have b: "b \<in> set (lru c)" using idmap_okD [of c] assms Some by (simp add: idmap_inv_def)
  have "length (byMsgID (removeBubble b c)) \<le> length (byMsgID c)" by simp
  then show ?thesis
    using Lookup_ok [of c m now] assms Some b
    by (auto simp: idmap_inv_def Lookup_def to_front_def simp del: removeBubble_simps(1))
qed (use assms in \<open>simp add: Lookup_def\<close>)

lemma NewBubble_inv: "idmap_inv c \<Longrightarrow> idmap_inv (snd (NewBubble d now c))"
  using NewBubble_ok [of c d now] by (auto simp: idmap_inv_def) (auto simp: NewBubble_def)

interpretation idmap_sys: step_system "\<lambda>c. \<exists>d n. c = NewCache d n" idmap_step idmap_inv
proof
  fix s assume "\<exists>d n. s = NewCache d n"
  then show "idmap_inv s" by (auto simp: idmap_inv_def idmap_ok_def NewCache_def split: if_splits)
next
  fix s t assume "idmap_inv s" "idmap_step s t"
  from this(2,1) show "idmap_inv t"
    by induction (simp_all add: NewBubble_inv RegisterView_inv Lookup_inv, simp add: RegisterView_def)
qed

text \<open>
  C32: the cache stays within its bound and consistent, for every sequence of operations the service performs:
  with a positive bound it never holds more ids than that, each id it holds is a view of its bubble, the
  bubbles it can still find are exactly among those in the eviction list, and a lookup only ever returns an
  unexpired bubble that was registered under that very id.
\<close>

theorem idmap_bounded_and_sound:
  assumes "reaches idmap_step (NewCache d n) c"
  shows "(0 < maxSize c \<longrightarrow> int (CacheLen c) \<le> maxSize c) \<and>
    (\<forall>m b. map_of (byMsgID c) m = Some b \<longrightarrow> b \<in> set (lru c)) \<and>
    (\<forall>m now b. fst (Lookup m now c) = Some b \<longrightarrow>
       now \<le> expiresAt (heap c b) \<and> (\<exists>r. (r, m) \<in> set (views (heap c b))))"
proof -
  have inv: "idmap_inv c" using idmap_sys.inv_reachable assms by blast
  have sound: "now \<le> expiresAt (heap c b) \<and> (\<exists>r. (r, m) \<in> set (views (heap c b)))"
    if hit: "fst (Lookup m now c) = Some b" for m now b
  proof -
    have mb: "map_of (byMsgID c) m = Some b" and live: "now \<le> expiresAt (heap c b)"
      using hit by (auto simp: Lookup_def split: option.splits if_splits)
    with idmap_okD(2) [OF _ mb] inv show ?thesis by (auto simp: idmap_inv_def)
  qed
  show ?thesis using inv sound idmap_okD(1) by (auto simp: idmap_inv_def CacheLen_def)
qed


definition oneBubble :: Cache where "oneBubble = snd (NewBubble 100 0 (NewCache 100 1))"

lemma oneBubble_reached: "reaches idmap_step (NewCache 100 1) oneBubble"
  unfolding oneBubble_def by (intro reaches_one idmap_step.new)


theorem idmap_bounded_and_sound_witness:
  "int (CacheLen (RegisterView (Some 0) ''r'' ''aa'' 5 oneBubble)) \<le> 1"
proof -
  have "idmap_step oneBubble (RegisterView (Some 0) ''r'' ''aa'' 5 oneBubble)"
    by (rule idmap_step.register) (simp_all add: oneBubble_def NewBubble_def NewCache_def ViewFor_def)
  with oneBubble_reached have "reaches idmap_step (NewCache 100 1) (RegisterView (Some 0) ''r'' ''aa'' 5 oneBubble)"
    by (rule reaches.step)
  from idmap_bounded_and_sound [OF this] show ?thesis
    by (simp add: RegisterView_def Let_def enforceCap_def to_front_def oneBubble_def NewBubble_def NewCache_def)
qed

end
