(* ===== verification/Rewrite.thy ===== *)
theory Rewrite
  imports Attachments IdMap
begin

text \<open>
  \<^verbatim>\<open>internal/service/rewrite.go\<close>: a reaction, comment, continuation or reply names another message by its id,
  and every recipient knows that message under an id of its own. \<open>buildRewrite\<close> finds the bubbles a message
  refers to; the closure it returns is the record \<open>rewriter\<close>, applied per recipient by \<open>apply_rewrite\<close> to the
  bubbles as they are at that moment.

  A helper that loops over a map and stops at the first entry it can use is a recursion over the entries
  (\<open>dict_site\<close>, \<open>reply_site\<close>, \<open>target_key\<close>).
\<close>

definition fieldReplyTo :: int where "fieldReplyTo = 0x30"
definition fieldReplyQuote :: int where "fieldReplyQuote = 0x31"
definition fieldReaction :: int where "fieldReaction = 0x40"
definition fieldComment :: int where "fieldComment = 0x41"
definition fieldContinuation :: int where "fieldContinuation = 0x42"
definition targetIdx :: int where "targetIdx = 0"
definition fieldCustomType :: int where "fieldCustomType = 0xFB"
definition fieldCustomData :: int where "fieldCustomData = 0xFC"
definition originatorIdentityType :: string where "originatorIdentityType = ''originator-identity''"

lemmas field_numbers = fieldReplyTo_def fieldReplyQuote_def fieldReaction_def fieldComment_def fieldContinuation_def
  targetIdx_def fieldCustomType_def fieldCustomData_def

definition hasReactionField :: "fieldmap \<Rightarrow> bool" where
  "hasReactionField flds = list_ex (\<lambda>(k, v). keyAsInt k = Some fieldReaction) flds"

definition stampReactorIdentity :: "fieldmap \<Rightarrow> bytes \<Rightarrow> bool \<times> fieldmap" where
  "stampReactorIdentity flds reactorHash =
     (if reactorHash = [] \<or> \<not> hasReactionField flds then (False, flds)
      else (True, gput (KInt I_int fieldCustomData) (VBytes reactorHash)
                   (gput (KInt I_int fieldCustomType) (VStr originatorIdentityType) flds)))"

definition isPrimaryBubble :: "string \<Rightarrow> fieldmap \<Rightarrow> bool" where
  "isPrimaryBubble content flds =
     (content \<noteq> [] \<or>
      list_ex (\<lambda>(k, v). case keyAsInt k of None \<Rightarrow> False
        | Some ki \<Rightarrow> ki \<notin> {fieldReplyTo, fieldReplyQuote, fieldReaction, fieldComment, fieldContinuation}) flds)"

definition isHexString :: "string \<Rightarrow> bool" where
  "isHexString s = (s \<noteq> [] \<and> list_all (\<lambda>c. (CHR ''0'' \<le> c \<and> c \<le> CHR ''9'') \<or> (CHR ''a'' \<le> c \<and> c \<le> CHR ''f'') \<or>
     (CHR ''A'' \<le> c \<and> c \<le> CHR ''F'')) s)"

definition asHashBytes :: "fval \<Rightarrow> bytes option" where
  "asHashBytes v = (case v of
      VBytes b \<Rightarrow> Some b
    | VStr t \<Rightarrow> (if length t = 64 \<and> isHexString t
                then (case DecodeString t of Some b \<Rightarrow> Some b | None \<Rightarrow> Some t) else Some t)
    | _ \<Rightarrow> None)"

fun dict_target :: "(fkey \<times> fval) list \<Rightarrow> string" where
  "dict_target [] = []"
| "dict_target ((mk, mv) # m) =
     (if keyAsInt mk \<noteq> Some targetIdx then dict_target m
      else (case asHashBytes mv of Some b \<Rightarrow> EncodeToString b | None \<Rightarrow> dict_target m))"

definition extractDictTarget :: "fval \<Rightarrow> string" where
  "extractDictTarget v = (case v of VMap m \<Rightarrow> dict_target m | _ \<Rightarrow> [])"

subsection \<open>Substitution\<close>

fun target_key :: "(fkey \<times> fval) list \<Rightarrow> fkey option" where
  "target_key [] = None"
| "target_key ((mk, mv) # m) = (if keyAsInt mk = Some targetIdx then Some mk else target_key m)"

fun dict_site :: "int \<Rightarrow> fieldmap \<Rightarrow> (fkey \<times> (fkey \<times> fval) list \<times> fkey) option" where
  "dict_site key [] = None"
| "dict_site key ((k, v) # flds) =
     (if keyAsInt k \<noteq> Some key then dict_site key flds
      else (case v of
          VMap m \<Rightarrow> (case target_key m of Some tk \<Rightarrow> Some (k, m, tk) | None \<Rightarrow> dict_site key flds)
        | _ \<Rightarrow> dict_site key flds))"

definition substituteDictTarget :: "fieldmap \<Rightarrow> int \<Rightarrow> string \<Rightarrow> Bubble \<Rightarrow> fieldmap option" where
  "substituteDictTarget flds key recipientHex bubble = (case dict_site key flds of
      None \<Rightarrow> Some flds
    | Some (k, m, targetKey) \<Rightarrow>
        (case ViewFor recipientHex bubble of
           None \<Rightarrow> None
         | Some view \<Rightarrow>
             (case DecodeString view of
                None \<Rightarrow> None
              | Some raw \<Rightarrow> Some (gput k (VMap (gput targetKey (VBytes raw) m)) flds))))"

fun reply_site :: "fieldmap \<Rightarrow> fkey option" where
  "reply_site [] = None"
| "reply_site ((k, v) # flds) =
     (if keyAsInt k \<noteq> Some fieldReplyTo then reply_site flds
      else if asHashBytes v = None then reply_site flds else Some k)"

definition substituteReplyHash :: "fieldmap \<Rightarrow> string \<Rightarrow> Bubble \<Rightarrow> fieldmap \<times> bool" where
  "substituteReplyHash flds recipientHex bubble = (case reply_site flds of
      None \<Rightarrow> (flds, True)
    | Some k \<Rightarrow>
        (case ViewFor recipientHex bubble of
           None \<Rightarrow> (flds, False)
         | Some view \<Rightarrow>
             (case DecodeString view of
                None \<Rightarrow> (flds, False)
              | Some raw \<Rightarrow> (gput k (VBytes raw) flds, True))))"

definition stripReplyHash :: "fieldmap \<Rightarrow> fieldmap" where
  "stripReplyHash flds = filter (\<lambda>(k, v). keyAsInt k \<noteq> Some fieldReplyTo) flds"

subsection \<open>Finding the targets\<close>

record rewriter =
  dicts :: "(int \<times> bref) list"
  replyBubble :: "bref option"

definition scan_field :: "time \<Rightarrow> fkey \<times> fval \<Rightarrow> rewriter \<times> Cache \<Rightarrow> rewriter \<times> Cache" where
  "scan_field now kv st = (case kv of (k, v) \<Rightarrow> case st of (rw, c) \<Rightarrow>
     (case keyAsInt k of
        None \<Rightarrow> (rw, c)
      | Some ki \<Rightarrow>
          if ki = fieldReaction \<or> ki = fieldComment \<or> ki = fieldContinuation
          then (let targetHex = extractDictTarget v in
                if targetHex = [] then (rw, c)
                else (case Lookup targetHex now c of
                    (None, c') \<Rightarrow> (rw, c')
                  | (Some b, c') \<Rightarrow> (rw\<lparr>dicts := dicts rw @ [(ki, b)]\<rparr>, c')))
          else if ki = fieldReplyTo
          then (case asHashBytes v of
              None \<Rightarrow> (rw, c)
            | Some raw \<Rightarrow>
                (case Lookup (EncodeToString raw) now c of
                    (None, c') \<Rightarrow> (rw, c')
                  | (Some b, c') \<Rightarrow> (rw\<lparr>replyBubble := Some b\<rparr>, c')))
          else (rw, c)))"

definition buildRewrite :: "time \<Rightarrow> Cache option \<Rightarrow> fieldmap \<Rightarrow> rewriter option \<times> Cache option" where
  "buildRewrite now co flds = (case co of
      None \<Rightarrow> (None, None)
    | Some c \<Rightarrow>
        if flds = [] then (None, Some c)
        else (case fold (scan_field now) flds (\<lparr>dicts = [], replyBubble = None\<rparr>, c) of
            (rw, c') \<Rightarrow>
              if dicts rw = [] \<and> replyBubble rw = None then (None, Some c') else (Some rw, Some c')))"

fun rewrite_dicts :: "(bref \<Rightarrow> Bubble) \<Rightarrow> string \<Rightarrow> (int \<times> bref) list \<Rightarrow> fieldmap \<Rightarrow> fieldmap option" where
  "rewrite_dicts hp r [] out = Some out"
| "rewrite_dicts hp r ((key, b) # ds) out =
     (case substituteDictTarget out key r (hp b) of None \<Rightarrow> None | Some out' \<Rightarrow> rewrite_dicts hp r ds out')"

definition apply_rewrite :: "rewriter \<Rightarrow> (bref \<Rightarrow> Bubble) \<Rightarrow> string \<Rightarrow> fieldmap \<Rightarrow> fieldmap option" where
  "apply_rewrite rw hp r flds = (case rewrite_dicts hp r (dicts rw) flds of
      None \<Rightarrow> None
    | Some out \<Rightarrow>
        (case replyBubble rw of
           None \<Rightarrow> Some out
         | Some b \<Rightarrow>
             (case substituteReplyHash out r (hp b) of
                (out', True) \<Rightarrow> Some out'
              | (_, False) \<Rightarrow> Some (stripReplyHash out))))"

subsection \<open>Maps without two spellings of a key\<close>

text \<open>
  A decoder yields at most one key per field number; a hostile sender could spell a number twice (as an
  integer and as a string), and then which of them the loops meet first is up to Go's map order.
\<close>

definition plain :: "(fkey \<times> fval) list \<Rightarrow> bool" where
  "plain m \<longleftrightarrow> distinct (gkeys m) \<and> distinct (List.map_filter keyAsInt (gkeys m))"

definition plain_fields :: "fieldmap \<Rightarrow> bool" where
  "plain_fields flds \<longleftrightarrow> plain flds \<and> list_all (\<lambda>kv. case snd kv of VMap m \<Rightarrow> plain m | _ \<Rightarrow> True) flds"

lemma in_map_filter: "x \<in> set xs \<Longrightarrow> f x = Some y \<Longrightarrow> y \<in> set (List.map_filter f xs)"
  by (induction xs) (auto simp: map_filter_simps split: option.split)

lemma plain_Cons:
  assumes "plain ((k, v) # m)"
  shows "plain m" "k \<notin> fst ` set m" "keyAsInt k = Some i \<Longrightarrow> k' \<in> fst ` set m \<Longrightarrow> keyAsInt k' \<noteq> Some i"
  using assms in_map_filter [of k' "gkeys m" keyAsInt i]
  by (auto simp: plain_def map_filter_simps split: option.splits)

lemma plain_unique:
  assumes "plain m" and "(k, v) \<in> set m" and "(k', v') \<in> set m" and "keyAsInt k = Some i" and "keyAsInt k' = Some i"
  shows "k' = k \<and> v' = v"
  using assms
proof (induction m)
  case (Cons kv m)
  obtain k0 v0 where kv: "kv = (k0, v0)" by (cases kv)
  have "k' \<in> fst ` set m" if "(k', v') \<in> set m" using that by force
  moreover have "k \<in> fst ` set m" if "(k, v) \<in> set m" using that by force
  ultimately show ?case using Cons plain_Cons [of k0 v0 m] kv by auto
qed simp

lemma gkeys_gput_mem: "k \<in> fst ` set m \<Longrightarrow> gkeys (gput k v m) = gkeys m"
  by (simp add: gput_def update_keys)

lemma plain_gput: "plain m \<Longrightarrow> k \<in> fst ` set m \<Longrightarrow> plain (gput k v m)"
  by (simp add: plain_def gkeys_gput_mem)

lemma plain_prefix: "plain (xs @ ys) \<Longrightarrow> plain xs"
  by (simp add: plain_def List.map_filter_def)

lemma plain_map_of: "plain m \<Longrightarrow> (k, v) \<in> set m \<longleftrightarrow> map_of m k = Some v"
  by (simp add: plain_def)

lemma plain_fieldsD:
  assumes "plain_fields flds"
  shows "plain flds" "(k, VMap m) \<in> set flds \<Longrightarrow> plain m"
  using assms by (force simp: plain_fields_def list_all_iff)+

lemma plain_fields_gput:
  assumes "plain_fields flds" and "k \<in> fst ` set flds" and "plain m"
  shows "plain_fields (gput k (VMap m) flds)"
proof -
  have "gmap_ok flds" using assms(1) by (simp add: plain_fields_def plain_def gmap_ok_def)
  with assms show ?thesis by (auto simp: plain_fields_def plain_gput list_all_iff set_gput)
qed

lemma target_key_Some: "target_key m = Some tk \<Longrightarrow> tk \<in> fst ` set m \<and> keyAsInt tk = Some targetIdx"
  by (induction m rule: target_key.induct) (auto split: if_splits)

lemma dict_target_key: "dict_target m \<noteq> [] \<Longrightarrow> \<exists>tk. target_key m = Some tk"
  by (induction m rule: target_key.induct) auto

lemma dict_target_put:
  assumes "plain m" and "tk \<in> fst ` set m" and "keyAsInt tk = Some targetIdx"
  shows "dict_target (gput tk (VBytes raw) m) = EncodeToString raw"
  using assms
proof (induction m)
  case (Cons kv m)
  obtain k v where kv: "kv = (k, v)" by (cases kv)
  show ?case
  proof (cases "k = tk")
    case False
    with Cons.prems kv have tk: "tk \<in> fst ` set m" by auto
    have "keyAsInt k \<noteq> Some targetIdx"
      using plain_Cons(3) [of k v m targetIdx tk] Cons.prems kv tk by auto
    with False kv Cons.IH plain_Cons(1) [of k v m] Cons.prems tk show ?thesis by simp
  qed (use kv Cons.prems(3) in \<open>simp add: asHashBytes_def\<close>)
qed simp

lemma dict_site_Some:
  "dict_site i flds = Some (k, m, tk) \<Longrightarrow> (k, VMap m) \<in> set flds \<and> keyAsInt k = Some i \<and> target_key m = Some tk"
  by (induction i flds rule: dict_site.induct) (auto split: if_splits fval.splits option.splits)

lemma dict_site_exists:
  "(k, v) \<in> set flds \<Longrightarrow> keyAsInt k = Some i \<Longrightarrow> extractDictTarget v \<noteq> [] \<Longrightarrow> dict_site i flds \<noteq> None"
proof (induction flds)
  case (Cons kv flds)
  obtain k0 v0 where kv: "kv = (k0, v0)" by (cases kv)
  show ?case
  proof (cases "kv = (k, v)")
    case True
    obtain m where v: "v = VMap m" using Cons.prems(3) by (cases v) (simp_all add: extractDictTarget_def)
    with Cons.prems(3) obtain tk where "target_key m = Some tk" using dict_target_key by (auto simp: extractDictTarget_def)
    with True v Cons.prems(2) show ?thesis by simp
  next
    case False
    with Cons have "dict_site i flds \<noteq> None" by auto
    then show ?thesis by (auto simp: kv split: fval.split option.split)
  qed
qed simp

lemma dict_site_eq:
  assumes "plain_fields flds" and "(k, v) \<in> set flds" and "keyAsInt k = Some i" and "extractDictTarget v \<noteq> []"
  shows "\<exists>m tk. dict_site i flds = Some (k, m, tk) \<and> v = VMap m \<and> target_key m = Some tk \<and> plain m"
proof -
  obtain k' m tk where site: "dict_site i flds = Some (k', m, tk)"
    using dict_site_exists [OF assms(2-4)] by (metis not_None_eq prod_cases3)
  note s = dict_site_Some [OF site]
  have "k' = k \<and> VMap m = v"
    using plain_unique [OF plain_fieldsD(1) [OF assms(1)] assms(2), of k' "VMap m" i] s assms(3) by simp
  with site s plain_fieldsD(2) [OF assms(1)] show ?thesis by blast
qed

subsection \<open>One substitution\<close>

text \<open>A dictionary with its target replaced by the one whose hexadecimal form is \<open>w\<close>, and every other entry (an emoji) as it was.\<close>

definition rebound :: "fval \<Rightarrow> string \<Rightarrow> fval \<Rightarrow> bool" where
  "rebound v w v' \<longleftrightarrow> (\<exists>m m'. v = VMap m \<and> v' = VMap m' \<and> gkeys m' = gkeys m \<and> extractDictTarget v' = w \<and>
     (\<forall>k. keyAsInt k \<noteq> Some targetIdx \<longrightarrow> map_of m' k = map_of m k))"

lemma substituteDictTarget_hit:
  assumes "plain_fields flds" and "(k, v) \<in> set flds" and "keyAsInt k = Some i" and "extractDictTarget v \<noteq> []"
    and "ViewFor r bub = Some (EncodeToString raw)"
  shows "\<exists>v'. substituteDictTarget flds i r bub = Some (gput k v' flds) \<and> rebound v (EncodeToString raw) v' \<and>
    plain_fields (gput k v' flds)"
proof -
  obtain m tk where s: "dict_site i flds = Some (k, m, tk)" "v = VMap m" "target_key m = Some tk" "plain m"
    using dict_site_eq [OF assms(1-4)] by blast
  have tk: "tk \<in> fst ` set m" "keyAsInt tk = Some targetIdx" using target_key_Some [OF s(3)] by auto
  have k: "k \<in> fst ` set flds" using assms(2) by force
  let ?m = "gput tk (VBytes raw) m"
  have "gkeys ?m = gkeys m" by (rule gkeys_gput_mem [OF tk(1)])
  moreover have "\<forall>j. keyAsInt j \<noteq> Some targetIdx \<longrightarrow> map_of ?m j = map_of m j" using tk(2) by (auto simp: map_of_gput)
  ultimately have "rebound v (EncodeToString raw) (VMap ?m)"
    unfolding rebound_def using s(2) dict_target_put [OF s(4) tk, of raw] by (auto simp: extractDictTarget_def)
  moreover have "substituteDictTarget flds i r bub = Some (gput k (VMap ?m) flds)"
    using s(1) assms(5) by (simp add: substituteDictTarget_def)
  ultimately show ?thesis using plain_fields_gput [OF assms(1) k plain_gput [OF s(4) tk(1)]] by blast
qed

lemma substituteDictTarget_miss:
  assumes "plain_fields flds" and "(k, v) \<in> set flds" and "keyAsInt k = Some i" and "extractDictTarget v \<noteq> []"
    and "ViewFor r bub = None"
  shows "substituteDictTarget flds i r bub = None"
  using dict_site_eq [OF assms(1-4)] assms(5) by (auto simp: substituteDictTarget_def)

subsection \<open>All the dictionary fields of a message\<close>

text \<open>What the scan promises of the targets it collected (\<open>ds\<close>) for the fields it read.\<close>

definition targets_in :: "(int \<times> bref) list \<Rightarrow> fieldmap \<Rightarrow> bool" where
  "targets_in ds flds \<longleftrightarrow> distinct (map fst ds) \<and>
     (\<forall>(i, b) \<in> set ds. \<exists>k v. (k, v) \<in> set flds \<and> keyAsInt k = Some i \<and> extractDictTarget v \<noteq> [])"

lemma targets_in_Cons:
  assumes "targets_in ((i, b) # ds) flds" and "plain_fields flds"
  obtains k v where "(k, v) \<in> set flds" "keyAsInt k = Some i" "extractDictTarget v \<noteq> []"
    and "\<And>v'. targets_in ds (gput k v' flds)"
proof -
  from assms(1) obtain k v where kv: "(k, v) \<in> set flds" "keyAsInt k = Some i" "extractDictTarget v \<noteq> []"
    by (auto simp: targets_in_def)
  have g: "gmap_ok flds" using assms(2) by (simp add: plain_fields_def plain_def gmap_ok_def)
  have "targets_in ds (gput k v' flds)" for v'
  proof -
    have "\<exists>k' w. (k', w) \<in> set (gput k v' flds) \<and> keyAsInt k' = Some j \<and> extractDictTarget w \<noteq> []"
      if jb: "(j, b') \<in> set ds" for j b'
    proof -
      have ds: "i \<notin> fst ` set ds" "\<forall>(i, b) \<in> set ds. \<exists>k v. (k, v) \<in> set flds \<and> keyAsInt k = Some i \<and> extractDictTarget v \<noteq> []"
        using assms(1) by (simp_all add: targets_in_def)
      have "j \<noteq> i" using ds(1) jb by force
      moreover obtain k' w where kw: "(k', w) \<in> set flds" "keyAsInt k' = Some j" "extractDictTarget w \<noteq> []"
        using bspec [OF ds(2) jb] by auto
      ultimately have "k' \<noteq> k" using kv(2) by auto
      with kw show ?thesis by (auto simp: set_gput [OF g])
    qed
    then show ?thesis using assms(1) by (auto simp: targets_in_def)
  qed
  with kv show thesis by (rule that)
qed

lemma rewrite_dicts_miss:
  assumes "plain_fields flds" and "targets_in ds flds" and "\<exists>(i, b) \<in> set ds. ViewFor r (hp b) = None"
    and "\<forall>(i, b) \<in> set ds. \<forall>w. ViewFor r (hp b) = Some w \<longrightarrow> (\<exists>raw. w = EncodeToString raw)"
  shows "rewrite_dicts hp r ds flds = None"
  using assms
proof (induction ds arbitrary: flds)
  case (Cons ib ds)
  obtain i b where ib: "ib = (i, b)" by (cases ib)
  obtain k v where kv: "(k, v) \<in> set flds" "keyAsInt k = Some i" "extractDictTarget v \<noteq> []"
    and rest: "\<And>v'. targets_in ds (gput k v' flds)"
    using targets_in_Cons Cons.prems(1,2) ib by metis
  show ?case
  proof (cases "ViewFor r (hp b)")
    case None
    with substituteDictTarget_miss [OF Cons.prems(1) kv] show ?thesis by (simp add: ib)
  next
    case (Some w)
    then obtain raw where "w = EncodeToString raw" using Cons.prems(4) ib by auto
    with Some obtain v' where v': "substituteDictTarget flds i r (hp b) = Some (gput k v' flds)" "plain_fields (gput k v' flds)"
      using substituteDictTarget_hit [OF Cons.prems(1) kv] by blast
    have "rewrite_dicts hp r ds (gput k v' flds) = None"
      using Cons.IH [OF v'(2) rest] Cons.prems(3,4) Some ib by auto
    with v' show ?thesis by (simp add: ib)
  qed
qed simp

lemma rewrite_dicts_hit:
  assumes "plain_fields flds" and "targets_in ds flds"
    and "\<forall>(i, b) \<in> set ds. \<exists>raw. ViewFor r (hp b) = Some (EncodeToString raw)"
  shows "\<exists>out. rewrite_dicts hp r ds flds = Some out \<and> plain_fields out \<and> gkeys out = gkeys flds \<and>
    (\<forall>k. (\<forall>i b. (i, b) \<in> set ds \<longrightarrow> keyAsInt k \<noteq> Some i) \<longrightarrow> map_of out k = map_of flds k) \<and>
    (\<forall>k v i b. (i, b) \<in> set ds \<and> keyAsInt k = Some i \<and> (k, v) \<in> set flds \<longrightarrow>
       (\<exists>w v'. ViewFor r (hp b) = Some w \<and> map_of out k = Some v' \<and> rebound v w v'))"
  using assms
proof (induction ds arbitrary: flds)
  case (Cons ib ds)
  obtain i b where ib: "ib = (i, b)" by (cases ib)
  obtain k v where kv: "(k, v) \<in> set flds" "keyAsInt k = Some i" "extractDictTarget v \<noteq> []"
    and rest: "\<And>v'. targets_in ds (gput k v' flds)"
    using targets_in_Cons Cons.prems(1,2) ib by metis
  obtain raw where view: "ViewFor r (hp b) = Some (EncodeToString raw)" using Cons.prems(3) ib by auto
  obtain v' where v': "substituteDictTarget flds i r (hp b) = Some (gput k v' flds)" "rebound v (EncodeToString raw) v'"
      "plain_fields (gput k v' flds)"
    using substituteDictTarget_hit [OF Cons.prems(1) kv view] by blast
  let ?f = "gput k v' flds"
  obtain out where out: "rewrite_dicts hp r ds ?f = Some out" "plain_fields out" "gkeys out = gkeys ?f"
      and same: "\<And>k. (\<forall>i b. (i, b) \<in> set ds \<longrightarrow> keyAsInt k \<noteq> Some i) \<Longrightarrow> map_of out k = map_of ?f k"
      and hit: "\<And>k v i b. (i, b) \<in> set ds \<Longrightarrow> keyAsInt k = Some i \<Longrightarrow> (k, v) \<in> set ?f \<Longrightarrow>
        \<exists>w v'. ViewFor r (hp b) = Some w \<and> map_of out k = Some v' \<and> rebound v w v'"
    using Cons.IH [OF v'(3) rest] Cons.prems(3) ib by auto
  have kin: "k \<in> fst ` set flds" using kv(1) by force
  have g: "gmap_ok flds" using Cons.prems(1) by (simp add: plain_fields_def plain_def gmap_ok_def)
  have fresh_i: "(i, b') \<notin> set ds" for b' using Cons.prems(2) ib by (force simp: targets_in_def)
  have head: "\<exists>w v'. ViewFor r (hp b) = Some w \<and> map_of out k' = Some v' \<and> rebound u w v'"
    if "keyAsInt k' = Some i" "(k', u) \<in> set flds" for k' u
  proof -
    have "k' = k \<and> u = v" using that plain_unique [OF plain_fieldsD(1) [OF Cons.prems(1)] kv(1)] kv(2) by auto
    moreover have "map_of out k = map_of ?f k" using fresh_i kv(2) by (intro same) auto
    ultimately show ?thesis using view v'(2) by (simp add: map_of_gput)
  qed
  have "map_of out k' = map_of flds k'" if others: "\<forall>j b'. (j, b') \<in> set (ib # ds) \<longrightarrow> keyAsInt k' \<noteq> Some j" for k'
  proof -
    have "map_of out k' = map_of ?f k'" using others by (intro same) simp
    moreover have "k' \<noteq> k" using others kv(2) ib by auto
    ultimately show ?thesis by (simp add: map_of_gput)
  qed
  moreover have "\<exists>w v'. ViewFor r (hp b') = Some w \<and> map_of out k' = Some v' \<and> rebound u w v'"
    if jb: "(j, b') \<in> set (ib # ds)" "keyAsInt k' = Some j" "(k', u) \<in> set flds" for k' u j b'
  proof (cases "(j, b') = ib")
    case False
    then have "(j, b') \<in> set ds" "k' \<noteq> k" using jb fresh_i ib kv(2) by auto
    with hit [of j b' k' u] jb show ?thesis by (auto simp: set_gput [OF g])
  qed (use jb head [of k' u] ib in auto)
  moreover have "rewrite_dicts hp r (ib # ds) flds = Some out" "gkeys out = gkeys flds"
    using out v'(1) gkeys_gput_mem [OF kin] by (simp_all add: ib)
  ultimately show ?case using out(2) by blast
qed (auto simp: targets_in_def)

subsection \<open>The scan\<close>

text \<open>A bubble that a lookup returned: it is alive, and the id looked up is some recipient's view of it.\<close>

definition names_bubble :: "time \<Rightarrow> Cache \<Rightarrow> string \<Rightarrow> bref \<Rightarrow> bool" where
  "names_bubble now c t b \<longleftrightarrow> now \<le> expiresAt (heap c b) \<and> t \<in> snd ` set (views (heap c b))"

lemma Lookup_heap [simp]: "heap (snd (Lookup m now c)) = heap c"
  by (simp add: Lookup_def to_front_def split: option.split)

lemma Lookup_names:
  assumes "idmap_ok c" and "Lookup t now c = (Some b, c')"
  shows "names_bubble now c t b \<and> idmap_ok c' \<and> heap c' = heap c"
proof -
  have "map_of (byMsgID c) t = Some b" and "now \<le> expiresAt (heap c b)"
    using assms(2) by (auto simp: Lookup_def split: option.splits if_splits)
  with assms Lookup_ok [of c t now] Lookup_heap [of t now c] idmap_okD(2) [OF assms(1)] show ?thesis
    by (simp add: names_bubble_def)
qed

lemma Lookup_none: "idmap_ok c \<Longrightarrow> Lookup t now c = (None, c') \<Longrightarrow> idmap_ok c' \<and> heap c' = heap c"
  using Lookup_ok [of c t now] Lookup_heap [of t now c] by simp

text \<open>One field contributes at most one target, and a sound one.\<close>

lemma scan_field_cases:
  assumes "idmap_ok c" and "scan_field now (k, v) (rw, c) = (rw', c')"
  shows "idmap_ok c' \<and> heap c' = heap c \<and>
    (rw' = rw \<or>
     (\<exists>i b. keyAsInt k = Some i \<and> i \<in> {64, 65, 66} \<and> extractDictTarget v \<noteq> [] \<and>
        names_bubble now c (extractDictTarget v) b \<and> rw' = rw\<lparr>dicts := dicts rw @ [(i, b)]\<rparr>) \<or>
     (\<exists>raw b. keyAsInt k = Some 48 \<and> asHashBytes v = Some raw \<and>
        names_bubble now c (EncodeToString raw) b \<and> rw' = rw\<lparr>replyBubble := Some b\<rparr>))"
proof (cases "keyAsInt k")
  case None
  with assms show ?thesis by (simp add: scan_field_def)
next
  case (Some i)
  consider (dict) "i \<in> {64, 65, 66}" | (reply) "i = 48" | (other) "i \<notin> {64, 65, 66, 48}" by auto
  then show ?thesis
  proof cases
    case dict
    obtain bo c1 where l: "Lookup (extractDictTarget v) now c = (bo, c1)" by (cases "Lookup (extractDictTarget v) now c")
    have eq: "scan_field now (k, v) (rw, c) = (if extractDictTarget v = [] then (rw, c)
        else case bo of None \<Rightarrow> (rw, c1) | Some b \<Rightarrow> (rw\<lparr>dicts := dicts rw @ [(i, b)]\<rparr>, c1))"
      using dict Some l by (auto simp: scan_field_def field_numbers Let_def split: option.split)
    show ?thesis
    proof (cases "extractDictTarget v = []")
      case False
      show ?thesis
      proof (cases bo)
        case None
        with eq l False assms Lookup_none [OF assms(1)] show ?thesis by auto
      next
        case b: (Some b)
        have "names_bubble now c (extractDictTarget v) b \<and> idmap_ok c1 \<and> heap c1 = heap c"
          using Lookup_names [OF assms(1)] l b by blast
        then show ?thesis using eq b False assms(2) dict Some by auto
      qed
    qed (use eq assms in simp)
  next
    case reply
    show ?thesis
    proof (cases "asHashBytes v")
      case (Some raw)
      obtain bo c1 where l: "Lookup (EncodeToString raw) now c = (bo, c1)" by (cases "Lookup (EncodeToString raw) now c")
      have eq: "scan_field now (k, v) (rw, c) = (case bo of None \<Rightarrow> (rw, c1) | Some b \<Rightarrow> (rw\<lparr>replyBubble := Some b\<rparr>, c1))"
        using reply \<open>keyAsInt k = Some i\<close> Some l by (auto simp: scan_field_def field_numbers split: option.split)
      show ?thesis
      proof (cases bo)
        case None
        with eq l assms Lookup_none [OF assms(1)] show ?thesis by auto
      next
        case b: (Some b)
        have "names_bubble now c (EncodeToString raw) b \<and> idmap_ok c1 \<and> heap c1 = heap c"
          using Lookup_names [OF assms(1)] l b by blast
        then show ?thesis using eq b assms(2) reply \<open>keyAsInt k = Some i\<close> Some by auto
      qed
    qed (use assms reply Some in \<open>simp add: scan_field_def field_numbers\<close>)
  next
    case other
    with assms Some show ?thesis by (simp add: scan_field_def field_numbers)
  qed
qed

definition scan_sound :: "time \<Rightarrow> Cache \<Rightarrow> fieldmap \<Rightarrow> rewriter \<Rightarrow> bool" where
  "scan_sound now c flds rw \<longleftrightarrow> targets_in (dicts rw) flds \<and>
     (\<forall>(i, b) \<in> set (dicts rw). i \<in> {64, 65, 66} \<and>
        (\<exists>k v. (k, v) \<in> set flds \<and> keyAsInt k = Some i \<and> names_bubble now c (extractDictTarget v) b)) \<and>
     (\<forall>b. replyBubble rw = Some b \<longrightarrow>
        (\<exists>k v raw. (k, v) \<in> set flds \<and> keyAsInt k = Some 48 \<and> asHashBytes v = Some raw \<and>
           names_bubble now c (EncodeToString raw) b))"

lemma scan_sound_mono: "scan_sound now c flds rw \<Longrightarrow> set flds \<subseteq> set flds' \<Longrightarrow> scan_sound now c flds' rw"
  unfolding scan_sound_def targets_in_def case_prod_unfold by (meson subsetD)

lemma scan_sound_step:
  assumes "scan_sound now c done rw" and "idmap_ok c1" and "heap c1 = heap c" and "plain (done @ [(k, v)])"
    and "scan_field now (k, v) (rw, c1) = (rw', c2)"
  shows "scan_sound now c (done @ [(k, v)]) rw'"
proof -
  have new: "(j, b) \<notin> set (dicts rw)" if "keyAsInt k = Some j" for j b
  proof
    assume "(j, b) \<in> set (dicts rw)"
    with assms(1) obtain k' v' where "(k', v') \<in> set done" "keyAsInt k' = Some j"
      by (fastforce simp: scan_sound_def)
    with plain_unique [OF assms(4), of k' v' k v j] that assms(4) show False
      by (force simp: plain_def)
  qed
  have nb: "names_bubble now c1 = names_bubble now c" by (simp add: names_bubble_def fun_eq_iff assms(3))
  have ext: "scan_sound now c (done @ [(k, v)]) rw"
    using assms(1) by (rule scan_sound_mono) auto
  from scan_field_cases [OF assms(2,5)] nb
  consider "rw' = rw"
    | i b where "keyAsInt k = Some i" "i \<in> {64, 65, 66}" "extractDictTarget v \<noteq> []"
        "names_bubble now c (extractDictTarget v) b" "rw' = rw\<lparr>dicts := dicts rw @ [(i, b)]\<rparr>"
    | raw b where "keyAsInt k = Some 48" "asHashBytes v = Some raw"
        "names_bubble now c (EncodeToString raw) b" "rw' = rw\<lparr>replyBubble := Some b\<rparr>"
    by metis
  then show ?thesis
  proof cases
    case (2 i b)
    have "i \<notin> fst ` set (dicts rw)" using new [OF 2(1)] by auto
    with ext 2 show ?thesis by (auto simp: scan_sound_def targets_in_def)
  qed (use ext in \<open>auto simp: scan_sound_def\<close>)
qed

lemma scan_sound_fold:
  assumes "scan_sound now c done rw" and "idmap_ok c1" and "heap c1 = heap c" and "plain (done @ flds)"
    and "fold (scan_field now) flds (rw, c1) = (rw', c2)"
  shows "scan_sound now c (done @ flds) rw' \<and> idmap_ok c2 \<and> heap c2 = heap c"
  using assms
proof (induction flds arbitrary: "done" rw c1)
  case (Cons kv flds)
  obtain k v where kv: "kv = (k, v)" by (cases kv)
  obtain rw1 c3 where s: "scan_field now (k, v) (rw, c1) = (rw1, c3)" by (cases "scan_field now (k, v) (rw, c1)")
  have p: "plain (done @ [(k, v)])" using plain_prefix [of "done @ [(k, v)]" flds] Cons.prems(4) kv by simp
  have "scan_sound now c (done @ [(k, v)]) rw1" using scan_sound_step [OF Cons.prems(1-3) p s] .
  moreover have "idmap_ok c3" "heap c3 = heap c" using scan_field_cases [OF Cons.prems(2) s] Cons.prems(3) by auto
  ultimately show ?case using Cons.IH [of "done @ [(k, v)]" rw1 c3] Cons.prems(4,5) kv s by simp
qed simp

lemma buildRewrite_sound:
  assumes "idmap_ok c" and "plain_fields flds" and "buildRewrite now (Some c) flds = (Some rw, co)"
  shows "scan_sound now c flds rw"
proof -
  obtain rw' c' where f: "fold (scan_field now) flds (\<lparr>dicts = [], replyBubble = None\<rparr>, c) = (rw', c')"
    by (cases "fold (scan_field now) flds (\<lparr>dicts = [], replyBubble = None\<rparr>, c)")
  with assms(3) have "rw' = rw" by (auto simp: buildRewrite_def split: if_splits)
  with scan_sound_fold [of now c "[]" _ c flds, OF _ assms(1) HOL.refl _ f] assms(2) show ?thesis
    by (simp add: scan_sound_def targets_in_def plain_fields_def)
qed

subsection \<open>The scan is complete\<close>

text \<open>
  A name that stands for a live bubble and for no other: the lookups of the other fields of a message, which may
  drop expired bubbles with their ids, leave it in the index.
\<close>

definition names_only :: "time \<Rightarrow> Cache \<Rightarrow> string \<Rightarrow> bref \<Rightarrow> bool" where
  "names_only now c t b \<longleftrightarrow> map_of (byMsgID c) t = Some b \<and> now \<le> expiresAt (heap c b) \<and>
     (\<forall>b'. b' \<noteq> b \<longrightarrow> t \<notin> snd ` set (views (heap c b')))"

lemma names_only_hit: "names_only now c t b \<Longrightarrow> fst (Lookup t now c) = Some b"
  by (simp add: names_only_def Lookup_def)

lemma Lookup_names_only:
  assumes "idmap_ok c" and "names_only now c t b"
  shows "names_only now (snd (Lookup m now c)) t b"
proof (cases "map_of (byMsgID c) m")
  case (Some b')
  have g: "gmap_ok (byMsgID c)" using assms(1) by (simp add: idmap_ok_def)
  have "b' \<noteq> b" if "expiresAt (heap c b') < now" using that assms(2) by (auto simp: names_only_def)
  with Some assms(2) show ?thesis
    by (auto simp: names_only_def Lookup_def to_front_def map_of_filter_Some [OF g])
qed (use assms in \<open>simp add: Lookup_def\<close>)

lemma scan_field_keeps:
  assumes "idmap_ok c" and "scan_field now kv (rw, c) = (rw', c')"
  shows "idmap_ok c'" and "set (dicts rw) \<subseteq> set (dicts rw')" and "names_only now c t b \<Longrightarrow> names_only now c' t b"
proof -
  obtain k v where kv: "kv = (k, v)" by (cases kv)
  from scan_field_cases [OF assms(1) assms(2) [unfolded kv]]
  show "idmap_ok c'" "set (dicts rw) \<subseteq> set (dicts rw')" by auto
  have "c' = c \<or> (\<exists>m. c' = snd (Lookup m now c))"
    using assms(2) by (auto simp: kv scan_field_def Let_def split: option.splits prod.splits if_splits) (metis snd_conv)+
  then show "names_only now c t b \<Longrightarrow> names_only now c' t b" using Lookup_names_only [OF assms(1)] by auto
qed

lemma scan_field_finds:
  assumes "keyAsInt k = Some i" and "i \<in> {64, 65, 66}" and "extractDictTarget v \<noteq> []"
    and "names_only now c (extractDictTarget v) b" and "scan_field now (k, v) (rw, c) = (rw', c')"
  shows "(i, b) \<in> set (dicts rw')"
  using assms names_only_hit [OF assms(4)]
  by (cases "Lookup (extractDictTarget v) now c") (auto simp: scan_field_def field_numbers Let_def)

lemma scan_complete:
  assumes "idmap_ok c" and "fold (scan_field now) flds (rw, c) = (rw', c')"
  shows "set (dicts rw) \<subseteq> set (dicts rw') \<and>
    (\<forall>k v i b. (k, v) \<in> set flds \<and> keyAsInt k = Some i \<and> i \<in> {64, 65, 66} \<and> extractDictTarget v \<noteq> [] \<and>
       names_only now c (extractDictTarget v) b \<longrightarrow> (i, b) \<in> set (dicts rw'))"
  using assms
proof (induction flds arbitrary: rw c)
  case (Cons kv flds)
  obtain rw1 c1 where s: "scan_field now kv (rw, c) = (rw1, c1)" by (cases "scan_field now kv (rw, c)")
  note keep = scan_field_keeps [OF Cons.prems(1) s]
  have IH: "set (dicts rw1) \<subseteq> set (dicts rw')"
      "\<And>k v i b. (k, v) \<in> set flds \<Longrightarrow> keyAsInt k = Some i \<Longrightarrow> i \<in> {64, 65, 66} \<Longrightarrow> extractDictTarget v \<noteq> [] \<Longrightarrow>
       names_only now c1 (extractDictTarget v) b \<Longrightarrow> (i, b) \<in> set (dicts rw')"
    using Cons.IH [OF keep(1), of rw1] Cons.prems(2) s by auto
  have "(i, b) \<in> set (dicts rw')"
    if f: "(k, v) \<in> set (kv # flds)" "keyAsInt k = Some i" "i \<in> {64, 65, 66}" "extractDictTarget v \<noteq> []"
      "names_only now c (extractDictTarget v) b" for k v i b
  proof (cases "kv = (k, v)")
    case True
    with scan_field_finds [OF f(2-5) s [unfolded True]] IH(1) show ?thesis by auto
  next
    case False
    with f(1) have "(k, v) \<in> set flds" by auto
    from IH(2) [OF this f(2-4) keep(3) [OF f(5)]] show ?thesis .
  qed
  with keep(2) IH(1) show ?case by blast
qed auto

lemma buildRewrite_complete:
  assumes "idmap_ok c" and "buildRewrite now (Some c) flds = (rwo, co)"
    and "(k, v) \<in> set flds" "keyAsInt k = Some i" "i \<in> {64, 65, 66}" "extractDictTarget v \<noteq> []"
    and "names_only now c (extractDictTarget v) b"
  shows "\<exists>rw. rwo = Some rw \<and> (i, b) \<in> set (dicts rw)"
proof -
  obtain rw c' where f: "fold (scan_field now) flds (\<lparr>dicts = [], replyBubble = None\<rparr>, c) = (rw, c')"
    by (cases "fold (scan_field now) flds (\<lparr>dicts = [], replyBubble = None\<rparr>, c)")
  have "(i, b) \<in> set (dicts rw)" using scan_complete [OF assms(1) f] assms(3-7) by blast
  with f assms(2,3) show ?thesis by (auto simp: buildRewrite_def split: if_splits)
qed

subsection \<open>What a recipient gets\<close>

lemma reply_site_Some: "reply_site flds = Some k \<Longrightarrow> keyAsInt k = Some 48 \<and> k \<in> fst ` set flds"
  by (induction flds rule: reply_site.induct) (auto simp: fieldReplyTo_def split: if_splits)

lemma reply_site_exists:
  "(k, v) \<in> set flds \<Longrightarrow> keyAsInt k = Some 48 \<Longrightarrow> asHashBytes v \<noteq> None \<Longrightarrow> \<exists>k'. reply_site flds = Some k'"
  by (induction flds rule: reply_site.induct) (auto simp: fieldReplyTo_def)

lemma apply_rewrite_dicts:
  assumes "rewrite_dicts hp r (dicts rw) flds = Some mid" and "apply_rewrite rw hp r flds = Some out"
    and "keyAsInt k \<noteq> Some 48" and "plain mid"
  shows "map_of out k = map_of mid k"
proof (cases "replyBubble rw")
  case (Some b)
  have g: "gmap_ok mid" using assms(4) by (simp add: plain_def gmap_ok_def)
  have strip: "map_of (stripReplyHash mid) k = map_of mid k"
    using assms(3) by (auto simp: stripReplyHash_def map_of_filter_Some [OF g] fieldReplyTo_def split: option.split)
  show ?thesis
  proof (cases "reply_site mid")
    case s: (Some k')
    have "k' \<noteq> k" using reply_site_Some [OF s] assms(3) by auto
    with assms Some s strip show ?thesis
      by (auto simp: apply_rewrite_def substituteReplyHash_def map_of_gput split: option.splits)
  qed (use assms Some strip in \<open>auto simp: apply_rewrite_def substituteReplyHash_def\<close>)
qed (use assms in \<open>simp add: apply_rewrite_def\<close>)

lemma apply_rewrite_None: "apply_rewrite rw hp r flds = None \<longleftrightarrow> rewrite_dicts hp r (dicts rw) flds = None"
  by (auto simp: apply_rewrite_def split: option.split prod.split bool.split)

lemma rewrite_sound:
  assumes "idmap_ok c" and "plain_fields flds" and "buildRewrite now (Some c) flds = (Some rw, co)"
    and "\<forall>b w. ViewFor r (hp b) = Some w \<longrightarrow> (\<exists>raw. w = EncodeToString raw)"
  shows "(\<forall>(i, b) \<in> set (dicts rw). \<exists>k v. (k, v) \<in> set flds \<and> keyAsInt k = Some i \<and>
      extractDictTarget v \<in> snd ` set (views (heap c b))) \<and>
    (apply_rewrite rw hp r flds = None \<longleftrightarrow> (\<exists>(i, b) \<in> set (dicts rw). ViewFor r (hp b) = None)) \<and>
    (\<forall>out. apply_rewrite rw hp r flds = Some out \<longrightarrow>
       (\<forall>k v i b. (i, b) \<in> set (dicts rw) \<and> keyAsInt k = Some i \<and> (k, v) \<in> set flds \<longrightarrow>
          (\<exists>w v'. ViewFor r (hp b) = Some w \<and> map_of out k = Some v' \<and> rebound v w v')) \<and>
       (\<forall>k. keyAsInt k \<notin> Some ` insert 48 (fst ` set (dicts rw)) \<longrightarrow> map_of out k = map_of flds k))"
proof -
  have sound: "scan_sound now c flds rw" using assms(1-3) by (rule buildRewrite_sound)
  then have t: "targets_in (dicts rw) flds" by (simp add: scan_sound_def)
  have named: "\<forall>(i, b) \<in> set (dicts rw). \<exists>k v. (k, v) \<in> set flds \<and> keyAsInt k = Some i \<and>
      extractDictTarget v \<in> snd ` set (views (heap c b))"
    using sound unfolding scan_sound_def names_bubble_def case_prod_unfold by meson
  have int: "i \<noteq> 48" if "(i, b) \<in> set (dicts rw)" for i b using sound that unfolding scan_sound_def by fastforce
  show ?thesis
  proof (cases "\<exists>(i, b) \<in> set (dicts rw). ViewFor r (hp b) = None")
    case True
    then have "rewrite_dicts hp r (dicts rw) flds = None"
      using assms(4) by (intro rewrite_dicts_miss [OF assms(2) t]) auto
    then have "apply_rewrite rw hp r flds = None" by (simp add: apply_rewrite_None)
    with True named show ?thesis by simp
  next
    case False
    have "\<forall>(i, b) \<in> set (dicts rw). \<exists>raw. ViewFor r (hp b) = Some (EncodeToString raw)"
    proof clarify
      fix i b assume "(i, b) \<in> set (dicts rw)"
      with False obtain w where "ViewFor r (hp b) = Some w" by blast
      with assms(4) show "\<exists>raw. ViewFor r (hp b) = Some (EncodeToString raw)" by blast
    qed
    from rewrite_dicts_hit [OF assms(2) t this] obtain mid where m: "rewrite_dicts hp r (dicts rw) flds = Some mid \<and>
        plain_fields mid \<and> gkeys mid = gkeys flds \<and>
        (\<forall>k. (\<forall>i b. (i, b) \<in> set (dicts rw) \<longrightarrow> keyAsInt k \<noteq> Some i) \<longrightarrow> map_of mid k = map_of flds k) \<and>
        (\<forall>k v i b. (i, b) \<in> set (dicts rw) \<and> keyAsInt k = Some i \<and> (k, v) \<in> set flds \<longrightarrow>
          (\<exists>w v'. ViewFor r (hp b) = Some w \<and> map_of mid k = Some v' \<and> rebound v w v'))" by (rule exE)
    note mid = m [THEN conjunct1] m [THEN conjunct2, THEN conjunct1]
    note same = m [THEN conjunct2, THEN conjunct2, THEN conjunct2, THEN conjunct1, THEN spec, THEN mp]
    note hit = m [THEN conjunct2, THEN conjunct2, THEN conjunct2, THEN conjunct2, THEN spec, THEN spec, THEN spec, THEN spec, THEN mp]
    have gets: "\<forall>out. apply_rewrite rw hp r flds = Some out \<longrightarrow>
       (\<forall>k v i b. (i, b) \<in> set (dicts rw) \<and> keyAsInt k = Some i \<and> (k, v) \<in> set flds \<longrightarrow>
          (\<exists>w v'. ViewFor r (hp b) = Some w \<and> map_of out k = Some v' \<and> rebound v w v')) \<and>
       (\<forall>k. keyAsInt k \<notin> Some ` insert 48 (fst ` set (dicts rw)) \<longrightarrow> map_of out k = map_of flds k)"
    proof (intro conjI allI impI)
      fix out k
      assume out: "apply_rewrite rw hp r flds = Some out"
      note keep = apply_rewrite_dicts [OF mid(1) out _ plain_fieldsD(1) [OF mid(2)]]
      show "\<exists>w v'. ViewFor r (hp b) = Some w \<and> map_of out k = Some v' \<and> rebound v w v'"
        if "(i, b) \<in> set (dicts rw) \<and> keyAsInt k = Some i \<and> (k, v) \<in> set flds" for v i b
        using that hit [of i b k v] keep [of k] int [of i b] by auto
      assume "keyAsInt k \<notin> Some ` insert 48 (fst ` set (dicts rw))"
      then have "keyAsInt k \<noteq> Some 48" "\<forall>i b. (i, b) \<in> set (dicts rw) \<longrightarrow> keyAsInt k \<noteq> Some i" by force+
      then show "map_of out k = map_of flds k" using keep same by simp
    qed
    have "apply_rewrite rw hp r flds = None \<longleftrightarrow> (\<exists>(i, b) \<in> set (dicts rw). ViewFor r (hp b) = None)"
      using mid(1) False by (simp add: apply_rewrite_None)
    with named gets show ?thesis by (intro conjI)
  qed
qed

text \<open>
  C30: a relayed reaction lands on the right message for everyone. A reaction, comment or continuation (field 64, 65 or 66) whose
  target is the id of a live message in the cache, and of no other, is always among those the rewrite collects, with that
  message; and whatever it collects is named by a field of that number and is some recipient's id of the
  message. Each member then receives the field with the target replaced by that member's own id of the very
  same message and with every other entry of the dictionary, the emoji of a reaction, as it was; and
  every field that is neither a reply nor collected as it was. A member is skipped exactly when it never got one of
  the targeted messages.
\<close>

theorem rewrite_rebinds:
  assumes "reaches idmap_step (NewCache d n) c" and "plain_fields flds" and "buildRewrite now (Some c) flds = (rwo, co)"
    and "\<forall>b w. ViewFor r (hp b) = Some w \<longrightarrow> (\<exists>raw. w = EncodeToString raw)"
  shows "(\<forall>k v i b. (k, v) \<in> set flds \<and> keyAsInt k = Some i \<and> i \<in> {64, 65, 66} \<and> extractDictTarget v \<noteq> [] \<and>
       map_of (byMsgID c) (extractDictTarget v) = Some b \<and> now \<le> expiresAt (heap c b) \<and>
       (\<forall>b'. b' \<noteq> b \<longrightarrow> extractDictTarget v \<notin> snd ` set (views (heap c b'))) \<longrightarrow>
       (\<exists>rw. rwo = Some rw \<and> (i, b) \<in> set (dicts rw))) \<and>
    (\<forall>rw. rwo = Some rw \<longrightarrow>
       (\<forall>(i, b) \<in> set (dicts rw). \<exists>k v. (k, v) \<in> set flds \<and> keyAsInt k = Some i \<and>
          extractDictTarget v \<in> snd ` set (views (heap c b))) \<and>
       (apply_rewrite rw hp r flds = None \<longleftrightarrow> (\<exists>(i, b) \<in> set (dicts rw). ViewFor r (hp b) = None)) \<and>
       (\<forall>out. apply_rewrite rw hp r flds = Some out \<longrightarrow>
          (\<forall>k v i b. (i, b) \<in> set (dicts rw) \<and> keyAsInt k = Some i \<and> (k, v) \<in> set flds \<longrightarrow>
             (\<exists>w v'. ViewFor r (hp b) = Some w \<and> map_of out k = Some v' \<and> rebound v w v')) \<and>
          (\<forall>k. keyAsInt k \<notin> Some ` insert 48 (fst ` set (dicts rw)) \<longrightarrow> map_of out k = map_of flds k)))"
proof -
  have ok: "idmap_ok c" using idmap_sys.inv_reachable assms(1) by (auto simp: idmap_inv_def)
  note found = buildRewrite_complete [OF ok assms(3), unfolded names_only_def]
  note sound = rewrite_sound [OF ok assms(2) assms(3) [THEN trans, of "(Some rw, co)" for rw] assms(4)]
  show ?thesis
    by (rule conjI) (intro allI impI, elim conjE, rule found; blast | intro allI impI, rule sound, simp)+
qed

text \<open>
  A reply loses at most its link. When a member has its own id of the message replied to, the reply names it
  by that id; when it has none, the member still gets the message, without the reply field and with all
  the other fields, the quoted text among them.
\<close>

theorem reply_degrades:
  assumes "reaches idmap_step (NewCache d n) c" and "plain_fields flds" and "buildRewrite now (Some c) flds = (Some rw, co)"
    and "dicts rw = []"
  shows "\<exists>b out. replyBubble rw = Some b \<and> apply_rewrite rw hp r flds = Some out \<and>
    (\<forall>raw. ViewFor r (hp b) = Some (EncodeToString raw) \<longrightarrow>
       (\<exists>k. keyAsInt k = Some 48 \<and> out = gput k (VBytes raw) flds \<and> k \<in> fst ` set flds)) \<and>
    (ViewFor r (hp b) = None \<longrightarrow> out = filter (\<lambda>kv. keyAsInt (fst kv) \<noteq> Some 48) flds)"
proof -
  have "idmap_ok c" using idmap_sys.inv_reachable assms(1) by (auto simp: idmap_inv_def)
  then have sound: "scan_sound now c flds rw" using assms(2,3) by (rule buildRewrite_sound)
  obtain b where b: "replyBubble rw = Some b"
    using assms(3,4) by (cases "replyBubble rw") (auto simp: buildRewrite_def split: prod.splits if_splits)
  with sound obtain k v raw where "(k, v) \<in> set flds" "keyAsInt k = Some 48" "asHashBytes v = Some raw"
    unfolding scan_sound_def by meson
  then obtain k' where k': "reply_site flds = Some k'" using reply_site_exists by blast
  have strip: "stripReplyHash flds = filter (\<lambda>kv. keyAsInt (fst kv) \<noteq> Some 48) flds"
    by (simp add: stripReplyHash_def fieldReplyTo_def case_prod_unfold)
  obtain out where out: "apply_rewrite rw hp r flds = Some out"
    using assms(4) apply_rewrite_None [of rw hp r flds] by auto
  moreover have "out = gput k' (VBytes raw) flds" if "ViewFor r (hp b) = Some (EncodeToString raw)" for raw
    using out that assms(4) b k' by (simp add: apply_rewrite_def substituteReplyHash_def)
  moreover have "out = stripReplyHash flds" if "ViewFor r (hp b) = None"
    using out that assms(4) b k' by (simp add: apply_rewrite_def substituteReplyHash_def)
  ultimately show ?thesis using b strip reply_site_Some [OF k'] by auto
qed

text \<open>A message known to one member as \<open>aa\<close> and to another as \<open>bb\<close>, and a reaction and a reply to it.\<close>

definition twoViews :: Cache where
  "twoViews = RegisterView (Some 0) ''s'' ''bb'' 5
     (RegisterView (Some 0) ''r'' ''aa'' 5 (snd (NewBubble 100 0 (NewCache 100 9))))"

definition aReaction :: fieldmap where
  "aReaction = [(KInt I_uint8 64, VMap [(KInt I_uint8 0, VBytes [CHR 0xAA]), (KInt I_uint8 1, VStr ''+'')])]"

definition aReply :: fieldmap where
  "aReply = [(KInt I_uint8 48, VBytes [CHR 0xAA]), (KInt I_uint8 49, VStr ''q'')]"

lemma twoViews_eq:
  "twoViews = \<lparr>cttl = 100, maxSize = 9, byMsgID = [(''aa'', 0), (''bb'', 0)], lru = [0],
     heap = (\<lambda>_. \<lparr>views = [], expiresAt = 0\<rparr>)(0 := \<lparr>views = [(''r'', ''aa''), (''s'', ''bb'')], expiresAt = 100\<rparr>), fresh = 1\<rparr>"
  by (simp add: twoViews_def RegisterView_def Let_def NewBubble_def NewCache_def to_front_def enforceCap_def
      evictExpired.simps cap_loop.simps fun_eq_iff)

lemma twoViews_reached: "reaches idmap_step (NewCache 100 9) twoViews"
proof -
  let ?c1 = "snd (NewBubble 100 0 (NewCache 100 9))"
  let ?c2 = "RegisterView (Some 0) ''r'' ''aa'' 5 ?c1"
  note defs = NewBubble_def NewCache_def RegisterView_def Let_def to_front_def enforceCap_def ViewFor_def
    evictExpired.simps cap_loop.simps
  have "reaches idmap_step (NewCache 100 9) ?c1" by (intro reaches_one idmap_step.new)
  moreover have "idmap_step ?c1 ?c2" by (rule idmap_step.register) (simp_all add: defs)
  moreover have "idmap_step ?c2 twoViews" unfolding twoViews_def by (rule idmap_step.register) (simp_all add: defs)
  ultimately show ?thesis by (blast intro: reaches.step)
qed

lemma aa_hex: "hex_byte (CHR 0xAA) = ''aa''" "hex_byte (CHR 0xBB) = ''bb''"
  by code_simp+

lemma twoViews_hex: "ViewFor r (heap twoViews b) = Some w \<Longrightarrow> \<exists>raw. w = EncodeToString raw"
proof -
  assume "ViewFor r (heap twoViews b) = Some w"
  then have "w = EncodeToString [CHR 0xAA] \<or> w = EncodeToString [CHR 0xBB]"
    by (auto simp: twoViews_eq ViewFor_def aa_hex split: if_splits)
  then show ?thesis by blast
qed

lemma twoViews_lookup: "Lookup ''aa'' 7 twoViews = (Some 0, twoViews)"
  by (simp add: Lookup_def twoViews_eq to_front_def)

theorem rewrite_rebinds_witness:
  "map_option (\<lambda>out. map_option extractDictTarget (map_of out (KInt I_uint8 64)))
     (apply_rewrite (the (fst (buildRewrite 7 (Some twoViews) aReaction))) (heap twoViews) ''s'' aReaction) = Some (Some ''bb'')"
proof -
  have p: "plain_fields aReaction" by (simp add: aReaction_def plain_fields_def plain_def map_filter_simps keyAsInt_def)
  have b: "buildRewrite 7 (Some twoViews) aReaction = (Some \<lparr>dicts = [(64, 0)], replyBubble = None\<rparr>, Some twoViews)"
    by (simp add: buildRewrite_def aReaction_def scan_field_def keyAsInt_def field_numbers extractDictTarget_def
        asHashBytes_def aa_hex twoViews_lookup Let_def)
  have v: "ViewFor ''s'' (heap twoViews 0) = Some ''bb''" by (simp add: twoViews_eq ViewFor_def)
  note r = rewrite_rebinds [OF twoViews_reached p b, of "''s''" "heap twoViews"]
  have h: "\<forall>b w. ViewFor ''s'' (heap twoViews b) = Some w \<longrightarrow> (\<exists>raw. w = EncodeToString raw)"
    using twoViews_hex by blast
  note q = r [OF h, THEN conjunct2, THEN spec, THEN mp, OF HOL.refl, THEN conjunct2]
  have "apply_rewrite \<lparr>dicts = [(64, 0)], replyBubble = None\<rparr> (heap twoViews) ''s'' aReaction \<noteq> None"
    using q [THEN conjunct1] v by simp
  then obtain out where out:
    "apply_rewrite \<lparr>dicts = [(64, 0)], replyBubble = None\<rparr> (heap twoViews) ''s'' aReaction = Some out" by blast
  have "\<exists>w v'. ViewFor ''s'' (heap twoViews 0) = Some w \<and> map_of out (KInt I_uint8 64) = Some v' \<and>
      rebound (VMap [(KInt I_uint8 0, VBytes [CHR 0xAA]), (KInt I_uint8 1, VStr ''+'')]) w v'"
    by (rule q [THEN conjunct2, THEN spec, THEN mp, OF out, THEN conjunct1, rule_format, of 64]) (simp add: keyAsInt_def aReaction_def)
  with out v b show ?thesis by (auto simp: rebound_def)
qed

theorem reply_degrades_witness:
  "apply_rewrite \<lparr>dicts = [], replyBubble = Some 0\<rparr> (heap twoViews) ''x'' aReply = Some [(KInt I_uint8 49, VStr ''q'')]"
proof -
  have p: "plain_fields aReply" by (simp add: aReply_def plain_fields_def plain_def map_filter_simps keyAsInt_def)
  have b: "buildRewrite 7 (Some twoViews) aReply = (Some \<lparr>dicts = [], replyBubble = Some 0\<rparr>, Some twoViews)"
    by (simp add: buildRewrite_def aReply_def scan_field_def keyAsInt_def field_numbers asHashBytes_def aa_hex twoViews_lookup)
  from reply_degrades [OF twoViews_reached p b, of "heap twoViews" "''x''"] show ?thesis
    by (auto simp: twoViews_eq ViewFor_def aReply_def keyAsInt_def)
qed

end
