(* ===== verification/Outbound.thy ===== *)
theory Outbound
  imports Rewrite Storage
begin

text \<open>
  \<^verbatim>\<open>internal/service/outbound.go\<close>: the queue of messages to send, its retry policy, and the adapter that hands
  a message to the network.

  A queued message is a Go pointer shared by the queue and by the worker that sends it; \<open>mref\<close> is its
  identity, given out in the order of enqueueing. The critical sections under the queue's mutex are the
  operations of the model: \<open>enqueue\<close>, \<open>pickDue\<close>, the two halves of \<^verbatim>\<open>attempt\<close> around the unlocked send
  (\<open>attempt_begin\<close>, \<open>attempt_end\<close>) and the two halves of \<^verbatim>\<open>Flush\<close> around the unlocked write (\<open>Flush_take\<close>,
  \<open>Flush_put\<close>). What the network answers is an argument, \<open>send_result\<close>; log lines are left out. The id cache
  is one object that the queue and the service share; it is kept here.
\<close>

definition maxDeliveryAttempts :: int where "maxDeliveryAttempts = 5"
definition deliveryRetryWait :: duration where "deliveryRetryWait = 10 * Second"
definition pathRequestWait0 :: duration where "pathRequestWait0 = 7 * Second"
definition maxPathlessTries :: int where "maxPathlessTries = 1"
definition outboundWorkers :: nat where "outboundWorkers = 8"
definition maxRetryBackoff :: duration where "maxRetryBackoff = 60 * Second"
definition maxPendingMessages :: nat where "maxPendingMessages = 10000"
definition maxQueueAge :: duration where "maxQueueAge = 24 * Hour"

record outboundMessage =
  mref :: nat
  MID :: string
  Recipient :: bytes
  MBody :: bytes
  MFields :: fieldmap
  MBubble :: "bref option"
  Attempts :: int
  NextAttempt :: time
  EnqueuedAt :: time
  Propagated :: bool
  AfterEarlier :: bool

text \<open>What reaches the file: neither the fields nor the bubble are stored, and identities do not outlive a process.\<close>

definition stored_msg :: "outboundMessage \<Rightarrow> outboundMessage" where
  "stored_msg m = m\<lparr>mref := 0, MFields := [], MBubble := None\<rparr>"

record OutboundQueue =
  qstore :: "outboundMessage list store_file option"
  qidmap :: "Cache option"
  pending :: "outboundMessage list"
  inFlight :: "string list"
  qdirty :: bool
  qdropped :: int
  retryWait :: duration
  pathRequestWait :: duration
  maxAttempts :: int
  pathlessTries :: int
  workers :: nat
  propagationFallback :: bool
  propagationAlways :: bool
  directAttempts :: int
  next_ref :: nat

datatype send_result =
  Sent bytes | NoPropagationNode | StampWorkersBusy | StampCostTooHigh | RecipientUnknown | SendFailed string

definition newOutboundQueue :: "outboundMessage list store_file option \<Rightarrow> OutboundQueue" where
  "newOutboundQueue st = \<lparr>qstore = st, qidmap = None, pending = [], inFlight = [], qdirty = False, qdropped = 0,
     retryWait = deliveryRetryWait, pathRequestWait = pathRequestWait0, maxAttempts = maxDeliveryAttempts,
     pathlessTries = maxPathlessTries, workers = outboundWorkers, propagationFallback = False,
     propagationAlways = False, directAttempts = 0, next_ref = 0\<rparr>"

definition SetPropagation :: "bool \<Rightarrow> bool \<Rightarrow> int \<Rightarrow> OutboundQueue \<Rightarrow> OutboundQueue" where
  "SetPropagation fallback always direct q =
     q\<lparr>propagationFallback := fallback, propagationAlways := always, directAttempts := direct\<rparr>"

definition directBudget :: "OutboundQueue \<Rightarrow> int" where
  "directBudget q =
     (if directAttempts q > 0 \<and> directAttempts q < maxAttempts q then directAttempts q else maxAttempts q)"

definition SetIDMap :: "Cache option \<Rightarrow> OutboundQueue \<Rightarrow> OutboundQueue" where
  "SetIDMap c q = q\<lparr>qidmap := c\<rparr>"

subsection \<open>Loading\<close>

definition outboundStore_load :: "outboundMessage list store_file \<Rightarrow> string + outboundMessage list" where
  "outboundStore_load f = (case content f of
      Garbage e \<Rightarrow> Inl (''parse outbound store: '' @ e)
    | _ \<Rightarrow> ReadStore [] f)"

fun number_from :: "nat \<Rightarrow> outboundMessage list \<Rightarrow> outboundMessage list" where
  "number_from n [] = []"
| "number_from n (m # ms) = m\<lparr>mref := n\<rparr> # number_from (Suc n) ms"

definition LoadQueue :: "OutboundQueue \<Rightarrow> string + OutboundQueue" where
  "LoadQueue q = (case qstore q of
      None \<Rightarrow> Inr q
    | Some f \<Rightarrow>
        (case outboundStore_load f of
           Inl e \<Rightarrow> Inl e
         | Inr msgs \<Rightarrow>
             (let propagationOn = propagationFallback q \<or> propagationAlways q;
                  kept = map (\<lambda>m. if Propagated m \<and> \<not> propagationOn then m\<lparr>Propagated := False\<rparr> else m)
                    (filter (\<lambda>m. length (Recipient m) = 16) msgs)
              in Inr (q\<lparr>pending := number_from (next_ref q) kept, next_ref := next_ref q + length kept\<rparr>))))"

subsection \<open>Enqueueing\<close>

definition persistQueue :: "OutboundQueue \<Rightarrow> OutboundQueue" where
  "persistQueue q = (case qstore q of None \<Rightarrow> q | Some _ \<Rightarrow> q\<lparr>qdirty := True\<rparr>)"

definition enqueue ::
  "bytes \<Rightarrow> bytes \<Rightarrow> fieldmap \<Rightarrow> bref option \<Rightarrow> bool \<Rightarrow> string \<Rightarrow> time \<Rightarrow> OutboundQueue \<Rightarrow> string \<times> OutboundQueue"
where
  "enqueue recipient body flds bubble afterEarlier newID now q =
     (if length (pending q) \<ge> maxPendingMessages then ([], q\<lparr>qdropped := qdropped q + 1\<rparr>)
      else (newID, persistQueue (q\<lparr>pending := pending q @
             [\<lparr>mref = next_ref q, MID = newID, Recipient = recipient, MBody = body, MFields = flds, MBubble = bubble,
               Attempts = 0, NextAttempt = 0, EnqueuedAt = now, Propagated = propagationAlways q,
               AfterEarlier = afterEarlier\<rparr>], next_ref := Suc (next_ref q)\<rparr>)))"

definition EnqueueBubble ::
  "bytes \<Rightarrow> bytes \<Rightarrow> fieldmap \<Rightarrow> bref option \<Rightarrow> string \<Rightarrow> time \<Rightarrow> OutboundQueue \<Rightarrow> string \<times> OutboundQueue"
where
  "EnqueueBubble recipient body flds bubble newID now q = enqueue recipient body flds bubble False newID now q"

definition EnqueueWithFields :: "bytes \<Rightarrow> bytes \<Rightarrow> fieldmap \<Rightarrow> string \<Rightarrow> time \<Rightarrow> OutboundQueue \<Rightarrow> string \<times> OutboundQueue" where
  "EnqueueWithFields recipient body flds newID now q = EnqueueBubble recipient body flds None newID now q"

definition Enqueue :: "bytes \<Rightarrow> bytes \<Rightarrow> string \<Rightarrow> time \<Rightarrow> OutboundQueue \<Rightarrow> string \<times> OutboundQueue" where
  "Enqueue recipient body newID now q = EnqueueWithFields recipient body [] newID now q"

definition EnqueueAfterEarlier :: "bytes \<Rightarrow> bytes \<Rightarrow> string \<Rightarrow> time \<Rightarrow> OutboundQueue \<Rightarrow> string \<times> OutboundQueue" where
  "EnqueueAfterEarlier recipient body newID now q = enqueue recipient body [] None True newID now q"

definition pendingCount :: "OutboundQueue \<Rightarrow> nat" where "pendingCount q = length (pending q)"

subsection \<open>Choosing the next message\<close>

definition removeLocked :: "nat \<Rightarrow> OutboundQueue \<Rightarrow> OutboundQueue" where
  "removeLocked r q = q\<lparr>pending := filter (\<lambda>m. mref m \<noteq> r) (pending q)\<rparr>"

definition queue_expired :: "time \<Rightarrow> OutboundQueue \<Rightarrow> outboundMessage \<Rightarrow> bool" where
  "queue_expired now q m \<longleftrightarrow>
     MID m \<notin> set (inFlight q) \<and> EnqueuedAt m \<noteq> 0 \<and> time_sub now (EnqueuedAt m) > maxQueueAge"

definition reap :: "time \<Rightarrow> OutboundQueue \<Rightarrow> OutboundQueue" where
  "reap now q =
     (let gone = filter (queue_expired now q) (pending q);
          q' = fold (\<lambda>m. removeLocked (mref m)) gone q
      in if gone \<noteq> [] then persistQueue q' else q')"

definition hasEarlierFor :: "outboundMessage list \<Rightarrow> bytes \<Rightarrow> bool" where
  "hasEarlierFor ahead recipient = list_ex (\<lambda>m. Recipient m = recipient) ahead"

definition sendable :: "time \<Rightarrow> string list \<Rightarrow> outboundMessage list \<Rightarrow> outboundMessage \<Rightarrow> bool" where
  "sendable now busy ahead m \<longleftrightarrow>
     MID m \<notin> set busy \<and> \<not> (NextAttempt m \<noteq> 0 \<and> NextAttempt m > now) \<and>
     \<not> (AfterEarlier m \<and> hasEarlierFor ahead (Recipient m))"

text \<open>\<open>LastAnnounceFor\<close> is the announce time of a recipient, if any was heard.\<close>

definition better :: "time option \<Rightarrow> time option \<Rightarrow> bool" where
  "better seen bestSeen = (case seen of None \<Rightarrow> False | Some t \<Rightarrow> (case bestSeen of None \<Rightarrow> True | Some u \<Rightarrow> t > u))"

fun pick_loop ::
  "(bytes \<Rightarrow> time option) \<Rightarrow> time \<Rightarrow> string list \<Rightarrow> outboundMessage list \<Rightarrow> outboundMessage list \<Rightarrow>
   outboundMessage option \<Rightarrow> outboundMessage option"
where
  "pick_loop lastAnn now busy ahead [] best = best"
| "pick_loop lastAnn now busy ahead (m # rest) best =
     (if \<not> sendable now busy ahead m then pick_loop lastAnn now busy (ahead @ [m]) rest best
      else (case best of
          None \<Rightarrow> pick_loop lastAnn now busy (ahead @ [m]) rest (Some m)
        | Some b \<Rightarrow> pick_loop lastAnn now busy (ahead @ [m]) rest
            (if better (lastAnn (Recipient m)) (lastAnn (Recipient b)) then Some m else Some b)))"

definition pickDue :: "(bytes \<Rightarrow> time option) \<Rightarrow> time \<Rightarrow> OutboundQueue \<Rightarrow> outboundMessage option \<times> OutboundQueue" where
  "pickDue lastAnn now q =
     (let q1 = reap now q in
      case pick_loop lastAnn now (inFlight q1) [] (pending q1) None of
        None \<Rightarrow> (None, q1)
      | Some best \<Rightarrow> (Some best, q1\<lparr>inFlight := List.insert (MID best) (inFlight q1)\<rparr>))"

subsection \<open>One attempt\<close>

definition upd_msg :: "nat \<Rightarrow> (outboundMessage \<Rightarrow> outboundMessage) \<Rightarrow> OutboundQueue \<Rightarrow> OutboundQueue" where
  "upd_msg r f q = q\<lparr>pending := map (\<lambda>m. if mref m = r then f m else m) (pending q)\<rparr>"

definition attempt_begin :: "outboundMessage \<Rightarrow> OutboundQueue \<Rightarrow> outboundMessage \<times> OutboundQueue" where
  "attempt_begin m q = (let f = (\<lambda>x. x\<lparr>Attempts := Attempts x + 1\<rparr>) in (f m, upd_msg (mref m) f q))"

fun backoff_loop :: "nat \<Rightarrow> duration \<Rightarrow> duration" where
  "backoff_loop 0 wait = wait"
| "backoff_loop (Suc n) wait = (if wait < maxRetryBackoff then backoff_loop n (wait * 2) else wait)"

definition backoffWait :: "OutboundQueue \<Rightarrow> int \<Rightarrow> duration" where
  "backoffWait q attempts =
     (let wait = backoff_loop (nat (attempts - 1)) (retryWait q) in
      if wait > maxRetryBackoff then maxRetryBackoff else wait)"

definition failLocked :: "nat \<Rightarrow> OutboundQueue \<Rightarrow> OutboundQueue" where
  "failLocked r q = persistQueue (removeLocked r q)"

definition failStampCostLocked :: "nat \<Rightarrow> OutboundQueue \<Rightarrow> OutboundQueue" where
  "failStampCostLocked r q = persistQueue (removeLocked r q)"

definition register_sent :: "outboundMessage \<Rightarrow> send_result \<Rightarrow> time \<Rightarrow> OutboundQueue \<Rightarrow> OutboundQueue" where
  "register_sent m res now q = (case (res, MBubble m, qidmap q) of
      (Sent msgID, Some b, Some c) \<Rightarrow>
        if msgID = [] then q
        else q\<lparr>qidmap := Some (RegisterView (Some b) (EncodeToString (Recipient m)) (EncodeToString msgID) now c)\<rparr>
    | _ \<Rightarrow> q)"

definition record_failure :: "outboundMessage \<Rightarrow> bool \<Rightarrow> bool \<Rightarrow> time \<Rightarrow> OutboundQueue \<Rightarrow> bytes option \<times> OutboundQueue" where
  "record_failure m unknown hasNode now q =
     (if propagationFallback q \<and> \<not> Propagated m \<and> Attempts m \<ge> directBudget q \<and> hasNode
      then (None, persistQueue (upd_msg (mref m)
             (\<lambda>x. x\<lparr>Propagated := True, Attempts := 0, NextAttempt := now + retryWait q\<rparr>) q))
      else if Attempts m \<ge> maxAttempts q then (None, failLocked (mref m) q)
      else if unknown \<and> Attempts m > pathlessTries q
      then (Some (Recipient m), persistQueue (upd_msg (mref m) (\<lambda>x. x\<lparr>NextAttempt := now + pathRequestWait q\<rparr>) q))
      else (None, persistQueue (upd_msg (mref m) (\<lambda>x. x\<lparr>NextAttempt := now + backoffWait q (Attempts m)\<rparr>) q)))"

text \<open>
  The part of \<^verbatim>\<open>attempt\<close> after the send: \<open>m\<close> is the message as the worker holds it, and the first component of
  the result is the recipient a path is requested for.
\<close>

definition attempt_end :: "outboundMessage \<Rightarrow> send_result \<Rightarrow> bool \<Rightarrow> time \<Rightarrow> OutboundQueue \<Rightarrow> bytes option \<times> OutboundQueue" where
  "attempt_end m res hasNode now q0 =
     (let q = register_sent m res now q0;
          (path, q') = (case res of
             Sent _ \<Rightarrow> (None, persistQueue (removeLocked (mref m) q))
           | NoPropagationNode \<Rightarrow> (None, persistQueue (upd_msg (mref m)
               (\<lambda>x. x\<lparr>Attempts := Attempts x - 1, NextAttempt := now + retryWait q\<rparr>) q))
           | StampWorkersBusy \<Rightarrow> (None, persistQueue (upd_msg (mref m)
               (\<lambda>x. x\<lparr>Attempts := Attempts x - 1, NextAttempt := now + retryWait q\<rparr>) q))
           | StampCostTooHigh \<Rightarrow> (None, failStampCostLocked (mref m) q)
           | RecipientUnknown \<Rightarrow> record_failure m True hasNode now q
           | SendFailed _ \<Rightarrow> record_failure m False hasNode now q)
      in (path, q'\<lparr>inFlight := removeAll (MID m) (inFlight q')\<rparr>))"

subsection \<open>Flushing\<close>

definition Flush_take :: "OutboundQueue \<Rightarrow> outboundMessage list option \<times> OutboundQueue" where
  "Flush_take q =
     (if qstore q = None \<or> \<not> qdirty q then (None, q)
      else (Some (map stored_msg (pending q)), q\<lparr>qdirty := False\<rparr>))"

definition Flush_put :: "outboundMessage list \<Rightarrow> OutboundQueue \<Rightarrow> OutboundQueue" where
  "Flush_put snapshot q = (case qstore q of
      None \<Rightarrow> q
    | Some f \<Rightarrow> (case Save snapshot f of
          (None, f') \<Rightarrow> q\<lparr>qstore := Some f'\<rparr>
        | (Some e, f') \<Rightarrow> q\<lparr>qstore := Some f', qdirty := True\<rparr>))"

definition FlushQueue :: "OutboundQueue \<Rightarrow> OutboundQueue" where
  "FlushQueue q = (case Flush_take q of (None, q') \<Rightarrow> q' | (Some snapshot, q') \<Rightarrow> Flush_put snapshot q')"

end
