(* ===== verification/Propagation.thy ===== *)
theory Propagation
  imports Outbound
begin

text \<open>
  \<^verbatim>\<open>internal/service/propagation.go\<close>: which propagation node store-and-forward mail goes to; and the adapter
  \<^verbatim>\<open>deliverySender\<close> of \<^verbatim>\<open>outbound.go\<close> that hands a message to the network directly or through such a node. The
  network library is an argument throughout: what it parsed from an announce, what it knows of a destination,
  how a send went.
\<close>

subsection \<open>The table of nodes\<close>

record NodeInfo =
  Enabled :: bool
  StampCost :: int
  PerTransferLimitKB :: int

record propagationNodeState =
  destHash :: bytes
  firstHeard :: time
  lastHeard :: time
  enabled :: bool
  stampCost :: int
  transferLimitKB :: int
  usable :: bool

record propagationTracker =
  pinned :: bytes
  nodes :: "(string, propagationNodeState) gmap"

definition maxTrackedNodes :: nat where "maxTrackedNodes = 256"
definition nodeStaleAfter :: duration where "nodeStaleAfter = 30 * Minute"
definition minTransferLimitKB :: int where "minTransferLimitKB = 16"

definition newPropagationTracker :: "bytes \<Rightarrow> propagationTracker" where
  "newPropagationTracker p = \<lparr>pinned = p, nodes = []\<rparr>"

text \<open>\<open>maxStamp\<close> is \<^verbatim>\<open>lxmf.MaxPropagationStampCost\<close>.\<close>

definition acceptableNode :: "int \<Rightarrow> NodeInfo \<Rightarrow> bool \<times> string" where
  "acceptableNode maxStamp i =
     (if \<not> Enabled i then (False, ''not accepting messages'')
      else if StampCost i > maxStamp
      then (False, ''demands stamp_cost '' @ Itoa (StampCost i) @ '' above local limit '' @ Itoa maxStamp)
      else if PerTransferLimitKB i > 0 \<and> PerTransferLimitKB i < minTransferLimitKB
      then (False, ''per-transfer limit '' @ Itoa (PerTransferLimitKB i) @ ''KB is implausibly small'')
      else (True, []))"

definition stale :: "time \<Rightarrow> propagationNodeState \<Rightarrow> bool" where
  "stale now n \<longleftrightarrow> time_sub now (lastHeard n) > nodeStaleAfter"

definition oldest_step :: "string \<times> propagationNodeState \<Rightarrow> string \<times> time \<Rightarrow> string \<times> time" where
  "oldest_step kn acc = (case kn of (k, n) \<Rightarrow> case acc of (oldestKey, oldestAt) \<Rightarrow>
     if oldestKey = [] \<or> lastHeard n < oldestAt then (k, lastHeard n) else (oldestKey, oldestAt))"

definition oldestKey :: "(string, propagationNodeState) gmap \<Rightarrow> string" where
  "oldestKey m = fst (fold oldest_step m ([], 0))"

lemma oldest_fold_mem: "fst (fold oldest_step m acc) \<in> insert (fst acc) (fst ` set m)"
proof (induction m arbitrary: acc)
  case (Cons kn m)
  from Cons [of "oldest_step kn acc"] show ?case by (cases kn; cases acc) (auto simp: oldest_step_def split: if_splits)
qed simp

lemma oldestKey_mem: "oldestKey m \<noteq> [] \<Longrightarrow> oldestKey m \<in> fst ` set m"
  using oldest_fold_mem [of m "([], 0)"] by (simp add: oldestKey_def)

lemma length_gdel_mem: "k \<in> fst ` set m \<Longrightarrow> length (gdel k m) < length m"
  unfolding gdel_filter by (auto intro: length_filter_less)

function evict_loop :: "(string, propagationNodeState) gmap \<Rightarrow> (string, propagationNodeState) gmap" where
  "evict_loop m =
     (if length m \<ge> maxTrackedNodes then (if oldestKey m = [] then m else evict_loop (gdel (oldestKey m) m)) else m)"
  by pat_completeness auto
termination
  by (relation "measure length") (simp_all add: length_gdel_mem oldestKey_mem)

declare evict_loop.simps [simp del]

definition evictStale :: "time \<Rightarrow> (string, propagationNodeState) gmap \<Rightarrow> (string, propagationNodeState) gmap" where
  "evictStale now m = evict_loop (filter (\<lambda>(k, n). \<not> stale now n) m)"

text \<open>\<open>info\<close> is what \<^verbatim>\<open>lxmf.ParsePropagationNodeAppData\<close> made of the announce, \<open>None\<close> for an error.\<close>

definition OnAnnounce_node :: "int \<Rightarrow> NodeInfo option \<Rightarrow> bytes \<Rightarrow> time \<Rightarrow> propagationTracker \<Rightarrow> propagationTracker" where
  "OnAnnounce_node maxStamp info hash now t = (case info of
      None \<Rightarrow> t
    | Some i \<Rightarrow>
        (let key = EncodeToString hash;
             prev = map_of (nodes t) key;
             first = (case prev of Some p \<Rightarrow> firstHeard p | None \<Rightarrow> now);
             m = (case prev of Some p \<Rightarrow> nodes t | None \<Rightarrow> evictStale now (nodes t))
         in t\<lparr>nodes := gput key \<lparr>destHash = hash, firstHeard = first, lastHeard = now, enabled = Enabled i,
              stampCost = StampCost i, transferLimitKB = PerTransferLimitKB i, usable = fst (acceptableNode maxStamp i)\<rparr> m\<rparr>))"

definition candidate :: "time \<Rightarrow> propagationNodeState \<Rightarrow> bool" where
  "candidate now n \<longleftrightarrow> \<not> (\<not> usable n \<or> time_sub now (lastHeard n) > nodeStaleAfter)"

definition current_step :: "time \<Rightarrow> string \<times> propagationNodeState \<Rightarrow> propagationNodeState option \<Rightarrow> propagationNodeState option" where
  "current_step now kn best =
     (if \<not> candidate now (snd kn) then best
      else case best of None \<Rightarrow> Some (snd kn)
        | Some b \<Rightarrow> if firstHeard (snd kn) < firstHeard b then Some (snd kn) else Some b)"

definition CurrentNode :: "time \<Rightarrow> propagationTracker \<Rightarrow> bytes option" where
  "CurrentNode now t =
     (if pinned t \<noteq> [] then Some (pinned t)
      else map_option destHash (fold (current_step now) (nodes t) None))"

subsection \<open>Handing a message to the network\<close>

text \<open>
  What the library answers, as far as the service tells the errors apart: \<open>Recall\<close> is \<^verbatim>\<open>Transport.Recall\<close>,
  \<open>decodeStampCost\<close> and \<open>decodeDisplayName\<close> read an announce, \<open>sendWithID\<close> and \<open>sendPropagated\<close> are
  \<^verbatim>\<open>Delivery.SendWithID\<close> and \<^verbatim>\<open>Delivery.SendPropagated\<close>, \<open>ActiveTo\<close> is whether the link manager has an open
  link, and the last three build and broadcast an announce.
\<close>

datatype lib_error = ErrRecipientUnknown | ErrLinkPeerUnknown | ErrStampCostTooHigh | ErrPropagationNodeUnknown | ErrLib string

record Known =
  AppData :: bytes
  LastSeenAt :: time
  KHops :: int
  TransportID :: bytes

record network =
  Recall :: "bytes \<Rightarrow> Known option"
  decodeStampCost :: "bytes \<Rightarrow> int option"
  DisableOutboundStamps :: bool
  MaxStampCost :: int
  MaxDeliveryStampCost :: int
  sendWithID :: "bytes \<Rightarrow> bytes \<Rightarrow> fieldmap \<Rightarrow> lib_error + bytes"
  sendPropagated :: "bytes \<Rightarrow> bytes \<Rightarrow> bytes \<Rightarrow> fieldmap \<Rightarrow> lib_error + bytes"
  decodeDisplayName :: "bytes \<Rightarrow> bytes option"
  ActiveTo :: "bytes \<Rightarrow> bool"
  encodeAppData :: "bytes \<Rightarrow> int option \<Rightarrow> string + bytes"
  buildPacket :: "bytes \<Rightarrow> string + bytes"
  Broadcast :: "bytes \<Rightarrow> string option"

definition maxConcurrentPropagationSends :: nat where "maxConcurrentPropagationSends = 3"
definition maxConcurrentStampGrinds :: nat where "maxConcurrentStampGrinds = 3"

definition isRecipientUnknown :: "lib_error \<Rightarrow> bool" where
  "isRecipientUnknown e \<longleftrightarrow> e = ErrRecipientUnknown \<or> e = ErrLinkPeerUnknown"

text \<open>How \<^verbatim>\<open>attempt\<close> tells the library's errors apart.\<close>

definition outcome_of :: "lib_error + bytes \<Rightarrow> send_result" where
  "outcome_of r = (case r of
      Inr i \<Rightarrow> Sent i
    | Inl e \<Rightarrow> if e = ErrStampCostTooHigh then StampCostTooHigh
        else if isRecipientUnknown e then RecipientUnknown else SendFailed [])"

definition willGrindStamp :: "network \<Rightarrow> bytes \<Rightarrow> bool" where
  "willGrindStamp d recipient =
     (if DisableOutboundStamps d then False
      else case Recall d recipient of
        None \<Rightarrow> False
      | Some known \<Rightarrow>
          (case decodeStampCost d (AppData known) of
             None \<Rightarrow> False
           | Some cost \<Rightarrow>
               if cost \<le> 0 then False
               else cost \<le> (if MaxStampCost d \<le> 0 then MaxDeliveryStampCost d else MaxStampCost d)))"

text \<open>\<open>grinding\<close> and \<open>uploading\<close> are how many workers hold a slot of the two semaphores when the call is made.\<close>

definition SendLXMF :: "network \<Rightarrow> nat \<Rightarrow> bytes \<Rightarrow> bytes \<Rightarrow> fieldmap \<Rightarrow> send_result" where
  "SendLXMF d grinding recipient body flds =
     (if willGrindStamp d recipient \<and> grinding \<ge> maxConcurrentStampGrinds then StampWorkersBusy
      else outcome_of (sendWithID d recipient body flds))"

text \<open>The first component is the node a path is requested for.\<close>

definition SendLXMFPropagated ::
  "network \<Rightarrow> propagationTracker option \<Rightarrow> time \<Rightarrow> nat \<Rightarrow> bytes \<Rightarrow> bytes \<Rightarrow> fieldmap \<Rightarrow> bytes option \<times> send_result"
where
  "SendLXMFPropagated d nodesOpt now uploading recipient body flds = (case nodesOpt of
      None \<Rightarrow> (None, NoPropagationNode)
    | Some t \<Rightarrow>
        (case CurrentNode now t of
           None \<Rightarrow> (None, NoPropagationNode)
         | Some node \<Rightarrow>
             if uploading \<ge> maxConcurrentPropagationSends then (None, NoPropagationNode)
             else (let r = sendPropagated d node recipient body flds in
                   (if r = Inl ErrPropagationNodeUnknown then Some node else None, outcome_of r))))"

definition HasPropagationNode :: "propagationTracker option \<Rightarrow> time \<Rightarrow> bool" where
  "HasPropagationNode nodesOpt now = (case nodesOpt of None \<Rightarrow> False | Some t \<Rightarrow> CurrentNode now t \<noteq> None)"

definition LastAnnounceFor :: "network \<Rightarrow> bytes \<Rightarrow> time option" where
  "LastAnnounceFor d recipient = map_option LastSeenAt (Recall d recipient)"

subsection \<open>Selection\<close>

lemma current_fold:
  "case fold (current_step now) m best of
     None \<Rightarrow> best = None \<and> (\<forall>(k, n) \<in> set m. \<not> candidate now n)
   | Some b \<Rightarrow> (best = Some b \<or> (\<exists>k. (k, b) \<in> set m \<and> candidate now b)) \<and>
       (\<forall>(k, n) \<in> set m. candidate now n \<longrightarrow> firstHeard b \<le> firstHeard n) \<and> (\<forall>c. best = Some c \<longrightarrow> firstHeard b \<le> firstHeard c)"
proof (induction m arbitrary: best)
  case Nil
  then show ?case by (cases best) auto
next
  case (Cons kn m)
  obtain k n where kn: "kn = (k, n)" by (cases kn)
  define cs where "cs = current_step now kn best"
  have step: "cs = (if \<not> candidate now n then best else case best of None \<Rightarrow> Some n
      | Some b \<Rightarrow> if firstHeard n < firstHeard b then Some n else Some b)" by (cases best) (simp_all add: cs_def current_step_def kn)
  have f: "fold (current_step now) (kn # m) best = fold (current_step now) m cs" by (simp add: cs_def)
  show ?case
  proof (cases "fold (current_step now) m cs")
    case None
    with Cons [of cs] show ?thesis unfolding f by (cases best) (auto simp: kn step split: if_splits)
  next
    case (Some b)
    note IH = Cons [of cs, unfolded Some, simplified]
    show ?thesis
    proof (cases "candidate now n")
      case False
      with IH show ?thesis unfolding f Some by (auto simp: kn step)
    next
      case True
      then show ?thesis unfolding f Some using IH by (cases best) (auto simp: kn step split: if_splits)
    qed
  qed
qed

lemma oldest_fold_min:
  assumes "[] \<notin> fst ` set m" and "m \<noteq> [] \<or> k0 \<noteq> []"
  shows "fst (fold oldest_step m (k0, t0)) \<noteq> [] \<and>
    (\<forall>(k, n) \<in> set m. snd (fold oldest_step m (k0, t0)) \<le> lastHeard n) \<and> (k0 \<noteq> [] \<longrightarrow> snd (fold oldest_step m (k0, t0)) \<le> t0) \<and>
    (fold oldest_step m (k0, t0) = (k0, t0) \<or> (\<exists>(k, n) \<in> set m. fold oldest_step m (k0, t0) = (k, lastHeard n)))"
  using assms
proof (induction m arbitrary: k0 t0)
  case (Cons kn m)
  obtain k n where kn: "kn = (k, n)" by (cases kn)
  obtain k1 t1 where s: "oldest_step kn (k0, t0) = (k1, t1)" by (cases "oldest_step kn (k0, t0)")
  then have k1: "k1 \<noteq> []" using Cons.prems kn by (auto simp: oldest_step_def split: if_splits)
  have t1: "t1 \<le> lastHeard n" "k0 \<noteq> [] \<longrightarrow> t1 \<le> t0" "(k1, t1) = (k0, t0) \<or> (k1, t1) = (k, lastHeard n)"
    using s kn by (auto simp: oldest_step_def split: if_splits)
  have IH: "fst (fold oldest_step m (k1, t1)) \<noteq> [] \<and> (\<forall>(k, n) \<in> set m. snd (fold oldest_step m (k1, t1)) \<le> lastHeard n) \<and>
      snd (fold oldest_step m (k1, t1)) \<le> t1 \<and>
      (fold oldest_step m (k1, t1) = (k1, t1) \<or> (\<exists>(k, n) \<in> set m. fold oldest_step m (k1, t1) = (k, lastHeard n)))"
    using Cons.IH [of k1 t1] Cons.prems k1 by auto
  then show ?case using s kn t1 by auto
qed simp

text \<open>The loop only removes entries at least as old as every one that stays.\<close>

lemma oldestKey_min:
  assumes "gmap_ok m" and "[] \<notin> fst ` set m" and "m \<noteq> []"
  shows "\<exists>n. map_of m (oldestKey m) = Some n \<and> (\<forall>(k, n') \<in> set m. lastHeard n \<le> lastHeard n')"
proof -
  note o = oldest_fold_min [OF assms(2) disjI1 [OF assms(3)], of "[]" 0]
  from o have "fold oldest_step m ([], 0) \<noteq> ([], 0)" by (cases "fold oldest_step m ([], 0)") auto
  with o obtain k n where kn: "(k, n) \<in> set m" "fold oldest_step m ([], 0) = (k, lastHeard n)" by auto
  with o assms(1) show ?thesis by (intro exI [of _ n]) (auto simp: oldestKey_def gmap_ok_def)
qed

subsection \<open>The table over time\<close>

definition tracker_ok :: "(string, propagationNodeState) gmap \<Rightarrow> bool" where
  "tracker_ok m \<longleftrightarrow> gmap_ok m \<and> [] \<notin> fst ` set m \<and> length m \<le> maxTrackedNodes"

lemma evict_loop_ok:
  "gmap_ok m \<Longrightarrow> [] \<notin> fst ` set m \<Longrightarrow>
     gmap_ok (evict_loop m) \<and> [] \<notin> fst ` set (evict_loop m) \<and> set (evict_loop m) \<subseteq> set m \<and> length (evict_loop m) < maxTrackedNodes"
proof (induction m rule: evict_loop.induct)
  case (1 m)
  show ?case
  proof (cases "length m \<ge> maxTrackedNodes")
    case big: True
    then have ne: "m \<noteq> []" by (auto simp: maxTrackedNodes_def)
    with oldest_fold_min [OF 1(3) disjI1 [OF ne], of "[]" 0] have o: "oldestKey m \<noteq> []" by (simp add: oldestKey_def)
    have sub: "set (gdel (oldestKey m) m) \<subseteq> set m" by (auto simp: gdel_filter)
    have nk: "[] \<notin> fst ` set (gdel (oldestKey m) m)" using 1(3) by simp
    note IH = 1(1) [OF big o gmap_ok_gdel [OF 1(2)] nk]
    moreover have "evict_loop m = evict_loop (gdel (oldestKey m) m)" using big o by (subst evict_loop.simps) simp
    ultimately show ?thesis using sub by auto
  qed (use 1 in \<open>simp add: evict_loop.simps [of m]\<close>)
qed

text \<open>While an entry stays, no entry heard later is evicted.\<close>

lemma evict_loop_order:
  "gmap_ok m \<Longrightarrow> [] \<notin> fst ` set m \<Longrightarrow> (k0, n0) \<in> set (evict_loop m) \<Longrightarrow> (k, n) \<in> set m \<Longrightarrow> lastHeard n0 < lastHeard n \<Longrightarrow>
     (k, n) \<in> set (evict_loop m)"
proof (induction m rule: evict_loop.induct)
  case (1 m)
  show ?case
  proof (cases "length m \<ge> maxTrackedNodes \<and> oldestKey m \<noteq> []")
    case True
    then have ne: "m \<noteq> []" by (auto simp: maxTrackedNodes_def)
    have e: "evict_loop m = evict_loop (gdel (oldestKey m) m)" using True by (subst evict_loop.simps) simp
    have ok': "gmap_ok (gdel (oldestKey m) m)" "[] \<notin> fst ` set (gdel (oldestKey m) m)"
      using 1(2,3) by (simp_all add: gmap_ok_gdel)
    have m0: "(k0, n0) \<in> set m" using 1(4) evict_loop_ok [OF ok'] e by (auto simp: gdel_filter)
    obtain no where no: "map_of m (oldestKey m) = Some no" "\<forall>(k, n') \<in> set m. lastHeard no \<le> lastHeard n'"
      using oldestKey_min [OF 1(2,3) ne] by auto
    with m0 have "lastHeard no \<le> lastHeard n0" by auto
    moreover have "map_of m k = Some n" using 1(2,5) by (simp add: gmap_ok_def)
    ultimately have "k \<noteq> oldestKey m" using 1(6) no(1) by auto
    then have "(k, n) \<in> set (gdel (oldestKey m) m)" using 1(5) by (simp add: gdel_filter)
    then show ?thesis using 1(1) [OF _ _ ok'] True 1(4,6) e by simp
  next
    case False
    then have "evict_loop m = m" by (subst evict_loop.simps) auto
    with 1(5) show ?thesis by simp
  qed
qed

lemma evictStale_ok:
  assumes "tracker_ok m"
  shows "gmap_ok (evictStale now m)" "[] \<notin> fst ` set (evictStale now m)" "length (evictStale now m) < maxTrackedNodes"
    "set (evictStale now m) \<subseteq> set m"
proof -
  have "gmap_ok (filter (\<lambda>(k, n). \<not> stale now n) m)" "[] \<notin> fst ` set (filter (\<lambda>(k, n). \<not> stale now n) m)"
    using assms by (auto simp: tracker_ok_def intro: gmap_ok_filter)
  note e = evict_loop_ok [OF this]
  then show "gmap_ok (evictStale now m)" "[] \<notin> fst ` set (evictStale now m)" "length (evictStale now m) < maxTrackedNodes"
    "set (evictStale now m) \<subseteq> set m" by (auto simp: evictStale_def)
qed

lemma OnAnnounce_node_ok:
  assumes "tracker_ok (nodes t)" and "hash \<noteq> []"
  shows "tracker_ok (nodes (OnAnnounce_node maxStamp info hash now t))"
proof (cases info)
  case (Some i)
  have k: "EncodeToString hash \<noteq> []" using assms(2) length_EncodeToString [of hash] by fastforce
  show ?thesis
  proof (cases "map_of (nodes t) (EncodeToString hash)")
    case None
    note e = evictStale_ok [OF assms(1), of now]
    from e(4) None have "EncodeToString hash \<notin> fst ` set (evictStale now (nodes t))" by (auto simp: map_of_eq_None_iff)
    with e k Some None show ?thesis by (auto simp: OnAnnounce_node_def tracker_ok_def Let_def length_gput gmap_ok_gput)
  next
    case (Some p)
    then have "EncodeToString hash \<in> fst ` set (nodes t)" by (metis map_of_eq_None_iff option.distinct(1))
    with \<open>info = Some i\<close> Some assms(1) k show ?thesis
      by (auto simp: OnAnnounce_node_def tracker_ok_def Let_def length_gput gmap_ok_gput)
  qed
qed (use assms in \<open>simp add: OnAnnounce_node_def\<close>)

text \<open>A run of announces: what was parsed, from which destination, when.\<close>

type_synonym node_announce = "NodeInfo option \<times> bytes \<times> time"

definition hear :: "int \<Rightarrow> node_announce \<Rightarrow> propagationTracker \<Rightarrow> propagationTracker" where
  "hear maxStamp a t = OnAnnounce_node maxStamp (fst a) (fst (snd a)) (snd (snd a)) t"

definition hear_all :: "int \<Rightarrow> node_announce list \<Rightarrow> propagationTracker \<Rightarrow> propagationTracker" where
  "hear_all maxStamp = fold (hear maxStamp)"

lemma hear_all_ok:
  "tracker_ok (nodes t) \<Longrightarrow> list_all (\<lambda>a. fst (snd a) \<noteq> []) as \<Longrightarrow> tracker_ok (nodes (hear_all maxStamp as t))"
  by (induction as arbitrary: t) (auto simp: hear_all_def hear_def intro: OnAnnounce_node_ok)

lemma tracker_ok_new: "tracker_ok (nodes (newPropagationTracker p))"
  by (simp add: tracker_ok_def newPropagationTracker_def)

lemma pinned_hear_all [simp]: "pinned (hear_all maxStamp as t) = pinned t"
  by (induction as arbitrary: t) (auto simp: hear_all_def hear_def OnAnnounce_node_def Let_def split: option.split)

text \<open>
  Since when a node is known: at the announce of time \<open>at\<close> it was not in the table, and ever since that announce it was.
  And what the last announce of it that could be parsed said.
\<close>

definition tracked_since :: "int \<Rightarrow> node_announce list \<Rightarrow> propagationTracker \<Rightarrow> bytes \<Rightarrow> time \<Rightarrow> bool" where
  "tracked_since maxStamp as t0 h at \<longleftrightarrow> (\<exists>xs i ys. as = xs @ (Some i, h, at) # ys \<and>
     map_of (nodes (hear_all maxStamp xs t0)) (EncodeToString h) = None \<and>
     (\<forall>zs. prefix zs ys \<longrightarrow> map_of (nodes (hear_all maxStamp (xs @ (Some i, h, at) # zs) t0)) (EncodeToString h) \<noteq> None))"

definition last_announced :: "node_announce list \<Rightarrow> bytes \<Rightarrow> time \<Rightarrow> NodeInfo \<Rightarrow> bool" where
  "last_announced as h at i \<longleftrightarrow> (\<exists>xs ys. as = xs @ (Some i, h, at) # ys \<and> (\<forall>a \<in> set ys. fst a = None \<or> fst (snd a) \<noteq> h))"

lemma hear_all_snoc: "hear_all maxStamp (as @ [a]) t = hear maxStamp a (hear_all maxStamp as t)"
  by (simp add: hear_all_def)

lemma tracked_since_more:
  assumes "tracked_since maxStamp as t0 h at" and "map_of (nodes (hear_all maxStamp (as @ [a]) t0)) (EncodeToString h) \<noteq> None"
  shows "tracked_since maxStamp (as @ [a]) t0 h at"
proof -
  obtain xs i ys where x: "as = xs @ (Some i, h, at) # ys" "map_of (nodes (hear_all maxStamp xs t0)) (EncodeToString h) = None"
      "\<forall>zs. prefix zs ys \<longrightarrow> map_of (nodes (hear_all maxStamp (xs @ (Some i, h, at) # zs) t0)) (EncodeToString h) \<noteq> None"
    using assms(1) unfolding tracked_since_def by blast
  then show ?thesis
    unfolding tracked_since_def using assms(2)
    by (intro exI [of _ xs] exI [of _ i] exI [of _ "ys @ [a]"]) (auto simp: prefix_snoc)
qed

lemma tracked_since_new:
  assumes "map_of (nodes (hear_all maxStamp as t0)) (EncodeToString h) = None"
  shows "tracked_since maxStamp (as @ [(Some i, h, at)]) t0 h at"
proof -
  have "map_of (nodes (hear_all maxStamp (as @ [(Some i, h, at)]) t0)) (EncodeToString h) \<noteq> None"
    using assms by (simp add: hear_all_snoc hear_def OnAnnounce_node_def Let_def map_of_gput)
  with assms show ?thesis
    unfolding tracked_since_def by (intro exI [of _ as] exI [of _ i] exI [of _ "[]"]) auto
qed

lemma last_announced_more: "last_announced as h at i \<Longrightarrow> fst a = None \<or> fst (snd a) \<noteq> h \<Longrightarrow> last_announced (as @ [a]) h at i"
  unfolding last_announced_def by (elim exE conjE, rule exI, rule_tac x = "ys @ [a]" in exI) auto

lemma last_announced_new: "last_announced (as @ [(Some i, h, at)]) h at i"
  unfolding last_announced_def by (intro exI [of _ as] exI [of _ "[]"]) simp

text \<open>Every entry of the table says since when its node is known and what it announced last.\<close>

definition entry_true :: "int \<Rightarrow> node_announce list \<Rightarrow> propagationTracker \<Rightarrow> string \<Rightarrow> propagationNodeState \<Rightarrow> bool" where
  "entry_true maxStamp as t0 k n \<longleftrightarrow> k = EncodeToString (destHash n) \<and> tracked_since maxStamp as t0 (destHash n) (firstHeard n) \<and>
     (\<exists>i. last_announced as (destHash n) (lastHeard n) i \<and> usable n = fst (acceptableNode maxStamp i))"

lemma entry_true_more:
  assumes "entry_true maxStamp as t0 k n" and "map_of (nodes (hear_all maxStamp (as @ [a]) t0)) k \<noteq> None"
    and "fst a = None \<or> fst (snd a) \<noteq> destHash n"
  shows "entry_true maxStamp (as @ [a]) t0 k n"
  using assms by (auto simp: entry_true_def intro: tracked_since_more last_announced_more)

lemma hear_entries:
  assumes "tracker_ok (nodes t)" and "(k, n) \<in> set (nodes (hear maxStamp (Some i, h, at) t))"
  shows "if k = EncodeToString h
    then destHash n = h \<and> lastHeard n = at \<and> usable n = fst (acceptableNode maxStamp i) \<and>
      firstHeard n = (case map_of (nodes t) k of Some p \<Rightarrow> firstHeard p | None \<Rightarrow> at)
    else (k, n) \<in> set (nodes t)"
proof -
  note e = evictStale_ok [OF assms(1), of at]
  have g: "gmap_ok (nodes t)" using assms(1) by (simp add: tracker_ok_def)
  show ?thesis
    using assms(2) e(4)
    by (cases "map_of (nodes t) (EncodeToString h)")
      (auto simp: hear_def OnAnnounce_node_def Let_def set_gput [OF g] set_gput [OF e(1)])
qed

lemma entries_true:
  assumes "list_all (\<lambda>a. fst (snd a) \<noteq> []) as"
  shows "\<forall>(k, n) \<in> set (nodes (hear_all maxStamp as (newPropagationTracker p))). entry_true maxStamp as (newPropagationTracker p) k n"
  using assms
proof (induction as rule: rev_induct)
  case Nil
  then show ?case by (simp add: hear_all_def newPropagationTracker_def)
next
  case (snoc a as)
  let ?start = "newPropagationTracker p"
  let ?t = "hear_all maxStamp as ?start"
  have ok: "tracker_ok (nodes ?t)" using snoc.prems hear_all_ok [OF tracker_ok_new] by simp
  have IH: "entry_true maxStamp as ?start k n" if "(k, n) \<in> set (nodes ?t)" for k n using snoc that by auto
  obtain io h at where a: "a = (io, h, at)" by (cases a)
  have "entry_true maxStamp (as @ [a]) ?start k n" if kn: "(k, n) \<in> set (nodes (hear maxStamp a ?t))" for k n
  proof -
    have there: "map_of (nodes (hear_all maxStamp (as @ [a]) ?start)) k \<noteq> None"
      unfolding hear_all_snoc map_of_eq_None_iff using kn by force
    show ?thesis
    proof (cases io)
      case None
      then have "(k, n) \<in> set (nodes ?t)" using kn a by (simp add: hear_def OnAnnounce_node_def)
      from entry_true_more [OF IH [OF this] there] show ?thesis using None a by simp
    next
      case (Some i)
      note h = hear_entries [OF ok kn [unfolded a Some]]
      show ?thesis
      proof (cases "k = EncodeToString h")
        case False
        with h have in_t: "(k, n) \<in> set (nodes ?t)" by simp
        then have "destHash n \<noteq> h" using IH False by (auto simp: entry_true_def)
        with entry_true_more [OF IH [OF in_t] there] show ?thesis using a by simp
      next
        case True
        with h have n: "destHash n = h" "lastHeard n = at" "usable n = fst (acceptableNode maxStamp i)"
            "firstHeard n = (case map_of (nodes ?t) k of Some p \<Rightarrow> firstHeard p | None \<Rightarrow> at)" by auto
        have "tracked_since maxStamp (as @ [a]) ?start h (firstHeard n)"
        proof (cases "map_of (nodes ?t) k")
          case None
          with n(4) tracked_since_new [of maxStamp as ?start h i at] True show ?thesis by (simp add: a Some)
        next
          case (Some q)
          then have q: "entry_true maxStamp as ?start k q" by (intro IH map_of_SomeD)
          then have "destHash q = h" using True EncodeToString_inj by (auto simp: entry_true_def)
          with q Some n(4) True there show ?thesis by (auto simp: entry_true_def intro: tracked_since_more)
        qed
        with n True show ?thesis
          using last_announced_new [of as i h at] by (auto simp: entry_true_def a Some)
      qed
    qed
  qed
  then show ?case by (auto simp: hear_all_snoc)
qed

text \<open>
  C37: After any run of announces the tracker holds at most 256 nodes, and every entry is true to the run: its node has been in
  the table without a break since the announce heard at \<open>firstHeard\<close>, when it was not, and \<open>lastHeard\<close> and \<open>usable\<close> are those of its
  last announce that could be parsed. The choice is as the README has it: the pinned node
  if there is one; otherwise a node that is usable, was heard within the last thirty minutes and that no other such
  node has been known longer; and none exactly when there is no such node. (The comment on \<^verbatim>\<open>Node\<close> in \<^verbatim>\<open>config.go\<close>, line 65, still
  says that the most recently heard node is selected, which was the policy before.)
\<close>
theorem longest_known_wins:
  assumes "list_all (\<lambda>a. fst (snd a) \<noteq> []) as" and "t = hear_all maxStamp as (newPropagationTracker p)"
  shows "length (nodes t) \<le> 256 \<and>
    (\<forall>(k, n) \<in> set (nodes t). k = EncodeToString (destHash n) \<and>
       tracked_since maxStamp as (newPropagationTracker p) (destHash n) (firstHeard n) \<and>
       (\<exists>i. last_announced as (destHash n) (lastHeard n) i \<and> usable n = fst (acceptableNode maxStamp i))) \<and>
    (case CurrentNode now t of
       None \<Rightarrow> p = [] \<and> (\<forall>(k, n) \<in> set (nodes t). \<not> usable n \<or> now - lastHeard n > nodeStaleAfter)
     | Some h \<Rightarrow> if p \<noteq> [] then h = p
         else \<exists>k n. (k, n) \<in> set (nodes t) \<and> h = destHash n \<and> usable n \<and> now - lastHeard n \<le> nodeStaleAfter \<and>
           (\<forall>(k', n') \<in> set (nodes t). usable n' \<and> now - lastHeard n' \<le> nodeStaleAfter \<longrightarrow> firstHeard n \<le> firstHeard n'))"
proof -
  have ok: "tracker_ok (nodes t)" using assms hear_all_ok [OF tracker_ok_new] by simp
  have et: "\<forall>(k, n) \<in> set (nodes t). k = EncodeToString (destHash n) \<and>
       tracked_since maxStamp as (newPropagationTracker p) (destHash n) (firstHeard n) \<and>
       (\<exists>i. last_announced as (destHash n) (lastHeard n) i \<and> usable n = fst (acceptableNode maxStamp i))"
    using entries_true [OF assms(1), unfolded entry_true_def] assms(2) by simp
  have p: "pinned t = p" using assms(2) by (simp add: newPropagationTracker_def)
  have cand: "candidate now n \<longleftrightarrow> usable n \<and> now - lastHeard n \<le> nodeStaleAfter" for n
    using time_sub_greater_iff [of nodeStaleAfter now "lastHeard n"]
    by (auto simp: candidate_def nodeStaleAfter_def duration_defs)
  note f = current_fold [where now = now and m = "nodes t" and best = None]
  show ?thesis
  proof (cases "fold (current_step now) (nodes t) None")
    case None
    with f ok p have "length (nodes t) \<le> 256" "CurrentNode now t = (if p \<noteq> [] then Some p else None)"
        "\<forall>(k, n) \<in> set (nodes t). \<not> usable n \<or> now - lastHeard n > nodeStaleAfter"
      by (auto simp: tracker_ok_def maxTrackedNodes_def CurrentNode_def cand)
    with et show ?thesis by simp
  next
    case (Some b)
    with f have "\<exists>k. (k, b) \<in> set (nodes t) \<and> candidate now b"
      and "\<forall>(k, n) \<in> set (nodes t). candidate now n \<longrightarrow> firstHeard b \<le> firstHeard n" by auto
    with Some ok p have "length (nodes t) \<le> 256" "CurrentNode now t = Some (if p \<noteq> [] then p else destHash b)"
        "\<exists>k. (k, b) \<in> set (nodes t) \<and> usable b \<and> now - lastHeard b \<le> nodeStaleAfter"
        "\<forall>(k', n') \<in> set (nodes t). usable n' \<and> now - lastHeard n' \<le> nodeStaleAfter \<longrightarrow> firstHeard b \<le> firstHeard n'"
      by (auto simp: tracker_ok_def maxTrackedNodes_def CurrentNode_def cand)
    with et show ?thesis by (intro conjI) (simp_all, blast)
  qed
qed

definition good_info :: NodeInfo where "good_info = \<lparr>Enabled = True, StampCost = 8, PerTransferLimitKB = 256\<rparr>"

definition late_info :: NodeInfo where "late_info = \<lparr>Enabled = True, StampCost = 0, PerTransferLimitKB = 1\<rparr>"

definition node_run :: "node_announce list" where
  "node_run = [(Some good_info, ''B'', 5), (Some late_info, ''C'', 1), (Some good_info, ''A'', 7), (Some good_info, ''B'', 9), (None, ''D'', 9)]"

theorem longest_known_wins_witness:
  "CurrentNode 20 (hear_all 18 node_run (newPropagationTracker [])) = Some ''B'' \<and>
   length (nodes (hear_all 18 node_run (newPropagationTracker []))) \<le> 256"
proof -
  have c: "CurrentNode 20 (hear_all 18 node_run (newPropagationTracker [])) = Some ''B''"
    by (simp add: node_run_def hear_all_def hear_def OnAnnounce_node_def newPropagationTracker_def good_info_def late_info_def
      acceptableNode_def evictStale_def stale_def evict_loop.simps maxTrackedNodes_def CurrentNode_def current_step_def candidate_def
      time_sub_def duration_defs nodeStaleAfter_def minTransferLimitKB_def EncodeToString_def hex_byte_def hex_digit_def Let_def)
  have "list_all (\<lambda>a. fst (snd a) \<noteq> []) node_run" by (simp add: node_run_def)
  from longest_known_wins [OF this HOL.refl, of 18 "[]" 20] c show ?thesis by simp
qed

subsection \<open>A flood of new identities\<close>

lemma hear_new:
  assumes "map_of (nodes t) (EncodeToString h) = None"
  shows "\<exists>n. nodes (hear maxStamp (Some i, h, at) t) = gput (EncodeToString h) n (evictStale at (nodes t)) \<and> lastHeard n = at"
  using assms by (auto simp: hear_def OnAnnounce_node_def Let_def)

lemma stale_later: "stale now n \<Longrightarrow> lastHeard n0 < lastHeard n \<Longrightarrow> stale now n0"
  by (auto simp: stale_def time_sub_def nodeStaleAfter_def duration_defs split: if_splits)

text \<open>\<open>K\<close> are the keys of the flood so far: as long as the victim stays they all stay, heard later than it.\<close>

lemma flood_step:
  assumes ok: "tracker_ok (nodes t)" and h: "h \<noteq> []" "map_of (nodes t) (EncodeToString h) = None" "EncodeToString h \<noteq> k0"
    and at: "lastHeard n0 < at"
    and K: "\<forall>k \<in> K. \<exists>n. (k, n) \<in> set (nodes t) \<and> lastHeard n0 < lastHeard n"
    and v: "k0 \<in> fst ` set (nodes t) \<Longrightarrow> (k0, n0) \<in> set (nodes t)"
    and t'_def: "t' = hear maxStamp (Some i, h, at) t"
  shows "k0 \<in> fst ` set (nodes t') \<Longrightarrow> (k0, n0) \<in> set (nodes t') \<and>
      (\<forall>k \<in> insert (EncodeToString h) K. \<exists>n. (k, n) \<in> set (nodes t') \<and> lastHeard n0 < lastHeard n)"
proof -
  obtain n' where n': "nodes t' = gput (EncodeToString h) n' (evictStale at (nodes t))" "lastHeard n' = at"
    using hear_new [OF h(2), of maxStamp i at] by (auto simp: t'_def)
  note e = evictStale_ok [OF ok, of at]
  have fresh: "EncodeToString h \<notin> fst ` set (evictStale at (nodes t))" using e(4) h(2) by (auto simp: map_of_eq_None_iff)
  then have st: "set (nodes t') = insert (EncodeToString h, n') (set (evictStale at (nodes t)))"
    unfolding n'(1) set_gput [OF e(1)] by force
  assume "k0 \<in> fst ` set (nodes t')"
  with st h(3) have k0: "k0 \<in> fst ` set (evictStale at (nodes t))" by auto
  with e(4) v have "(k0, n0) \<in> set (nodes t)" by auto
  moreover from ok have "distinct (map fst (nodes t))" by (simp add: tracker_ok_def gmap_ok_def)
  ultimately have in0: "(k0, n0) \<in> set (evictStale at (nodes t))" using k0 e(4) by (auto dest: eq_key_imp_eq_value)
  let ?F = "filter (\<lambda>(k, n). \<not> stale at n) (nodes t)"
  have F: "gmap_ok ?F" "[] \<notin> fst ` set ?F" using ok by (auto simp: tracker_ok_def intro: gmap_ok_filter)
  have fr0: "\<not> stale at n0" using in0 evict_loop_ok [OF F] by (auto simp: evictStale_def)
  have "\<exists>n. (k, n) \<in> set (evictStale at (nodes t)) \<and> lastHeard n0 < lastHeard n" if "k \<in> K" for k
  proof -
    from K that obtain n where n: "(k, n) \<in> set (nodes t)" "lastHeard n0 < lastHeard n" by blast
    with fr0 stale_later have "(k, n) \<in> set ?F" by auto
    from evict_loop_order [OF F in0 [unfolded evictStale_def] this n(2)] n(2) show ?thesis by (auto simp: evictStale_def)
  qed
  with in0 st at n'(2) show "(k0, n0) \<in> set (nodes t') \<and>
      (\<forall>k \<in> insert (EncodeToString h) K. \<exists>n. (k, n) \<in> set (nodes t') \<and> lastHeard n0 < lastHeard n)" by auto
qed

definition flood :: "NodeInfo \<Rightarrow> (bytes \<times> time) list \<Rightarrow> node_announce list" where
  "flood i as = map (\<lambda>(h, at). (Some i, h, at)) as"

lemma hear_keys: "fst ` set (nodes (hear maxStamp (Some i, h, at) t)) \<subseteq> insert (EncodeToString h) (fst ` set (nodes t))"
  if "tracker_ok (nodes t)" for t
proof (cases "map_of (nodes t) (EncodeToString h)")
  case None
  then obtain n where "nodes (hear maxStamp (Some i, h, at) t) = gput (EncodeToString h) n (evictStale at (nodes t))"
    using hear_new by blast
  then have "fst ` set (nodes (hear maxStamp (Some i, h, at) t)) = insert (EncodeToString h) (fst ` set (evictStale at (nodes t)))"
    by simp
  with evictStale_ok(4) [OF that, of at] show ?thesis by auto
qed (auto simp: hear_def OnAnnounce_node_def Let_def)

lemma flood_run:
  assumes "tracker_ok (nodes t)" and "distinct (map fst as)" and "list_all (\<lambda>(h, at). h \<noteq> [] \<and> EncodeToString h \<noteq> k0 \<and> lastHeard n0 < at) as"
    and "list_all (\<lambda>(h, at). map_of (nodes t) (EncodeToString h) = None) as"
    and "k0 \<in> fst ` set (nodes t) \<Longrightarrow> (k0, n0) \<in> set (nodes t)"
    and "k0 \<in> fst ` set (nodes t) \<Longrightarrow> \<forall>k \<in> K. \<exists>n. (k, n) \<in> set (nodes t) \<and> lastHeard n0 < lastHeard n"
    and "k0 \<in> fst ` set (nodes (hear_all maxStamp (flood i as) t))"
  shows "\<forall>k \<in> K \<union> EncodeToString ` fst ` set as. \<exists>n. (k, n) \<in> set (nodes (hear_all maxStamp (flood i as) t)) \<and> lastHeard n0 < lastHeard n"
  using assms
proof (induction as arbitrary: t K)
  case Nil
  then show ?case by (simp add: hear_all_def flood_def)
next
  case (Cons a as)
  obtain h at where a: "a = (h, at)" by (cases a)
  define t' where "t' = hear maxStamp (Some i, h, at) t"
  have run: "hear_all maxStamp (flood i (a # as)) t = hear_all maxStamp (flood i as) t'"
    by (simp add: hear_all_def flood_def a t'_def)
  have h: "h \<noteq> []" "map_of (nodes t) (EncodeToString h) = None" "EncodeToString h \<noteq> k0" "lastHeard n0 < at"
    using Cons.prems a by auto
  have ok': "tracker_ok (nodes t')"
    unfolding t'_def hear_def using OnAnnounce_node_ok [OF Cons.prems(1) h(1)] by simp
  have keys: "fst ` set (nodes t') \<subseteq> insert (EncodeToString h) (fst ` set (nodes t))"
    unfolding t'_def by (rule hear_keys [OF Cons.prems(1)])
  have new: "list_all (\<lambda>(h, at). map_of (nodes t') (EncodeToString h) = None) as"
  proof -
    have "map_of (nodes t') (EncodeToString h') = None" if "(h', at') \<in> set as" for h' at'
    proof -
      from that Cons.prems(2) a have "h' \<noteq> h" by force
      then have "EncodeToString h' \<noteq> EncodeToString h" using EncodeToString_inj by blast
      moreover have "EncodeToString h' \<notin> fst ` set (nodes t)"
        using that Cons.prems(4) by (auto simp: list_all_iff map_of_eq_None_iff)
      ultimately show ?thesis using keys by (auto simp: map_of_eq_None_iff)
    qed
    then show ?thesis by (auto simp: list_all_iff)
  qed
  have was: "k0 \<in> fst ` set (nodes t)" if "k0 \<in> fst ` set (nodes t')" using that keys h(3) by auto
  have step: "k0 \<in> fst ` set (nodes t') \<Longrightarrow> (k0, n0) \<in> set (nodes t') \<and>
      (\<forall>k \<in> insert (EncodeToString h) K. \<exists>n. (k, n) \<in> set (nodes t') \<and> lastHeard n0 < lastHeard n)"
    by (rule flood_step [OF Cons.prems(1) h Cons.prems(6) Cons.prems(5) t'_def, OF was]) assumption+
  show ?case
    using Cons.IH [OF ok' _ _ new, of "insert (EncodeToString h) K"] step Cons.prems(2,3,7) run a by auto
qed

text \<open>
  C38: A flood of announces from 256 fresh identities removes any established node from the table, unless that
  node announces again meanwhile: the table evicts the node heard least recently, so the preference for the node known
  longest does not make an attacker out-persist anybody.
\<close>
theorem flood_evicts_honest_node:
  assumes "tracker_ok (nodes t)" and "(k0, n0) \<in> set (nodes t)"
    and "length as = 256" and "distinct (map fst as)"
    and "list_all (\<lambda>(h, at). h \<noteq> [] \<and> lastHeard n0 < at \<and> map_of (nodes t) (EncodeToString h) = None) as"
  shows "map_of (nodes (hear_all maxStamp (flood i as) t)) k0 = None"
proof (rule ccontr)
  let ?t = "hear_all maxStamp (flood i as) t"
  assume "map_of (nodes ?t) k0 \<noteq> None"
  then have k0: "k0 \<in> fst ` set (nodes ?t)" by (simp add: map_of_eq_None_iff)
  have ok: "tracker_ok (nodes ?t)"
    using assms(5) by (intro hear_all_ok [OF assms(1)]) (auto simp: flood_def list_all_iff)
  have "list_all (\<lambda>(h, at). h \<noteq> [] \<and> EncodeToString h \<noteq> k0 \<and> lastHeard n0 < at) as"
    using assms(2,5) by (force simp: list_all_iff map_of_eq_None_iff)
  then have "\<forall>k \<in> {} \<union> EncodeToString ` fst ` set as. \<exists>n. (k, n) \<in> set (nodes ?t) \<and> lastHeard n0 < lastHeard n"
    using assms(2,5) k0 by (intro flood_run [OF assms(1,4)]) (auto simp: list_all_iff)
  then have sub: "insert k0 (EncodeToString ` fst ` set as) \<subseteq> fst ` set (nodes ?t)" using k0 by force
  have "k0 \<notin> EncodeToString ` fst ` set as" using assms(2,5) by (force simp: list_all_iff map_of_eq_None_iff)
  moreover have "card (EncodeToString ` fst ` set as) = 256"
    using assms(3) distinct_card [OF assms(4)] by (subst card_image) (auto simp: inj_on_def dest: EncodeToString_inj)
  ultimately have "257 \<le> card (fst ` set (nodes ?t))" using card_mono [OF _ sub] by simp
  also have "\<dots> \<le> length (nodes ?t)" by (metis card_length length_map set_map)
  finally show False using ok by (simp add: tracker_ok_def maxTrackedNodes_def)
qed

definition attackers :: "(bytes \<times> time) list" where
  "attackers = map (\<lambda>n. ([char_of n], 10)) [0..<256::nat]"

theorem flood_evicts_honest_node_witness:
  "map_of (nodes (hear_all 18 (flood good_info attackers) (hear 18 (Some good_info, ''me'', 5) (newPropagationTracker []))))
     (EncodeToString ''me'') = None"
proof -
  let ?t = "hear 18 (Some good_info, ''me'', 5) (newPropagationTracker [])"
  have t: "\<exists>n. nodes ?t = [(EncodeToString ''me'', n)] \<and> lastHeard n = 5"
    by (auto simp: hear_def OnAnnounce_node_def newPropagationTracker_def evictStale_def evict_loop.simps maxTrackedNodes_def Let_def)
  then obtain n where n: "nodes ?t = [(EncodeToString ''me'', n)]" "lastHeard n = 5" by blast
  have ok: "tracker_ok (nodes ?t)" unfolding hear_def by (rule OnAnnounce_node_ok [OF tracker_ok_new]) simp
  have len: "EncodeToString [c] \<noteq> EncodeToString ''me''" for c using EncodeToString_inj by fastforce
  have "distinct (map fst attackers)"
    by (auto simp: attackers_def distinct_map inj_on_def comp_def char_of_eq_iff take_bit_eq_mod)
  moreover have "list_all (\<lambda>(h, at). h \<noteq> [] \<and> lastHeard n < at \<and> map_of (nodes ?t) (EncodeToString h) = None) attackers"
    using len n by (auto simp: attackers_def list_all_iff)
  ultimately show ?thesis
    using flood_evicts_honest_node [OF ok, of "EncodeToString ''me''" n attackers] n by (simp add: attackers_def)
qed

end
