(* ===== verification/Relay.thy ===== *)
theory Relay
  imports Commands Gates History Rewrite Propagation
begin

text \<open>
  The service itself: \<^verbatim>\<open>service/inbox.go\<close> (what happens to a received message), \<^verbatim>\<open>forward.go\<close> (the fan-out),
  \<^verbatim>\<open>replay.go\<close> (the join catch-up) and the handlers of \<^verbatim>\<open>service.go\<close> (hooks of the commands, announces,
  pruning, start-up of roles and identity).

  \<open>Service\<close> is the struct of the same name: the dispatcher carries the configuration, the roster and the group
  texts, the queue carries the id cache they share. \<open>tasks\<close> are the catch-ups started in a goroutine of their own
  and not yet run. A handler is a function on this state. It reads the clock several times; the model reads it
  once, at the start. Fresh message ids come from \<open>ids\<close>, indexed by the running number of the enqueue; \<open>net\<close> is the
  network library, \<open>sz\<close> the size of a value in msgpack. Log lines are left out.
\<close>

subsection \<open>State\<close>

record Service =
  disp :: Dispatcher
  hist :: Log
  outbound :: OutboundQueue
  dedup :: "dedupCache option"
  replayLimit :: replayLimiter
  tasks :: "(bytes \<times> time) list"

abbreviation cfg :: "Service \<Rightarrow> Config" where "cfg s \<equiv> Cfg (disp s)"
abbreviation roster :: "Service \<Rightarrow> Roster" where "roster s \<equiv> Rost (disp s)"
abbreviation scfg :: "Service \<Rightarrow> ServiceConfig" where "scfg s \<equiv> Config.Service (cfg s)"

definition set_roster :: "Roster \<Rightarrow> Service \<Rightarrow> Service" where
  "set_roster r s = s\<lparr>disp := (disp s)\<lparr>Rost := r\<rparr>\<rparr>"

definition set_cache :: "Cache option \<Rightarrow> Service \<Rightarrow> Service" where
  "set_cache c s = s\<lparr>outbound := (outbound s)\<lparr>qidmap := c\<rparr>\<rparr>"

definition put_out :: "(nat \<Rightarrow> string) \<Rightarrow> time \<Rightarrow> bytes \<Rightarrow> bytes \<Rightarrow> fieldmap \<Rightarrow> bref option \<Rightarrow> bool \<Rightarrow> Service \<Rightarrow> Service" where
  "put_out ids now to body flds bubble after s =
     s\<lparr>outbound := snd (enqueue to body flds bubble after (ids (next_ref (outbound s))) now (outbound s))\<rparr>"

text \<open>The three entry points of the queue the service calls.\<close>

definition send_text :: "(nat \<Rightarrow> string) \<Rightarrow> time \<Rightarrow> bytes \<Rightarrow> string \<Rightarrow> Service \<Rightarrow> Service" where
  "send_text ids now to body s = s\<lparr>outbound := snd (Enqueue to body (ids (next_ref (outbound s))) now (outbound s))\<rparr>"

definition send_bubble :: "(nat \<Rightarrow> string) \<Rightarrow> time \<Rightarrow> bytes \<Rightarrow> string \<Rightarrow> fieldmap \<Rightarrow> bref option \<Rightarrow> Service \<Rightarrow> Service" where
  "send_bubble ids now to body flds bubble s =
     s\<lparr>outbound := snd (EnqueueBubble to body flds bubble (ids (next_ref (outbound s))) now (outbound s))\<rparr>"

definition send_last :: "(nat \<Rightarrow> string) \<Rightarrow> time \<Rightarrow> bytes \<Rightarrow> string \<Rightarrow> Service \<Rightarrow> Service" where
  "send_last ids now to body s =
     s\<lparr>outbound := snd (EnqueueAfterEarlier to body (ids (next_ref (outbound s))) now (outbound s))\<rparr>"

lemma sends_put_out:
  "send_text ids now to body = put_out ids now to body [] None False"
  "send_bubble ids now to body flds bubble = put_out ids now to body flds bubble False"
  "send_last ids now to body = put_out ids now to body [] None True"
  by (simp_all add: fun_eq_iff put_out_def send_text_def send_bubble_def send_last_def Enqueue_def EnqueueWithFields_def
    EnqueueBubble_def EnqueueAfterEarlier_def)

subsection \<open>Fan-out\<close>

record forwardOpts =
  rewrite :: "rewriter option"
  bubble :: "bref option"

definition bubble_heap :: "Service \<Rightarrow> bref \<Rightarrow> Bubble" where
  "bubble_heap s = (case qidmap (outbound s) of Some c \<Rightarrow> heap c | None \<Rightarrow> (\<lambda>_. \<lparr>views = [], expiresAt = 0\<rparr>))"

text \<open>What recipient \<open>h\<close> is sent: the fields, or nothing if it is skipped.\<close>

definition recipient_fields :: "Service \<Rightarrow> string \<Rightarrow> fieldmap \<Rightarrow> forwardOpts \<Rightarrow> string \<Rightarrow> fieldmap option" where
  "recipient_fields s body flds opts h =
     (case (case rewrite opts of None \<Rightarrow> Some flds | Some rw \<Rightarrow> apply_rewrite rw (bubble_heap s) h flds) of
        None \<Rightarrow> None
      | Some out \<Rightarrow>
          if IsTextOnly h (roster s) then (if body = [] then None else Some []) else Some out)"

definition forward_one ::
  "(nat \<Rightarrow> string) \<Rightarrow> time \<Rightarrow> string \<Rightarrow> string \<Rightarrow> fieldmap \<Rightarrow> forwardOpts \<Rightarrow> string \<Rightarrow> Service \<times> nat \<Rightarrow> Service \<times> nat"
where
  "forward_one ids now senderHex body flds opts h st = (case st of (s, enqueued) \<Rightarrow>
     if h = senderHex then st
     else (case DecodeString h of
         None \<Rightarrow> st
       | Some raw \<Rightarrow>
           if length raw \<noteq> 16 then st
           else (case recipient_fields s body flds opts h of
               None \<Rightarrow> st
             | Some out \<Rightarrow> (send_bubble ids now raw body out (bubble opts) s, Suc enqueued))))"

definition forwardToRoster ::
  "(nat \<Rightarrow> string) \<Rightarrow> time \<Rightarrow> string \<Rightarrow> string \<Rightarrow> fieldmap \<Rightarrow> forwardOpts \<Rightarrow> Service \<Rightarrow> Service \<times> nat"
where
  "forwardToRoster ids now senderHex body flds opts s =
     fold (forward_one ids now senderHex body flds opts) (ActiveHashes (roster s)) (s, 0)"

definition newBubbleForForward :: "time \<Rightarrow> Service \<Rightarrow> bref option \<times> Service" where
  "newBubbleForForward now s = (case qidmap (outbound s) of
      None \<Rightarrow> (None, s)
    | Some c \<Rightarrow>
        if IDCacheTTL (scfg s) \<le> 0 then (None, s)
        else (let (b, c') = NewBubble (IDCacheTTL (scfg s)) now c in (Some b, set_cache (Some c') s)))"

subsection \<open>Catch-up of a joiner\<close>

text \<open>\<^verbatim>\<open>int(float)\<close> truncates towards zero.\<close>

definition trunc_div :: "int \<Rightarrow> int \<Rightarrow> int" where
  "trunc_div a b = (if a < 0 then - (- a div b) else a div b)"

definition humanizeAge :: "duration \<Rightarrow> string" where
  "humanizeAge d =
     (if d < Minute then Itoa (trunc_div d Second) @ ''s''
      else if d < Hour then Itoa (trunc_div d Minute) @ ''m''
      else if d < 24 * Hour then Itoa (trunc_div d Hour) @ ''h''
      else Itoa (trunc_div d (24 * Hour)) @ ''d'')"

definition replay_body :: "time \<Rightarrow> Entry \<Rightarrow> string" where
  "replay_body now e = ''[replay '' @ humanizeAge (time_sub now (EAt e)) @ ''] ['' @ SenderNick e @ ''] '' @ sanitizeForward (EContent e)"

definition joiner_pins :: "time \<Rightarrow> Service \<Rightarrow> string" where
  "joiner_pins now s =
     (if PinsOnJoin (Replay (cfg s)) then (case Info (disp s) of None \<Rightarrow> [] | Some st \<Rightarrow> Render (pins st) now) else [])"

definition sendJoinCatchup :: "(nat \<Rightarrow> string) \<Rightarrow> bytes \<Rightarrow> time \<Rightarrow> Service \<Rightarrow> Service" where
  "sendJoinCatchup ids joinerHash now s =
     (let rc = Replay (cfg s); pinned = joiner_pins now s in
      if Count rc \<le> 0 \<and> pinned = [] then s
      else (case allow (EncodeToString joinerHash) now (replayLimit s) of
          (False, l) \<Rightarrow> s\<lparr>replayLimit := l\<rparr>
        | (True, l) \<Rightarrow>
            (let s1 = s\<lparr>replayLimit := l\<rparr>;
                 s2 = (if Count rc > 0
                       then (let cutoff = (if MaxAge rc > 0 then now + (- MaxAge rc) else 0) in
                             fold (\<lambda>e. send_text ids now joinerHash (replay_body now e)) (SinceOldest cutoff (hist s1)) s1)
                       else s1)
             in if pinned \<noteq> [] then send_last ids now joinerHash (sanitizeForward pinned) s2 else s2)))"

subsection \<open>Hooks of the commands\<close>

definition onJoin :: "time \<Rightarrow> string \<Rightarrow> Service \<Rightarrow> Service" where
  "onJoin now senderHex s = (case DecodeString senderHex of
      None \<Rightarrow> s
    | Some b \<Rightarrow> if length b \<noteq> 16 then s else s\<lparr>tasks := tasks s @ [(b, now)]\<rparr>)"

definition onAdminAdd :: "(nat \<Rightarrow> string) \<Rightarrow> time \<Rightarrow> string \<Rightarrow> Service \<Rightarrow> Service" where
  "onAdminAdd ids now addedHex s = (case DecodeString addedHex of
      None \<Rightarrow> s
    | Some b \<Rightarrow>
        if length b \<noteq> 16 then s
        else (let s1 = send_text ids now b (''You've been added to '' @ DisplayName (scfg s) @ ''. Send /? for help, /leave to exit.'') s
              in s1\<lparr>tasks := tasks s1 @ [(b, now)]\<rparr>))"

definition run_hook :: "(nat \<Rightarrow> string) \<Rightarrow> time \<Rightarrow> hook \<Rightarrow> Service \<Rightarrow> Service" where
  "run_hook ids now h s = (case h of
      Joined x \<Rightarrow> onJoin now x s
    | AdminAdded x \<Rightarrow> onAdminAdd ids now x s
    | Announced_now \<Rightarrow> s
    | Overflowed _ _ _ _ \<Rightarrow> s)"

definition announceStampCost :: "Config \<Rightarrow> int option" where
  "announceStampCost c = (if InboundStampCost (Config.Service c) \<le> 0 then None else Some (InboundStampCost (Config.Service c)))"

definition buildAnnounce :: "network \<Rightarrow> Config \<Rightarrow> string + bytes" where
  "buildAnnounce net c = (case encodeAppData net (DisplayName (Config.Service c)) (announceStampCost c) of
      Inl e \<Rightarrow> Inl e
    | Inr appData \<Rightarrow> buildPacket net appData)"

definition announceNow :: "network \<Rightarrow> Config \<Rightarrow> string option" where
  "announceNow net c = (case buildAnnounce net c of
      Inl e \<Rightarrow> Some (''build: '' @ e)
    | Inr pkt \<Rightarrow> Broadcast net pkt)"

definition lookupAnnouncedName :: "network \<Rightarrow> bytes \<Rightarrow> string" where
  "lookupAnnouncedName net hashBytes =
     (if length hashBytes \<noteq> identityHashLen then []
      else (case Recall net hashBytes of
          None \<Rightarrow> []
        | Some known \<Rightarrow>
            if AppData known = [] then []
            else (case decodeDisplayName net (AppData known) of None \<Rightarrow> [] | Some name \<Rightarrow> name)))"

definition noPath :: PathInfo where
  "noPath = \<lparr>Known = False, PLastSeen = 0, Hops = 0, NextHopHex = [], LinkActive = False\<rparr>"

definition pathLookup :: "network \<Rightarrow> string \<Rightarrow> PathInfo" where
  "pathLookup net destHashHex = (case DecodeString destHashHex of
      None \<Rightarrow> noPath
    | Some raw \<Rightarrow>
        if length raw \<noteq> 16 then noPath
        else (case Recall net raw of
            None \<Rightarrow> noPath
          | Some known \<Rightarrow>
              \<lparr>Known = True, PLastSeen = LastSeenAt known, Hops = KHops known,
               NextHopHex = (if length (TransportID known) = 16 then EncodeToString (TransportID known) else []),
               LinkActive = ActiveTo net raw\<rparr>))"

text \<open>The function fields \<^verbatim>\<open>New\<close> gives the dispatcher; what they answer depends on the network at the moment.\<close>

definition wire :: "network \<Rightarrow> Dispatcher \<Rightarrow> Dispatcher" where
  "wire net d = d\<lparr>Announce := Some (announceNow net (Cfg d)), PathLookup := Some (pathLookup net), OnJoin := True, OnAdminAdd := True,
     LookupAnnouncedName := Some (lookupAnnouncedName net), MaxReplyContentBytes := 0, OverflowLog := True\<rparr>"

subsection \<open>Inbound messages\<close>

text \<open>What the library hands over; \<open>DedupKey\<close> and \<open>MessageID\<close> are methods of \<^verbatim>\<open>lxmf.Message\<close>.\<close>

record Message =
  SourceHash :: bytes
  Content :: bytes
  MsgFields :: fieldmap
  DedupKey :: bytes
  MessageID :: bytes

definition replyInvite :: "(nat \<Rightarrow> string) \<Rightarrow> time \<Rightarrow> bytes \<Rightarrow> Service \<Rightarrow> Service" where
  "replyInvite ids now to = send_text ids now to
     ''Welcome. To join this chat send /join. Send /? for help. Until you join, your messages aren't forwarded.''"

definition replyPaused :: "(nat \<Rightarrow> string) \<Rightarrow> time \<Rightarrow> bytes \<Rightarrow> Service \<Rightarrow> Service" where
  "replyPaused ids now to = send_text ids now to
     ''You're paused. Your message wasn't forwarded. Send /resume to come back.''"

definition replyOverInboundLimit :: "(nat \<Rightarrow> string) \<Rightarrow> time \<Rightarrow> bytes \<Rightarrow> int \<Rightarrow> Service \<Rightarrow> Service" where
  "replyOverInboundLimit ids now to charCount s = send_text ids now to
     (''Message rejected: limit is '' @ Itoa (MaxInboundChars (scfg s)) @ '' characters per message, yours was '' @
      Itoa charCount @ ''. Please shorten and resend.'') s"

definition replyUnsupportedFields :: "(nat \<Rightarrow> string) \<Rightarrow> time \<Rightarrow> bytes \<Rightarrow> string list \<Rightarrow> bool \<Rightarrow> Service \<Rightarrow> Service" where
  "replyUnsupportedFields ids now to labels only = send_text ids now to
     (''This group doesn't accept '' @ Join labels '' and '' @ '' attachments, so it wasn't forwarded. '' @
      (if only then ''Nothing was sent, since there was no text with it.'' else ''The rest of your message was sent.''))"

definition add_note :: "string \<Rightarrow> string \<Rightarrow> string" where
  "add_note note body = (if body = [] then note else body @ '' '' @ note)"

definition forward_body :: "string \<Rightarrow> string \<Rightarrow> string list \<Rightarrow> string" where
  "forward_body nick ctext notes = fold add_note notes (if ctext \<noteq> [] then ''['' @ nick @ ''] '' @ ctext else [])"

definition sender_nick :: "string \<Rightarrow> Service \<Rightarrow> string" where
  "sender_nick senderHex s =
     (let n = (case Get senderHex (roster s) of None \<Rightarrow> [] | Some u \<Rightarrow> Nickname u) in
      if n = [] then take 8 senderHex else n)"

text \<open>A primary message opens a bubble and registers the sender's own id of it.\<close>

definition open_bubble :: "time \<Rightarrow> bytes \<Rightarrow> bytes \<Rightarrow> string \<Rightarrow> fieldmap \<Rightarrow> Service \<Rightarrow> bref option \<times> Service" where
  "open_bubble now senderBytes msgID ctext fwdFields s =
     (if isPrimaryBubble ctext fwdFields
      then (case newBubbleForForward now s of (b, s') \<Rightarrow>
          (b, case (b, qidmap (outbound s')) of
                (Some _, Some c) \<Rightarrow>
                  set_cache (Some (RegisterView b (EncodeToString senderBytes) (EncodeToString msgID) now c)) s'
              | _ \<Rightarrow> s'))
      else (None, s))"

definition log_message :: "time \<Rightarrow> string \<Rightarrow> string \<Rightarrow> string \<Rightarrow> Service \<Rightarrow> Service" where
  "log_message now senderHex nick ctext s =
     s\<lparr>hist := snd (Append \<lparr>EAt = now, SenderHash = senderHex, SenderNick = nick, EContent = ctext\<rparr> (hist s))\<rparr>"

text \<open>From the detection of targets to the log.\<close>

definition fan_out ::
  "(nat \<Rightarrow> string) \<Rightarrow> time \<Rightarrow> bytes \<Rightarrow> bytes \<Rightarrow> string \<Rightarrow> string \<Rightarrow> string \<Rightarrow> fieldmap \<Rightarrow> Service \<Rightarrow> Service"
where
  "fan_out ids now senderBytes msgID nick ctext body fwdFields s =
     (let senderHex = EncodeToString senderBytes;
          (rw, c) = buildRewrite now (qidmap (outbound s)) fwdFields;
          (b, s1) = open_bubble now senderBytes msgID ctext fwdFields (set_cache c s);
          stamped = snd (stampReactorIdentity fwdFields senderBytes);
          (s2, delivered) = forwardToRoster ids now senderHex body stamped \<lparr>rewrite = rw, bubble = b\<rparr> s1
      in if delivered > 0 \<and> ctext \<noteq> [] then log_message now senderHex nick ctext s2 else s2)"

text \<open>What the attachment policy left of an accepted chat message: the refusal notice, then the fan-out.\<close>

definition relay_message ::
  "(nat \<Rightarrow> string) \<Rightarrow> time \<Rightarrow> bytes \<Rightarrow> bytes \<Rightarrow> string \<Rightarrow> string \<Rightarrow> filtered \<Rightarrow> Service \<Rightarrow> Service"
where
  "relay_message ids now senderBytes msgID nick ctext f s =
     (let fwdFields = out_fields f;
          body = forward_body nick ctext (drops f);
          s1 = (if rejected f \<noteq> [] then replyUnsupportedFields ids now senderBytes (rejected f) (body = [] \<and> fwdFields = []) s else s)
      in if body = [] \<and> fwdFields = [] then s1 else fan_out ids now senderBytes msgID nick ctext body fwdFields s1)"

definition handle_command :: "(nat \<Rightarrow> string) \<Rightarrow> network \<Rightarrow> time \<Rightarrow> bytes \<Rightarrow> string \<Rightarrow> Service \<Rightarrow> Service" where
  "handle_command ids net now senderBytes ctext s =
     (let parsed = Parse (uni (roster s)) ctext;
          ((rep, hooks), d) = Dispatch now (EncodeToString senderBytes) parsed (wire net (disp s));
          s1 = fold (run_hook ids now) hooks (s\<lparr>disp := d\<rparr>)
      in if rep \<noteq> [] then send_text ids now senderBytes rep s1 else s1)"

definition handle_chat ::
  "(nat \<Rightarrow> string) \<Rightarrow> (fval \<Rightarrow> int option) \<Rightarrow> time \<Rightarrow> Message \<Rightarrow> string \<Rightarrow> Service \<Rightarrow> Service"
where
  "handle_chat ids sz now msg ctext0 s =
     (let senderBytes = SourceHash msg; senderHex = EncodeToString senderBytes; limit = MaxInboundChars (scfg s) in
      if limit > 0 \<and> int (RuneCount ctext0) > limit
      then replyOverInboundLimit ids now senderBytes (int (RuneCount ctext0)) s
      else if \<not> Has senderBytes (roster s) then replyInvite ids now senderBytes s
      else if IsPaused senderHex (roster s) then replyPaused ids now senderBytes s
      else (let s1 = set_roster (snd (MarkMessage senderBytes now (roster s))) s;
                nick = sender_nick senderHex s1;
                ctext = sanitizeForward ctext0
            in relay_message ids now senderBytes (MessageID msg) nick ctext (filterAttachments sz (MsgFields msg) (scfg s1)) s1))"

definition is_duplicate :: "time \<Rightarrow> Message \<Rightarrow> Service \<Rightarrow> bool \<times> Service" where
  "is_duplicate now msg s =
     (if DedupKey msg = [] then (False, s)
      else (let (dup, d) = seenBefore (EncodeToString (DedupKey msg)) now (dedup s) in (dup, s\<lparr>dedup := d\<rparr>)))"

definition onLXMFReceived ::
  "(nat \<Rightarrow> string) \<Rightarrow> (fval \<Rightarrow> int option) \<Rightarrow> network \<Rightarrow> time \<Rightarrow> Message \<Rightarrow> Service \<Rightarrow> Service"
where
  "onLXMFReceived ids sz net now msg s0 =
     (let (dup, s) = is_duplicate now msg s0; senderBytes = SourceHash msg in
      if dup then s
      else if IsBanned senderBytes (roster s) then s
      else (let s1 = set_roster (snd (Touch senderBytes now (roster s))) s;
                ctext = TrimRight (Content msg) [CHR 0x0D, CHR 0x0A]
            in if IsCommand ctext then handle_command ids net now senderBytes ctext s1
               else handle_chat ids sz now msg ctext s1))"

subsection \<open>Announces, pruning, start-up\<close>

text \<open>\<open>emitted\<close> is \<^verbatim>\<open>Announce.EmittedAt\<close>, \<open>None\<close> for an error; \<open>app\<close> is the announce's data.\<close>

definition maybeAdoptAnnouncedNickname :: "network \<Rightarrow> bytes \<Rightarrow> bytes \<Rightarrow> Service \<Rightarrow> Service" where
  "maybeAdoptAnnouncedNickname net hash app s =
     (let hashHex = EncodeToString hash in
      case Get hashHex (roster s) of
        None \<Rightarrow> s
      | Some u \<Rightarrow>
          if Nickname u \<noteq> [] then s
          else (case decodeDisplayName net app of
              None \<Rightarrow> s
            | Some name \<Rightarrow>
                if name = [] then s
                else (let sanitized = SanitizeNickname name in
                      if sanitized = [] then s
                      else set_roster (snd (SetNickname hashHex sanitized (roster s))) s)))"

definition OnAnnounce_member :: "network \<Rightarrow> time \<Rightarrow> bytes \<Rightarrow> time option \<Rightarrow> bytes \<Rightarrow> Service \<Rightarrow> Service" where
  "OnAnnounce_member net now hash emitted app s =
     (let at = (case emitted of Some e \<Rightarrow> if e > now then now else e | None \<Rightarrow> now) in
      maybeAdoptAnnouncedNickname net hash app (set_roster (snd (UpdateLastAnnounce hash at (roster s))) s))"

definition runPrune :: "time \<Rightarrow> Service \<Rightarrow> Service" where
  "runPrune now s = set_roster (snd (Prune now (PruneAfter (scfg s)) (PruneSilentAfter (scfg s)) (roster s))) s"

definition enroll_step :: "time \<Rightarrow> string \<Rightarrow> nat \<times> Roster \<Rightarrow> nat \<times> Roster" where
  "enroll_step now h st = (case st of (enrolled, r) \<Rightarrow>
     (case DecodeString h of
        None \<Rightarrow> st
      | Some hb \<Rightarrow>
          if length hb \<noteq> 16 then st
          else if Has hb r then st
          else (case AddInvited hb now r of
              ((_, Some e), r') \<Rightarrow> (enrolled, r')
            | ((_, None), r') \<Rightarrow> (Suc enrolled, r'))))"

definition enrollConfigRoles :: "Config \<Rightarrow> time \<Rightarrow> Roster \<Rightarrow> nat \<times> Roster" where
  "enrollConfigRoles c now r = fold (enroll_step now) (Admins c @ Mods c) (0, r)"

definition pinRosterDestinations :: "Roster \<Rightarrow> bytes list" where
  "pinRosterDestinations r =
     List.map_filter (\<lambda>h. case DecodeString h of None \<Rightarrow> None | Some raw \<Rightarrow> if length raw \<noteq> 16 then None else Some raw) (Hashes r)"

end
