(* ===== verification/OutboundProps.thy ===== *)
theory OutboundProps
  imports Outbound
begin

text \<open>
  The outbound queue with its workers and its flush loop running concurrently, as a step relation over the
  critical sections, and what holds of every interleaving: the identities and the order of the queue, the
  bounds, the attempt budget, the order the held messages are promised, and what is on disk.
\<close>

subsection \<open>Frame facts\<close>

lemma persistQueue_frame [frame_simps, simp]:
  "pending (persistQueue q) = pending q" "inFlight (persistQueue q) = inFlight q" "next_ref (persistQueue q) = next_ref q"
  "maxAttempts (persistQueue q) = maxAttempts q" "workers (persistQueue q) = workers q" "qstore (persistQueue q) = qstore q"
  "propagationFallback (persistQueue q) = propagationFallback q" "propagationAlways (persistQueue q) = propagationAlways q"
  "directAttempts (persistQueue q) = directAttempts q"
  "qdirty (persistQueue q) = (qdirty q \<or> qstore q \<noteq> None)"
  by (simp_all add: persistQueue_def split: option.split)

lemma removeLocked_frame [frame_simps, simp]:
  "pending (removeLocked r q) = filter (\<lambda>m. mref m \<noteq> r) (pending q)" "inFlight (removeLocked r q) = inFlight q"
  "next_ref (removeLocked r q) = next_ref q" "maxAttempts (removeLocked r q) = maxAttempts q"
  "workers (removeLocked r q) = workers q" "qstore (removeLocked r q) = qstore q" "qdirty (removeLocked r q) = qdirty q"
  "propagationFallback (removeLocked r q) = propagationFallback q" "propagationAlways (removeLocked r q) = propagationAlways q"
  "directAttempts (removeLocked r q) = directAttempts q"
  by (simp_all add: removeLocked_def)

lemma upd_msg_frame [frame_simps, simp]:
  "pending (upd_msg r f q) = map (\<lambda>m. if mref m = r then f m else m) (pending q)" "inFlight (upd_msg r f q) = inFlight q"
  "next_ref (upd_msg r f q) = next_ref q" "maxAttempts (upd_msg r f q) = maxAttempts q"
  "workers (upd_msg r f q) = workers q" "qstore (upd_msg r f q) = qstore q" "qdirty (upd_msg r f q) = qdirty q"
  "propagationFallback (upd_msg r f q) = propagationFallback q" "propagationAlways (upd_msg r f q) = propagationAlways q"
  "directAttempts (upd_msg r f q) = directAttempts q"
  by (simp_all add: upd_msg_def)

lemma register_sent_frame [frame_simps, simp]:
  "pending (register_sent m res now q) = pending q" "inFlight (register_sent m res now q) = inFlight q"
  "next_ref (register_sent m res now q) = next_ref q" "maxAttempts (register_sent m res now q) = maxAttempts q"
  "workers (register_sent m res now q) = workers q" "qstore (register_sent m res now q) = qstore q"
  "qdirty (register_sent m res now q) = qdirty q" "retryWait (register_sent m res now q) = retryWait q"
  "propagationFallback (register_sent m res now q) = propagationFallback q"
  "propagationAlways (register_sent m res now q) = propagationAlways q"
  "directAttempts (register_sent m res now q) = directAttempts q"
  by (simp_all add: register_sent_def split: send_result.split option.split)

lemma fold_removeLocked:
  "fold (\<lambda>m. removeLocked (mref m)) gone q = q\<lparr>pending := filter (\<lambda>x. mref x \<notin> mref ` set gone) (pending q)\<rparr>"
  by (induction gone arbitrary: q) (auto simp: removeLocked_def intro!: arg_cong [where f = "\<lambda>p. q\<lparr>pending := p\<rparr>" for q] filter_cong)

lemma distinct_mref_eq: "distinct (map mref ms) \<Longrightarrow> x \<in> set ms \<Longrightarrow> y \<in> set ms \<Longrightarrow> mref x = mref y \<Longrightarrow> x = y"
  by (auto simp: distinct_map inj_on_def)

lemma reap_frame [frame_simps, simp]:
  "inFlight (reap now q) = inFlight q" "next_ref (reap now q) = next_ref q" "maxAttempts (reap now q) = maxAttempts q"
  "workers (reap now q) = workers q" "qstore (reap now q) = qstore q"
  "propagationFallback (reap now q) = propagationFallback q" "propagationAlways (reap now q) = propagationAlways q"
  "directAttempts (reap now q) = directAttempts q"
  by (simp_all add: reap_def Let_def fold_removeLocked)

lemma reap_pending:
  assumes "distinct (map mref (pending q))"
  shows "pending (reap now q) = filter (\<lambda>m. \<not> queue_expired now q m) (pending q)"
proof -
  have "(mref x \<notin> mref ` set (filter (queue_expired now q) (pending q))) = (\<not> queue_expired now q x)"
    if "x \<in> set (pending q)" for x
    using distinct_mref_eq [OF assms that] that by (auto simp: image_iff)
  moreover have "pending (reap now q) =
      filter (\<lambda>x. mref x \<notin> mref ` set (filter (queue_expired now q) (pending q))) (pending q)"
    by (simp add: reap_def Let_def fold_removeLocked del: set_filter)
  ultimately show ?thesis by (simp cong: filter_cong del: set_filter)
qed

lemma reap_dirty:
  "qdirty (reap now q) = (qdirty q \<or> (qstore q \<noteq> None \<and> (\<exists>m \<in> set (pending q). queue_expired now q m)))"
  by (auto simp: reap_def Let_def fold_removeLocked filter_empty_conv)

subsection \<open>Which message is picked\<close>

fun eligible :: "time \<Rightarrow> string list \<Rightarrow> outboundMessage list \<Rightarrow> outboundMessage list \<Rightarrow> outboundMessage list" where
  "eligible now busy ahead [] = []"
| "eligible now busy ahead (m # rest) =
     (if sendable now busy ahead m then [m] else []) @ eligible now busy (ahead @ [m]) rest"

definition choose_msg :: "(bytes \<Rightarrow> time option) \<Rightarrow> outboundMessage \<Rightarrow> outboundMessage option \<Rightarrow> outboundMessage option" where
  "choose_msg la m best = (case best of None \<Rightarrow> Some m
     | Some b \<Rightarrow> if better (la (Recipient m)) (la (Recipient b)) then Some m else Some b)"

lemma choose_msg_simps [simp]:
  "choose_msg la m None = Some m"
  "choose_msg la m (Some b) = (if better (la (Recipient m)) (la (Recipient b)) then Some m else Some b)"
  by (simp_all add: choose_msg_def)

lemma pick_loop_fold: "pick_loop la now busy ahead rest best = fold (choose_msg la) (eligible now busy ahead rest) best"
  by (induction la now busy ahead rest best rule: pick_loop.induct) (auto split: option.split)

lemma eligible_mem:
  "m \<in> set (eligible now busy ahead rest) \<longleftrightarrow> (\<exists>ys zs. rest = ys @ m # zs \<and> sendable now busy (ahead @ ys) m)"
proof (induction rest arbitrary: ahead)
  case (Cons x rest)
  have "(\<exists>ys zs. x # rest = ys @ m # zs \<and> sendable now busy (ahead @ ys) m) \<longleftrightarrow>
      (m = x \<and> sendable now busy ahead m) \<or> (\<exists>ys zs. rest = ys @ m # zs \<and> sendable now busy (ahead @ x # ys) m)"
    by (auto simp: Cons_eq_append_conv)
  then show ?case by (auto simp: Cons.IH)
qed simp

text \<open>The fold keeps the first of the best: nothing is better, and whatever stands before it is worse.\<close>

lemma better_trans: "better b a \<Longrightarrow> \<not> better b c \<Longrightarrow> better c a"
  by (auto simp: better_def split: option.splits)

lemma better_irrefl [simp]: "\<not> better a a"
  by (simp add: better_def split: option.splits)

lemma better_asym: "better a b \<Longrightarrow> \<not> better b a"
  by (auto simp: better_def split: option.splits)

lemma choose_fold:
  assumes "ms \<noteq> []"
  shows "\<exists>ys b zs. ms = ys @ b # zs \<and> fold (choose_msg la) ms None = Some b \<and>
    (\<forall>x \<in> set ms. \<not> better (la (Recipient x)) (la (Recipient b))) \<and>
    (\<forall>x \<in> set ys. better (la (Recipient b)) (la (Recipient x)))"
  using assms
proof (induction ms rule: rev_induct)
  case (snoc m ms)
  show ?case
  proof (cases "ms = []")
    case True
    then show ?thesis by (auto intro!: exI [of _ "[]"])
  next
    case False
    with snoc.IH obtain ys b zs where b: "ms = ys @ b # zs" "fold (choose_msg la) ms None = Some b"
      "\<forall>x \<in> set ms. \<not> better (la (Recipient x)) (la (Recipient b))"
      "\<forall>x \<in> set ys. better (la (Recipient b)) (la (Recipient x))" by blast
    show ?thesis
    proof (cases "better (la (Recipient m)) (la (Recipient b))")
      case True
      have "better (la (Recipient m)) (la (Recipient x))" if "x \<in> set ms" for x
        using b(3) that True better_trans by blast
      with True b(2) have "fold (choose_msg la) (ms @ [m]) None = Some m"
        "\<forall>x \<in> set (ms @ [m]). \<not> better (la (Recipient x)) (la (Recipient m))"
        "\<forall>x \<in> set ms. better (la (Recipient m)) (la (Recipient x))"
        by (auto dest: better_asym)
      then show ?thesis by blast
    next
      case False
      with b have "fold (choose_msg la) (ms @ [m]) None = Some b" "ms @ [m] = ys @ b # (zs @ [m])"
        "\<forall>x \<in> set (ms @ [m]). \<not> better (la (Recipient x)) (la (Recipient b))" by auto
      with b(4) show ?thesis by blast
    qed
  qed
qed simp

lemma choose_fold_None: "fold (choose_msg la) ms None = None \<longleftrightarrow> ms = []"
  using choose_fold [of ms la] by (cases "ms = []") auto

lemma pickDue_cases:
  assumes "pickDue la now q = (best, q')"
  obtains (none) "best = None" "q' = reap now q" "eligible now (inFlight q) [] (pending (reap now q)) = []"
  | (some) m ys zs where "best = Some m" "q' = (reap now q)\<lparr>inFlight := List.insert (MID m) (inFlight q)\<rparr>"
      "pending (reap now q) = ys @ m # zs" "sendable now (inFlight q) ys m"
proof (cases best)
  case None
  with assms show ?thesis
    by (intro none) (auto simp: pickDue_def Let_def pick_loop_fold choose_fold_None split: option.splits)
next
  case (Some m)
  let ?el = "eligible now (inFlight q) [] (pending (reap now q))"
  have f: "fold (choose_msg la) ?el None = Some m" "q' = (reap now q)\<lparr>inFlight := List.insert (MID m) (inFlight q)\<rparr>"
    using assms Some by (auto simp: pickDue_def Let_def pick_loop_fold split: option.splits)
  then have "?el \<noteq> []" by auto
  from choose_fold [OF this, of la] f(1) have "m \<in> set ?el" by auto
  with f Some some show ?thesis by (auto simp: eligible_mem)
qed

subsection \<open>The queue at work\<close>

text \<open>
  \<open>sending\<close> are the messages the workers hold between the two halves of \<^verbatim>\<open>attempt\<close> (picking and the first half
  are one step: nothing in between touches a message marked in flight), \<open>snap\<close> is the snapshot the flush loop
  is writing. \<open>starts\<close> and \<open>spent\<close> are history: every send begun, and one entry per send that failed
  and used up an attempt.
\<close>

record Run =
  rq :: OutboundQueue
  sending :: "outboundMessage list"
  snap :: "outboundMessage list option"
  starts :: "outboundMessage list"
  spent :: "nat list"

definition uses_attempt :: "send_result \<Rightarrow> bool" where
  "uses_attempt res \<longleftrightarrow> (case res of RecipientUnknown \<Rightarrow> True | SendFailed _ \<Rightarrow> True | _ \<Rightarrow> False)"

inductive worker_step :: "Run \<Rightarrow> Run \<Rightarrow> bool" where
  idle: "pickDue la now (rq s) = (None, q) \<Longrightarrow> worker_step s (s\<lparr>rq := q\<rparr>)"
| start: "pickDue la now (rq s) = (Some m, q) \<Longrightarrow> length (sending s) < workers (rq s) \<Longrightarrow>
    attempt_begin m q = (m', q') \<Longrightarrow>
    worker_step s (s\<lparr>rq := q', sending := sending s @ [m'], starts := starts s @ [m']\<rparr>)"
| finish: "m \<in> set (sending s) \<Longrightarrow> attempt_end m res hasNode now (rq s) = (path, q) \<Longrightarrow>
    worker_step s (s\<lparr>rq := q, sending := removeAll m (sending s),
      spent := (if uses_attempt res then mref m # spent s else spent s)\<rparr>)"
| take_snapshot: "snap s = None \<Longrightarrow> Flush_take (rq s) = (Some sn, q) \<Longrightarrow> worker_step s (s\<lparr>rq := q, snap := Some sn\<rparr>)"
| write_snapshot: "snap s = Some sn \<Longrightarrow> worker_step s (s\<lparr>rq := Flush_put sn (rq s), snap := None\<rparr>)"

text \<open>The rest of the service enqueues, and changes the id cache it shares with the queue (\<open>share\<close>).\<close>

inductive oq_step :: "Run \<Rightarrow> Run \<Rightarrow> bool" where
  enq: "newID \<notin> MID ` set (pending (rq s)) \<Longrightarrow>
    oq_step s (s\<lparr>rq := snd (enqueue recipient body flds bubble after newID now (rq s))\<rparr>)"
| share: "oq_step s (s\<lparr>rq := (rq s)\<lparr>qidmap := c\<rparr>\<rparr>)"
| work: "worker_step s t \<Longrightarrow> oq_step s t"

lemma oq_step_cases:
  assumes "oq_step s t"
  obtains
    (enq) newID recipient body flds bubble after now
      where "t = s\<lparr>rq := snd (enqueue recipient body flds bubble after newID now (rq s))\<rparr>" "newID \<notin> MID ` set (pending (rq s))"
  | (share) c where "t = s\<lparr>rq := (rq s)\<lparr>qidmap := c\<rparr>\<rparr>"
  | (idle) la now q where "t = s\<lparr>rq := q\<rparr>" "pickDue la now (rq s) = (None, q)"
  | (start) la now m q m' q'
      where "t = s\<lparr>rq := q', sending := sending s @ [m'], starts := starts s @ [m']\<rparr>"
        "pickDue la now (rq s) = (Some m, q)" "length (sending s) < workers (rq s)" "attempt_begin m q = (m', q')"
  | (finish) m res hasNode now path q
      where "t = s\<lparr>rq := q, sending := removeAll m (sending s), spent := (if uses_attempt res then mref m # spent s else spent s)\<rparr>"
        "m \<in> set (sending s)" "attempt_end m res hasNode now (rq s) = (path, q)"
  | (take_snapshot) sn q where "t = s\<lparr>rq := q, snap := Some sn\<rparr>" "snap s = None" "Flush_take (rq s) = (Some sn, q)"
  | (write_snapshot) sn where "t = s\<lparr>rq := Flush_put sn (rq s), snap := None\<rparr>" "snap s = Some sn"
  using assms
proof (cases rule: oq_step.cases)
  case enq
  then show thesis by (rule that(1))
next
  case share
  then show thesis by (rule that(2))
next
  case work
  then show thesis
  proof (cases rule: worker_step.cases)
    case idle
    then show thesis by (rule that(3))
  next
    case start
    then show thesis by (rule that(4))
  next
    case finish
    then show thesis by (rule that(5))
  next
    case take_snapshot
    then show thesis by (rule that(6))
  next
    case write_snapshot
    then show thesis by (rule that(7))
  qed
qed

subsection \<open>Order and identity\<close>

text \<open>What never changes of a message while it is queued; every step but an enqueue only drops messages.\<close>

definition mkey :: "outboundMessage \<Rightarrow> nat \<times> string \<times> bytes \<times> bool" where
  "mkey m = (mref m, MID m, Recipient m, AfterEarlier m)"

definition keys_ok :: "OutboundQueue \<Rightarrow> bool" where
  "keys_ok q \<longleftrightarrow> sorted_wrt (<) (map mref (pending q)) \<and> (\<forall>m \<in> set (pending q). mref m < next_ref q) \<and>
     distinct (map MID (pending q)) \<and> length (pending q) \<le> maxPendingMessages"

lemma sorted_wrt_subseq: "subseq xs ys \<Longrightarrow> sorted_wrt P ys \<Longrightarrow> sorted_wrt P xs"
proof (induction rule: list_emb.induct)
  case (list_emb_Cons2 x y xs ys)
  then show ?case using list_emb_set [of "(=)" xs ys] by auto
qed auto

lemma distinct_subseq: "subseq xs ys \<Longrightarrow> distinct ys \<Longrightarrow> distinct xs"
proof (induction rule: list_emb.induct)
  case (list_emb_Cons2 x y xs ys)
  then show ?case using list_emb_set [of "(=)" xs ys] by auto
qed auto

lemma subseq_set: "subseq xs ys \<Longrightarrow> set xs \<subseteq> set ys"
  by (auto dest: list_emb_set)

lemma subseq_keys:
  assumes "subseq (map mkey xs) (map mkey ys)"
  shows "subseq (map mref xs) (map mref ys)" "subseq (map MID xs) (map MID ys)"
proof -
  have "fst \<circ> mkey = mref" "(fst \<circ> snd) \<circ> mkey = MID" by (simp_all add: mkey_def fun_eq_iff)
  then show "subseq (map mref xs) (map mref ys)" "subseq (map MID xs) (map MID ys)"
    using subseq_map [OF assms, of fst] subseq_map [OF assms, of "fst \<circ> snd"] by (simp_all only: map_map)
qed

lemma keys_ok_subseq:
  assumes "keys_ok q" and "subseq (map mkey (pending q')) (map mkey (pending q))" and "next_ref q' = next_ref q"
  shows "keys_ok q'"
proof -
  note s = subseq_keys [OF assms(2)]
  have "mref ` set (pending q') \<subseteq> mref ` set (pending q)"
    using subseq_set [OF s(1)] by simp
  then have "\<forall>m \<in> set (pending q'). mref m < next_ref q'"
    using assms(1,3) by (fastforce simp: keys_ok_def)
  moreover have "length (pending q') \<le> length (pending q)"
    using list_emb_length [OF s(1)] by simp
  ultimately show ?thesis
    using assms(1) sorted_wrt_subseq [OF s(1)] distinct_subseq [OF s(2)] by (auto simp: keys_ok_def)
qed

lemma keys_ok_distinct: "keys_ok q \<Longrightarrow> distinct (map mref (pending q))"
  by (simp add: keys_ok_def strict_sorted_iff)

lemma subseq_filter_keys: "subseq (map mkey (filter P ms)) (map mkey ms)"
  by (intro subseq_map) simp

lemma map_mkey_upd:
  "(\<And>x. mkey (f x) = mkey x) \<Longrightarrow> map mkey (map (\<lambda>m. if mref m = r then f m else m) ms) = map mkey ms"
  by simp

lemma mkey_updates [simp]:
  "mkey (m\<lparr>Attempts := a\<rparr>) = mkey m" "mkey (m\<lparr>NextAttempt := t\<rparr>) = mkey m"
  "mkey (m\<lparr>Propagated := p\<rparr>) = mkey m"
  by (simp_all add: mkey_def)

lemma record_failure_keys:
  "subseq (map mkey (pending (snd (record_failure m u h now q)))) (map mkey (pending q))"
  by (auto simp: record_failure_def failLocked_def subseq_filter_keys comp_def if_distrib [of mkey] cong: if_cong)

subsection \<open>The outcome of an attempt\<close>

text \<open>What an attempt leaves of its own message: \<open>None\<close> when the message leaves the queue.\<close>

definition after_attempt ::
  "OutboundQueue \<Rightarrow> outboundMessage \<Rightarrow> send_result \<Rightarrow> bool \<Rightarrow> time \<Rightarrow> outboundMessage \<Rightarrow> outboundMessage option"
where
  "after_attempt q m res hasNode now x = (case res of
      Sent _ \<Rightarrow> None
    | NoPropagationNode \<Rightarrow> Some (x\<lparr>Attempts := Attempts x - 1, NextAttempt := now + retryWait q\<rparr>)
    | StampWorkersBusy \<Rightarrow> Some (x\<lparr>Attempts := Attempts x - 1, NextAttempt := now + retryWait q\<rparr>)
    | StampCostTooHigh \<Rightarrow> None
    | _ \<Rightarrow>
        if propagationFallback q \<and> \<not> Propagated m \<and> directBudget q \<le> Attempts m \<and> hasNode
        then Some (x\<lparr>Propagated := True, Attempts := 0, NextAttempt := now + retryWait q\<rparr>)
        else if maxAttempts q \<le> Attempts m then None
        else Some (x\<lparr>NextAttempt := now + (if res = RecipientUnknown \<and> pathlessTries q < Attempts m then pathRequestWait q
                                         else backoffWait q (Attempts m))\<rparr>))"

lemma set_map_filter: "y \<in> set (List.map_filter f xs) \<longleftrightarrow> (\<exists>x \<in> set xs. f x = Some y)"
  by (induction xs) (auto simp: map_filter_simps split: option.split)

lemma filter_as_map_filter: "filter P xs = List.map_filter (\<lambda>x. if P x then Some x else None) xs"
  by (induction xs) (auto simp: map_filter_simps)

lemma map_as_map_filter: "map f xs = List.map_filter (\<lambda>x. Some (f x)) xs"
  by (induction xs) (auto simp: map_filter_simps)

lemma map_filter_cong: "(\<And>x. x \<in> set xs \<Longrightarrow> f x = g x) \<Longrightarrow> List.map_filter f xs = List.map_filter g xs"
  by (induction xs) (auto simp: map_filter_simps split: option.split)

lemma directBudget_register [simp]: "directBudget (register_sent m res now q) = directBudget q"
  by (simp add: directBudget_def)

lemma register_sent_failed: "uses_attempt res \<Longrightarrow> register_sent m res now q = q"
  by (simp add: register_sent_def uses_attempt_def split: send_result.splits)

lemma record_failure_pending:
  assumes "res = RecipientUnknown \<or> (\<exists>e. res = SendFailed e)"
  shows "pending (snd (record_failure m (res = RecipientUnknown) hasNode now q)) =
    List.map_filter (\<lambda>x. if mref x = mref m then after_attempt q m res hasNode now x else Some x) (pending q)"
proof -
  have a: "after_attempt q m res hasNode now x =
      (if propagationFallback q \<and> \<not> Propagated m \<and> directBudget q \<le> Attempts m \<and> hasNode
        then Some (x\<lparr>Propagated := True, Attempts := 0, NextAttempt := now + retryWait q\<rparr>)
        else if maxAttempts q \<le> Attempts m then None
        else Some (x\<lparr>NextAttempt := now + (if res = RecipientUnknown \<and> pathlessTries q < Attempts m then pathRequestWait q
                                         else backoffWait q (Attempts m))\<rparr>))" for x
    using assms by (auto simp: after_attempt_def)
  show ?thesis
    unfolding record_failure_def failLocked_def a
    by (simp add: filter_as_map_filter map_as_map_filter) (auto intro!: map_filter_cong)
qed

lemma attempt_end_pending:
  "pending (snd (attempt_end m res hasNode now q)) =
    List.map_filter (\<lambda>x. if mref x = mref m then after_attempt q m res hasNode now x else Some x) (pending q)"
proof (cases "uses_attempt res")
  case True
  then have r: "res = RecipientUnknown \<or> (\<exists>e. res = SendFailed e)"
    by (simp add: uses_attempt_def split: send_result.splits)
  have "snd (attempt_end m res hasNode now q) = (let q' = snd (record_failure m (res = RecipientUnknown) hasNode now q)
      in q'\<lparr>inFlight := removeAll (MID m) (inFlight q')\<rparr>)"
    using r by (auto simp: attempt_end_def register_sent_failed [OF True] split: prod.split)
  then show ?thesis using record_failure_pending [OF r] by (simp add: Let_def)
next
  case False
  then show ?thesis
    by (cases res) (simp_all add: uses_attempt_def attempt_end_def after_attempt_def failStampCostLocked_def
        filter_as_map_filter map_as_map_filter, auto intro!: map_filter_cong simp: after_attempt_def)
qed

lemma record_failure_frame:
  "inFlight (snd (record_failure m u h now q)) = inFlight q" "next_ref (snd (record_failure m u h now q)) = next_ref q"
  "maxAttempts (snd (record_failure m u h now q)) = maxAttempts q" "workers (snd (record_failure m u h now q)) = workers q"
  "qstore (snd (record_failure m u h now q)) = qstore q"
  "qdirty (snd (record_failure m u h now q)) = (qdirty q \<or> qstore q \<noteq> None)"
  by (simp_all add: record_failure_def failLocked_def)

lemma attempt_end_frame:
  "inFlight (snd (attempt_end m res hasNode now q)) = removeAll (MID m) (inFlight q)"
  "next_ref (snd (attempt_end m res hasNode now q)) = next_ref q"
  "maxAttempts (snd (attempt_end m res hasNode now q)) = maxAttempts q"
  "workers (snd (attempt_end m res hasNode now q)) = workers q"
  "qstore (snd (attempt_end m res hasNode now q)) = qstore q"
  "qdirty (snd (attempt_end m res hasNode now q)) = (qdirty q \<or> qstore q \<noteq> None)"
  by (cases res; simp add: attempt_end_def failStampCostLocked_def Let_def case_prod_unfold record_failure_frame)+

subsection \<open>The core invariant\<close>

definition attempts_ok :: "Run \<Rightarrow> bool" where
  "attempts_ok s \<longleftrightarrow> (\<forall>x \<in> set (pending (rq s)).
     (x \<in> set (sending s) \<longrightarrow> 1 \<le> Attempts x) \<and>
     (x \<notin> set (sending s) \<longrightarrow> 0 \<le> Attempts x))"

definition oq_core :: "Run \<Rightarrow> bool" where
  "oq_core s \<longleftrightarrow> keys_ok (rq s) \<and> distinct (sending s) \<and> set (sending s) \<subseteq> set (pending (rq s)) \<and>
     set (inFlight (rq s)) = MID ` set (sending s) \<and> length (sending s) \<le> workers (rq s) \<and>
     maxAttempts (rq s) = maxDeliveryAttempts \<and> workers (rq s) = outboundWorkers \<and> attempts_ok s"

lemma oq_core_mrefs: "oq_core s \<Longrightarrow> distinct (map mref (pending (rq s)))"
  by (simp add: oq_core_def keys_ok_distinct)

lemma oq_core_same:
  assumes "oq_core s" and "x \<in> set (pending (rq s))" and "y \<in> set (pending (rq s))"
  shows "mref x = mref y \<longleftrightarrow> x = y"
  using distinct_mref_eq [OF oq_core_mrefs [OF assms(1)] assms(2,3)] by auto

lemma oq_core_reap:
  assumes "oq_core s"
  shows "oq_core (s\<lparr>rq := reap now (rq s)\<rparr>)"
proof -
  note p = reap_pending [OF oq_core_mrefs [OF assms], of now]
  have "keys_ok (reap now (rq s))"
    by (rule keys_ok_subseq [of "rq s"]) (use assms in \<open>simp_all add: oq_core_def p subseq_filter_keys\<close>)
  moreover have "set (sending s) \<subseteq> set (pending (reap now (rq s)))"
    using assms by (auto simp: p oq_core_def queue_expired_def)
  ultimately show ?thesis using assms by (auto simp: oq_core_def attempts_ok_def p)
qed

lemma oq_core_begin:
  assumes "oq_core s" and m: "m \<in> set (pending (rq s))" "MID m \<notin> set (inFlight (rq s))"
    and "length (sending s) < workers (rq s)" and b: "attempt_begin m ((rq s)\<lparr>inFlight := List.insert (MID m) (inFlight (rq s))\<rparr>) = (m', q')"
  shows "oq_core (s\<lparr>rq := q', sending := sending s @ [m'], starts := st\<rparr>)"
proof -
  have m': "m' = m\<lparr>Attempts := Attempts m + 1\<rparr>" using b by (auto simp: attempt_begin_def Let_def)
  have q': "pending q' = map (\<lambda>x. if mref x = mref m then x\<lparr>Attempts := Attempts x + 1\<rparr> else x) (pending (rq s))"
      "inFlight q' = List.insert (MID m) (inFlight (rq s))" "next_ref q' = next_ref (rq s)"
      "maxAttempts q' = maxAttempts (rq s)" "workers q' = workers (rq s)"
    using b by (auto simp: attempt_begin_def Let_def)
  have keys: "keys_ok q'"
    by (rule keys_ok_subseq [of "rq s"]) (use assms(1) in \<open>simp_all add: oq_core_def q' comp_def if_distrib [of mkey] cong: if_cong\<close>)
  have sends: "x \<in> set (pending (rq s))" "MID x \<in> set (inFlight (rq s))" "mref x \<noteq> mref m" if "x \<in> set (sending s)" for x
    using that assms(1) m oq_core_same [OF assms(1), of x m] by (auto simp: oq_core_def)
  have sub: "set (sending s @ [m']) \<subseteq> set (pending q')"
    using sends m(1) by (force simp: q' m')
  have new: "m' \<notin> set (sending s)" using sends(3) [of m'] by (auto simp: m')
  have att: "attempts_ok (s\<lparr>rq := q', sending := sending s @ [m'], starts := st\<rparr>)"
    unfolding attempts_ok_def
  proof
    fix x assume "x \<in> set (pending (rq (s\<lparr>rq := q', sending := sending s @ [m'], starts := st\<rparr>)))"
    then obtain y where y: "y \<in> set (pending (rq s))" "x = (if mref y = mref m then y\<lparr>Attempts := Attempts y + 1\<rparr> else y)"
      by (auto simp: q')
    have ok: "(y \<in> set (sending s) \<longrightarrow> 1 \<le> Attempts y) \<and>
        (y \<notin> set (sending s) \<longrightarrow> 0 \<le> Attempts y)"
      using assms(1) y(1) by (simp add: oq_core_def attempts_ok_def)
    show "(x \<in> set (sending (s\<lparr>rq := q', sending := sending s @ [m'], starts := st\<rparr>)) \<longrightarrow> 1 \<le> Attempts x) \<and>
        (x \<notin> set (sending (s\<lparr>rq := q', sending := sending s @ [m'], starts := st\<rparr>)) \<longrightarrow> 0 \<le> Attempts x)"
    proof (cases "mref y = mref m")
      case True
      then have "y = m" using oq_core_same [OF assms(1) y(1) m(1)] by simp
      moreover have "m \<notin> set (sending s)" using sends(3) by blast
      ultimately show ?thesis using ok y(2) m' by simp
    next
      case False
      with y(2) ok m' show ?thesis by auto
    qed
  qed
  show ?thesis using assms(1,4) keys sub new att by (auto simp: oq_core_def q' m')
qed

lemma after_attempt_frame:
  "after_attempt q m res h now x = Some y \<Longrightarrow> mkey y = mkey x"
  by (cases res) (auto simp: after_attempt_def split: if_splits)

lemma subseq_map_filter:
  "(\<And>x y. f x = Some y \<Longrightarrow> g y = g x) \<Longrightarrow> subseq (map g (List.map_filter f xs)) (map g xs)"
proof (induction xs)
  case (Cons x xs)
  show ?case
  proof (cases "f x")
    case (Some y)
    then show ?thesis using Cons by (simp add: map_filter_simps)
  qed (use Cons in \<open>simp add: map_filter_simps list_emb_Cons\<close>)
qed (simp add: map_filter_simps)

lemma attempt_end_mem:
  assumes "oq_core s" and "m \<in> set (sending s)"
  shows "y \<in> set (pending (snd (attempt_end m res h now (rq s)))) \<longleftrightarrow>
    (y \<in> set (pending (rq s)) \<and> y \<noteq> m \<and> mref y \<noteq> mref m) \<or> after_attempt (rq s) m res h now m = Some y"
proof -
  have m: "m \<in> set (pending (rq s))" using assms by (auto simp: oq_core_def)
  show ?thesis
    unfolding attempt_end_pending set_map_filter
    using m oq_core_same [OF assms(1) _ m] by (auto split: if_splits)
qed

lemma after_attempt_range:
  assumes "after_attempt q m res h now m = Some y" and "1 \<le> Attempts m"
  shows "0 \<le> Attempts y"
  using assms by (cases res) (auto simp: after_attempt_def split: if_splits)

lemma oq_core_finish:
  assumes "oq_core s" and m: "m \<in> set (sending s)" and e: "attempt_end m res h now (rq s) = (path, q)"
  shows "oq_core (s\<lparr>rq := q, sending := removeAll m (sending s), spent := sp\<rparr>)"
proof -
  have q: "q = snd (attempt_end m res h now (rq s))" using e by simp
  have mp: "m \<in> set (pending (rq s))" using assms(1,2) by (auto simp: oq_core_def)
  note frame = attempt_end_frame [of m res h now "rq s", folded q]
  note mem = attempt_end_mem [OF assms(1,2), of _ res h now, folded q]
  have "subseq (map mkey (pending q)) (map mkey (pending (rq s)))"
    unfolding q attempt_end_pending by (rule subseq_map_filter) (auto split: if_splits dest: after_attempt_frame)
  then have keys: "keys_ok q"
    by (rule keys_ok_subseq [rotated]) (use assms(1) frame in \<open>simp_all add: oq_core_def\<close>)
  have other: "x \<in> set (pending (rq s))" "mref x \<noteq> mref m" "MID x \<noteq> MID m" if "x \<in> set (sending s)" "x \<noteq> m" for x
  proof -
    show xp: "x \<in> set (pending (rq s))" using that assms(1) by (auto simp: oq_core_def)
    show "mref x \<noteq> mref m" using oq_core_same [OF assms(1) xp mp] that(2) by simp
    have "distinct (map MID (pending (rq s)))" using assms(1) by (simp add: oq_core_def keys_ok_def)
    then show "MID x \<noteq> MID m" using xp mp that(2) by (auto simp: distinct_map inj_on_def)
  qed
  have sub: "set (removeAll m (sending s)) \<subseteq> set (pending q)"
  proof
    fix x assume "x \<in> set (removeAll m (sending s))"
    then have "x \<in> set (sending s)" "x \<noteq> m" by simp_all
    with other(1,2) show "x \<in> set (pending q)" by (simp only: mem) blast
  qed
  have flight: "set (inFlight q) = MID ` set (removeAll m (sending s))"
  proof -
    have "set (inFlight q) = MID ` set (sending s) - {MID m}" using assms(1) by (simp add: frame oq_core_def)
    also have "\<dots> = MID ` (set (sending s) - {m})"
    proof (intro equalityI subsetI)
      fix i assume "i \<in> MID ` (set (sending s) - {m})"
      then obtain x where "x \<in> set (sending s)" "x \<noteq> m" "i = MID x" by blast
      with other(3) [of x] show "i \<in> MID ` set (sending s) - {MID m}" by simp
    qed auto
    finally show ?thesis by simp
  qed
  have len: "length (removeAll m (sending s)) \<le> workers q"
    by (rule order_trans [OF length_removeAll_less_eq]) (use assms(1) in \<open>simp add: frame oq_core_def\<close>)
  have am: "1 \<le> Attempts m"
    using assms(1) m mp by (auto simp: oq_core_def attempts_ok_def)
  have "attempts_ok (s\<lparr>rq := q, sending := removeAll m (sending s), spent := sp\<rparr>)"
    unfolding attempts_ok_def
  proof (intro ballI)
    fix y assume "y \<in> set (pending (rq (s\<lparr>rq := q, sending := removeAll m (sending s), spent := sp\<rparr>)))"
    then consider "y \<in> set (pending (rq s))" "y \<noteq> m" | "after_attempt (rq s) m res h now m = Some y" by (auto simp: mem)
    then show "(y \<in> set (sending (s\<lparr>rq := q, sending := removeAll m (sending s), spent := sp\<rparr>)) \<longrightarrow>
          1 \<le> Attempts y) \<and>
        (y \<notin> set (sending (s\<lparr>rq := q, sending := removeAll m (sending s), spent := sp\<rparr>)) \<longrightarrow>
          0 \<le> Attempts y)"
    proof cases
      case 1
      then show ?thesis using assms(1) by (auto simp: oq_core_def attempts_ok_def)
    next
      case 2
      have "mref y = mref m" using after_attempt_frame [OF 2] by (simp add: mkey_def)
      then have "y \<notin> set (removeAll m (sending s))" using other(2) by auto
      with after_attempt_range [OF 2 am] assms(1) show ?thesis by (auto simp: oq_core_def)
    qed
  qed
  with assms(1) keys sub flight len show ?thesis by (simp add: oq_core_def frame distinct_removeAll)
qed

lemma enqueue_frame:
  "inFlight (snd (enqueue r b f bub ae i now q)) = inFlight q" "maxAttempts (snd (enqueue r b f bub ae i now q)) = maxAttempts q"
  "workers (snd (enqueue r b f bub ae i now q)) = workers q" "qstore (snd (enqueue r b f bub ae i now q)) = qstore q"
  by (simp_all add: enqueue_def)

lemma enqueue_cases:
  obtains (full) "snd (enqueue r b f bub ae i now q) = q\<lparr>qdropped := qdropped q + 1\<rparr>" "maxPendingMessages \<le> length (pending q)"
  | (queued) m where "pending (snd (enqueue r b f bub ae i now q)) = pending q @ [m]" "mref m = next_ref q" "MID m = i"
      "Recipient m = r" "MBody m = b" "MFields m = f" "AfterEarlier m = ae" "Attempts m = 0" "EnqueuedAt m = now"
      "Propagated m = propagationAlways q" "NextAttempt m = 0" "MBubble m = bub"
      "next_ref (snd (enqueue r b f bub ae i now q)) = Suc (next_ref q)" "length (pending q) < maxPendingMessages"
      "fst (enqueue r b f bub ae i now q) = i"
      "qdirty (snd (enqueue r b f bub ae i now q)) = (qdirty q \<or> qstore q \<noteq> None)"
proof (cases "maxPendingMessages \<le> length (pending q)")
  case True
  then show ?thesis by (intro full) (simp_all add: enqueue_def)
next
  case False
  let ?m = "\<lparr>mref = next_ref q, MID = i, Recipient = r, MBody = b, MFields = f, MBubble = bub, Attempts = 0,
    NextAttempt = 0, EnqueuedAt = now, Propagated = propagationAlways q, AfterEarlier = ae\<rparr>"
  show ?thesis by (rule queued [of ?m]) (use False in \<open>simp_all add: enqueue_def\<close>)
qed

lemma oq_core_enqueue:
  assumes "oq_core s" and "i \<notin> MID ` set (pending (rq s))"
  shows "oq_core (s\<lparr>rq := snd (enqueue r b f bub ae i now (rq s))\<rparr>)"
proof (cases rule: enqueue_cases [of r b f bub ae i now "rq s"])
  case full
  then show ?thesis using assms(1) by (simp add: oq_core_def keys_ok_def attempts_ok_def)
next
  case (queued m)
  have "m \<notin> set (pending (rq s))" using queued(2) assms(1) by (auto simp: oq_core_def keys_ok_def)
  moreover have "keys_ok (snd (enqueue r b f bub ae i now (rq s)))"
    using assms queued by (auto simp: oq_core_def keys_ok_def sorted_wrt_append less_Suc_eq)
  ultimately show ?thesis
    using assms(1) queued(1,8) by (auto simp: oq_core_def attempts_ok_def enqueue_frame maxDeliveryAttempts_def)
qed

lemma Flush_put_frame:
  "pending (Flush_put sn q) = pending q" "inFlight (Flush_put sn q) = inFlight q" "next_ref (Flush_put sn q) = next_ref q"
  "maxAttempts (Flush_put sn q) = maxAttempts q" "workers (Flush_put sn q) = workers q"
  by (simp_all add: Flush_put_def split: option.split prod.split)

lemma Flush_take_frame:
  assumes "Flush_take q = (so, q')"
  shows "pending q' = pending q" "inFlight q' = inFlight q" "next_ref q' = next_ref q" "maxAttempts q' = maxAttempts q"
    "workers q' = workers q" "qstore q' = qstore q"
  using assms by (auto simp: Flush_take_def split: if_splits)

lemma oq_core_frame:
  assumes "oq_core s" and "pending q = pending (rq s)" and "inFlight q = inFlight (rq s)" and "next_ref q = next_ref (rq s)"
    and "maxAttempts q = maxAttempts (rq s)" and "workers q = workers (rq s)"
  shows "oq_core (s\<lparr>rq := q, snap := sn\<rparr>)"
  using assms by (simp add: oq_core_def keys_ok_def attempts_ok_def)

lemma oq_core_step:
  assumes "oq_core s" and "oq_step s t"
  shows "oq_core t"
  using assms(2,1)
proof (cases rule: oq_step_cases)
  case (enq newID recipient body flds bubble after now)
  then show ?thesis using oq_core_enqueue [OF assms(1)] by blast
next
  case (share c)
  have "oq_core (s\<lparr>rq := (rq s)\<lparr>qidmap := c\<rparr>, snap := snap s\<rparr>)" by (rule oq_core_frame [OF assms(1)]) simp_all
  then show ?thesis using share by simp
next
  case (idle la now q)
  from idle(2) show ?thesis by (cases rule: pickDue_cases) (use idle(1) oq_core_reap [OF assms(1)] in simp_all)
next
  case (start la now m q m' q')
  let ?s = "s\<lparr>rq := reap now (rq s)\<rparr>"
  from start(2) obtain ys zs where p: "q = (reap now (rq s))\<lparr>inFlight := List.insert (MID m) (inFlight (rq s))\<rparr>"
      "pending (reap now (rq s)) = ys @ m # zs" "sendable now (inFlight (rq s)) ys m"
    by (cases rule: pickDue_cases) auto
  have "oq_core (?s\<lparr>rq := q', sending := sending ?s @ [m'], starts := starts s @ [m']\<rparr>)"
    using p start(3,4) by (intro oq_core_begin [of ?s m] oq_core_reap assms(1)) (simp_all add: sendable_def)
  then show ?thesis using start(1) by simp
next
  case (finish m res hasNode now path q)
  then show ?thesis using oq_core_finish [OF assms(1)] by simp
next
  case (take_snapshot sn q)
  then show ?thesis using oq_core_frame [OF assms(1)] Flush_take_frame [OF take_snapshot(3)] by simp
next
  case (write_snapshot sn)
  then show ?thesis using oq_core_frame [OF assms(1)] Flush_put_frame [of sn "rq s"] by simp
qed

subsection \<open>Start-up\<close>

text \<open>
  A process configures the queue and loads the file before anything runs. The file is one that an earlier
  process could have left: distinct ids, no negative counts, no more messages than the bound.
\<close>

definition file_ok :: "outboundMessage list \<Rightarrow> bool" where
  "file_ok ms \<longleftrightarrow> distinct (map MID ms) \<and> length ms \<le> maxPendingMessages \<and> list_all (\<lambda>m. 0 \<le> Attempts m) ms"

definition configured :: "outboundMessage list store_file option \<Rightarrow> Cache option \<Rightarrow> bool \<Rightarrow> bool \<Rightarrow> int \<Rightarrow> OutboundQueue" where
  "configured st c fallback always direct = SetIDMap c (SetPropagation fallback always direct (newOutboundQueue st))"

inductive oq_init :: "Run \<Rightarrow> bool" where
  "LoadQueue (configured st c fallback always direct) = Inr q \<Longrightarrow>
   (\<And>f ms. st = Some f \<Longrightarrow> outboundStore_load f = Inr ms \<Longrightarrow> file_ok ms) \<Longrightarrow>
   oq_init \<lparr>rq = q, sending = [], snap = None, starts = [], spent = []\<rparr>"

lemma configured_frame [simp]:
  "pending (configured st c fb al da) = []" "inFlight (configured st c fb al da) = []" "next_ref (configured st c fb al da) = 0"
  "maxAttempts (configured st c fb al da) = maxDeliveryAttempts" "workers (configured st c fb al da) = outboundWorkers"
  "qstore (configured st c fb al da) = st" "qdirty (configured st c fb al da) = False"
  "propagationFallback (configured st c fb al da) = fb" "propagationAlways (configured st c fb al da) = al"
  by (simp_all add: configured_def SetIDMap_def SetPropagation_def newOutboundQueue_def)

lemma number_from_simps [simp]:
  "map mref (number_from n ms) = [n..<n + length ms]" "map MID (number_from n ms) = map MID ms"
  "map Attempts (number_from n ms) = map Attempts ms" "length (number_from n ms) = length ms"
  "map stored_msg (number_from n ms) = map stored_msg ms"
  by (induction ms arbitrary: n) (simp_all add: upt_conv_Cons stored_msg_def del: upt_Suc)

definition load_keep :: "bool \<Rightarrow> outboundMessage list \<Rightarrow> outboundMessage list" where
  "load_keep on ms = map (\<lambda>m. if Propagated m \<and> \<not> on then m\<lparr>Propagated := False\<rparr> else m)
     (filter (\<lambda>m. length (Recipient m) = 16) ms)"

lemma LoadQueue_cases:
  assumes "LoadQueue q = Inr q'"
  obtains (no_store) "qstore q = None" "q' = q"
  | (loaded) f ms where "qstore q = Some f" "outboundStore_load f = Inr ms"
      "q' = q\<lparr>pending := number_from (next_ref q) (load_keep (propagationFallback q \<or> propagationAlways q) ms),
              next_ref := next_ref q + length (load_keep (propagationFallback q \<or> propagationAlways q) ms)\<rparr>"
  using assms by (auto simp: LoadQueue_def Let_def load_keep_def split: option.splits sum.splits)

lemma load_keep_ok:
  assumes "file_ok ms"
  shows "distinct (map MID (load_keep on ms))" "length (load_keep on ms) \<le> maxPendingMessages"
    "\<forall>m \<in> set (load_keep on ms). 0 \<le> Attempts m"
proof -
  have "map MID (load_keep on ms) = map MID (filter (\<lambda>m. length (Recipient m) = 16) ms)" by (simp add: load_keep_def)
  then show "distinct (map MID (load_keep on ms))" using assms by (simp add: file_ok_def distinct_map_filter)
  show "length (load_keep on ms) \<le> maxPendingMessages"
    unfolding load_keep_def length_map
    by (rule le_trans [OF length_filter_le]) (use assms in \<open>simp add: file_ok_def\<close>)
  show "\<forall>m \<in> set (load_keep on ms). 0 \<le> Attempts m" using assms by (auto simp: load_keep_def file_ok_def list_all_iff)
qed

lemma number_from_attempts: "x \<in> set (number_from n ms) \<Longrightarrow> \<exists>m \<in> set ms. Attempts x = Attempts m"
  by (induction ms arbitrary: n) fastforce+

lemma number_from_mref: "x \<in> set (number_from n ms) \<Longrightarrow> mref x < n + length ms"
  by (induction ms arbitrary: n) fastforce+

lemma oq_core_init: "oq_init s \<Longrightarrow> oq_core s"
proof (induction rule: oq_init.induct)
  case (1 st c fallback always direct q)
  from 1(1) show ?case
  proof (cases rule: LoadQueue_cases)
    case no_store
    then show ?thesis by (simp add: oq_core_def keys_ok_def attempts_ok_def)
  next
    case (loaded f ms)
    let ?ms = "load_keep (fallback \<or> always) ms"
    note ok = load_keep_ok [OF 1(2) [of f ms], of "fallback \<or> always"]
    have q: "pending q = number_from 0 ?ms" "next_ref q = length ?ms" "inFlight q = []"
        "maxAttempts q = maxDeliveryAttempts" "workers q = outboundWorkers"
      using loaded(3) by simp_all
    have "keys_ok q"
      using ok loaded number_from_mref [of _ 0 ?ms] by (simp add: keys_ok_def q sorted_wrt_upt)
    moreover have "\<forall>x \<in> set (number_from 0 ?ms). 0 \<le> Attempts x"
      using ok(3) loaded number_from_attempts by fastforce
    ultimately show ?thesis by (simp add: oq_core_def attempts_ok_def q)
  qed
qed

interpretation oq_sys: step_system oq_init oq_step oq_core
  by unfold_locales (use oq_core_init oq_core_step in auto)

subsection \<open>A held message waits for everything before it\<close>

definition clear_before :: "OutboundQueue \<Rightarrow> outboundMessage \<Rightarrow> bool" where
  "clear_before q a \<longleftrightarrow> (\<forall>(r, i, rc, ae) \<in> mkey ` set (pending q). rc = Recipient a \<longrightarrow> \<not> r < mref a)"

definition held_ok :: "Run \<Rightarrow> bool" where
  "held_ok s \<longleftrightarrow> (\<forall>a \<in> set (starts s). mref a < next_ref (rq s) \<and> (AfterEarlier a \<longrightarrow> clear_before (rq s) a)) \<and>
     sorted_wrt (\<lambda>a b. AfterEarlier a \<and> Recipient b = Recipient a \<longrightarrow> \<not> mref b < mref a) (starts s)"

lemma reap_keys:
  assumes "oq_core s"
  shows "mkey ` set (pending (reap now (rq s))) \<subseteq> mkey ` set (pending (rq s))"
  unfolding reap_pending [OF oq_core_mrefs [OF assms]] by auto

lemma begin_keys:
  assumes "attempt_begin m q = (m', q')"
  shows "map mkey (pending q') = map mkey (pending q)" "next_ref q' = next_ref q" "mkey m' = mkey m"
  using assms by (auto simp: attempt_begin_def Let_def)

lemma no_new_key:
  "mkey ` A \<subseteq> mkey ` B \<Longrightarrow> n \<le> n' \<Longrightarrow> \<exists>new. mkey ` A \<subseteq> insert new (mkey ` B) \<and> n \<le> fst new \<and> n \<le> n'"
  by (rule exI [of _ "(n, [], [], False)"]) auto

lemma oq_step_keys:
  assumes "oq_core s" and "oq_step s t"
  shows "\<exists>new. mkey ` set (pending (rq t)) \<subseteq> insert new (mkey ` set (pending (rq s))) \<and> next_ref (rq s) \<le> fst new \<and>
    next_ref (rq s) \<le> next_ref (rq t)"
  using assms(2)
proof (cases rule: oq_step_cases)
  case (enq newID recipient body flds bubble after now)
  let ?q = "snd (enqueue recipient body flds bubble after newID now (rq s))"
  show ?thesis
  proof (cases rule: enqueue_cases [of recipient body flds bubble after newID now "rq s"])
    case full
    then show ?thesis using enq(1) by (intro no_new_key) simp_all
  next
    case (queued m)
    then show ?thesis using enq(1) by (intro exI [of _ "mkey m"]) (simp add: mkey_def)
  qed
next
  case (share c)
  then show ?thesis by (intro no_new_key) simp_all
next
  case (idle la now q)
  from idle(2) have "q = reap now (rq s)" by (cases rule: pickDue_cases) auto
  then show ?thesis using idle(1) reap_keys [OF assms(1), of now] by (intro no_new_key) simp_all
next
  case (start la now m q m' q')
  from start(2) have "pending q = pending (reap now (rq s))" "next_ref q = next_ref (rq s)"
    by (cases rule: pickDue_cases; simp)+
  moreover have "mkey ` set (pending q') = mkey ` set (pending q)"
    using begin_keys(1) [OF start(4)] by (metis list.set_map)
  ultimately show ?thesis
    using start(1) reap_keys [OF assms(1), of now] begin_keys(2) [OF start(4)] by (intro no_new_key) simp_all
next
  case (finish m res hasNode now path q)
  have "mkey y \<in> mkey ` set (pending (rq s))" if "y \<in> set (pending q)" for y
  proof -
    have "m \<in> set (pending (rq s))" using assms(1) finish(2) by (auto simp: oq_core_def)
    then show ?thesis
      using that attempt_end_mem [OF assms(1) finish(2), of y res hasNode now] finish(3) by (auto dest: after_attempt_frame)
  qed
  moreover have "next_ref q = next_ref (rq s)" using attempt_end_frame(2) [of m res hasNode now "rq s"] finish(3) by simp
  ultimately show ?thesis using finish(1) by (intro no_new_key) (simp_all add: image_subset_iff)
next
  case (take_snapshot sn q)
  then show ?thesis using Flush_take_frame [OF take_snapshot(3)] by (intro no_new_key) simp_all
next
  case (write_snapshot sn)
  then show ?thesis using Flush_put_frame [of sn "rq s"] by (intro no_new_key) simp_all
qed

lemma clear_before_step:
  assumes "oq_core s" and "oq_step s t" and "mref a < next_ref (rq s)" and "clear_before (rq s) a"
  shows "clear_before (rq t) a"
proof -
  obtain new where n: "mkey ` set (pending (rq t)) \<subseteq> insert new (mkey ` set (pending (rq s)))" "next_ref (rq s) \<le> fst new"
    using oq_step_keys [OF assms(1,2)] by blast
  have "\<not> r < mref a" if "(r, i, rc, ae) \<in> mkey ` set (pending (rq t))" "rc = Recipient a" for r i rc ae
  proof (cases "(r, i, rc, ae) = new")
    case True
    with n(2) assms(3) show ?thesis by auto
  next
    case False
    with n(1) that(1) have "(r, i, rc, ae) \<in> mkey ` set (pending (rq s))" by blast
    with assms(4) that(2) show ?thesis unfolding clear_before_def by blast
  qed
  then show ?thesis unfolding clear_before_def by blast
qed

lemma sendable_clear:
  assumes "keys_ok q" and "pending q = ys @ m # zs" and "sendable now busy ys m" and "AfterEarlier m"
  shows "clear_before q m"
proof -
  have "\<not> mref x < mref m" if "x \<in> set (ys @ m # zs)" "Recipient x = Recipient m" for x
  proof -
    have "x \<notin> set ys" using assms(3,4) that(2) by (auto simp: sendable_def hasEarlierFor_def list_ex_iff)
    then show ?thesis using that(1) assms(1,2) by (auto simp: keys_ok_def sorted_wrt_append)
  qed
  then show ?thesis unfolding clear_before_def assms(2) by (auto simp: mkey_def)
qed

lemma held_ok_step:
  assumes "oq_core s" and "held_ok s" and "oq_step s t"
  shows "held_ok t"
proof -
  have old: "mref a < next_ref (rq t) \<and> (AfterEarlier a \<longrightarrow> clear_before (rq t) a)" if "a \<in> set (starts s)" for a
    using assms(2) that clear_before_step [OF assms(1,3)] oq_step_keys [OF assms(1,3)] by (fastforce simp: held_ok_def)
  have srt: "sorted_wrt (\<lambda>a b. AfterEarlier a \<and> Recipient b = Recipient a \<longrightarrow> \<not> mref b < mref a) (starts s)"
    using assms(2) by (simp add: held_ok_def)
  from assms(3) show ?thesis
  proof (cases rule: oq_step_cases)
    case (start la now m q m' q')
    from start(2) obtain ys zs where p: "q = (reap now (rq s))\<lparr>inFlight := List.insert (MID m) (inFlight (rq s))\<rparr>"
        "pending (reap now (rq s)) = ys @ m # zs" "sendable now (inFlight (rq s)) ys m"
      by (cases rule: pickDue_cases) auto
    note b = begin_keys [OF start(4)]
    have same: "AfterEarlier m' = AfterEarlier m" "Recipient m' = Recipient m" "mref m' = mref m"
      using b(3) by (simp_all add: mkey_def)
    have kq: "keys_ok (reap now (rq s))" using oq_core_reap [OF assms(1), of now] by (simp add: oq_core_def)
    have pq: "mkey ` set (pending q') = mkey ` set (pending (reap now (rq s)))"
      using b(1) p(1) by (metis list.set_map OutboundQueue.select_convs(3) OutboundQueue.update_convs(4) OutboundQueue.surjective)
    have new: "mref m' < next_ref q'" "AfterEarlier m' \<longrightarrow> clear_before q' m'"
    proof -
      show "mref m' < next_ref q'" using kq p(1,2) b(2) same by (simp add: keys_ok_def)
      show "AfterEarlier m' \<longrightarrow> clear_before q' m'"
        using sendable_clear [OF kq p(2,3)] same pq by (simp add: clear_before_def)
    qed
    have "\<not> mref m' < mref a" if "a \<in> set (starts s)" "AfterEarlier a" "Recipient m' = Recipient a" for a
    proof -
      have "mkey m \<in> mkey ` set (pending (rq s))" using reap_keys [OF assms(1), of now] p(2) by auto
      moreover have "clear_before (rq s) a" using assms(2) that by (simp add: held_ok_def)
      ultimately show ?thesis using that(3) same by (auto simp: clear_before_def mkey_def)
    qed
    then show ?thesis using start(1) old new srt by (auto simp: held_ok_def sorted_wrt_append)
  qed (use old srt in \<open>simp_all add: held_ok_def\<close>)
qed

lemma held_ok_reachable: "oq_init s0 \<Longrightarrow> reaches oq_step s0 s \<Longrightarrow> held_ok s"
proof (erule (1) oq_sys.inv_extend [of held_ok, rotated 2])
  fix s assume "oq_init s"
  then show "held_ok s" by (induction rule: oq_init.induct) (simp add: held_ok_def)
qed (rule held_ok_step)

subsection \<open>The attempt budget\<close>

definition route_base :: "outboundMessage \<Rightarrow> int" where
  "route_base m = (if Propagated m then maxDeliveryAttempts else 0)"

definition used_before :: "Run \<Rightarrow> outboundMessage \<Rightarrow> int" where
  "used_before s m = Attempts m - (if m \<in> set (sending s) then 1 else 0)"

definition spent_ok :: "Run \<Rightarrow> bool" where
  "spent_ok s \<longleftrightarrow>
     (\<forall>r. int (count_list (spent s) r) \<le> 2 * maxDeliveryAttempts \<and> (next_ref (rq s) \<le> r \<longrightarrow> count_list (spent s) r = 0)) \<and>
     (\<forall>x \<in> set (pending (rq s)). int (count_list (spent s) (mref x)) \<le> route_base x + used_before s x \<and>
        int (count_list (spent s) (mref x)) < route_base x + maxDeliveryAttempts)"

lemma spent_ok_shrink:
  assumes "spent_ok s" and "set (pending (rq t)) \<subseteq> set (pending (rq s))" and "sending t = sending s" and "spent t = spent s"
    and "next_ref (rq t) = next_ref (rq s)"
  shows "spent_ok t"
proof -
  have "used_before t = used_before s" by (simp add: fun_eq_iff used_before_def assms(3))
  with assms show ?thesis unfolding spent_ok_def by (simp add: subset_iff)
qed

lemma after_attempt_spent:
  assumes "after_attempt q m res h now m = Some y" and "uses_attempt res" and "maxAttempts q = maxDeliveryAttempts"
    and "int n < route_base m + maxDeliveryAttempts" and "int n \<le> route_base m + Attempts m - 1"
  shows "int (Suc n) \<le> route_base y + Attempts y \<and> int (Suc n) < route_base y + maxDeliveryAttempts"
proof -
  consider "y = m\<lparr>Propagated := True, Attempts := 0, NextAttempt := now + retryWait q\<rparr>" "\<not> Propagated m"
    | "Attempts m < maxDeliveryAttempts" "Attempts y = Attempts m" "Propagated y = Propagated m"
    using assms(1-3) by (cases res) (auto simp: after_attempt_def uses_attempt_def split: if_splits)
  then show ?thesis using assms(4,5) by cases (auto simp: route_base_def maxDeliveryAttempts_def)
qed

lemma after_attempt_unspent:
  assumes "after_attempt q m res h now m = Some y" and "\<not> uses_attempt res"
  shows "Attempts y = Attempts m - 1" "Propagated y = Propagated m"
  using assms by (cases res; auto simp: after_attempt_def uses_attempt_def split: if_splits)+

lemma spent_ok_finish:
  assumes c: "oq_core s" and "spent_ok s" and m: "m \<in> set (sending s)" and e: "attempt_end m res h now (rq s) = (path, q)"
  shows "spent_ok (s\<lparr>rq := q, sending := removeAll m (sending s),
      spent := (if uses_attempt res then mref m # spent s else spent s)\<rparr>)" (is "spent_ok ?t")
proof -
  have mp: "m \<in> set (pending (rq s))" using c m by (auto simp: oq_core_def)
  have nr: "next_ref q = next_ref (rq s)" using attempt_end_frame(2) [of m res h now "rq s"] e by simp
  have old: "int (count_list (spent s) (mref m)) < route_base m + maxDeliveryAttempts"
      "int (count_list (spent s) (mref m)) \<le> route_base m + Attempts m - 1"
    using assms(2) mp m by (auto simp: spent_ok_def used_before_def)
  have mlt: "mref m < next_ref (rq s)" using c mp by (simp add: oq_core_def keys_ok_def)
  have glob: "int (count_list (spent ?t) r) \<le> 2 * maxDeliveryAttempts \<and> (next_ref (rq ?t) \<le> r \<longrightarrow> count_list (spent ?t) r = 0)" for r
    using assms(2) old(1) mlt nr by (auto simp: spent_ok_def route_base_def split: if_splits)
  have "int (count_list (spent ?t) (mref y)) \<le> route_base y + used_before ?t y \<and>
      int (count_list (spent ?t) (mref y)) < route_base y + maxDeliveryAttempts" if y: "y \<in> set (pending q)" for y
  proof -
    consider "y \<in> set (pending (rq s))" "y \<noteq> m" "mref y \<noteq> mref m" | "after_attempt (rq s) m res h now m = Some y"
      using y attempt_end_mem [OF c m, of y res h now] e by auto
    then show ?thesis
    proof cases
      case 1
      then show ?thesis using assms(2) by (auto simp: spent_ok_def used_before_def)
    next
      case 2
      have ry: "mref y = mref m" using after_attempt_frame [OF 2] by (simp add: mkey_def)
      have "y \<notin> set (removeAll m (sending s))"
      proof
        assume "y \<in> set (removeAll m (sending s))"
        then have "y \<in> set (pending (rq s))" "y \<noteq> m" using c by (auto simp: oq_core_def)
        then show False using oq_core_same [OF c _ mp] ry by blast
      qed
      then have u: "used_before ?t y = Attempts y" by (simp add: used_before_def)
      show ?thesis
      proof (cases "uses_attempt res")
        case True
        have "maxAttempts (rq s) = maxDeliveryAttempts" using c by (simp add: oq_core_def)
        from after_attempt_spent [OF 2 True this old] u True ry show ?thesis by simp
      next
        case False
        with after_attempt_unspent [OF 2 False] old u ry show ?thesis by (simp add: route_base_def)
      qed
    qed
  qed
  with glob show ?thesis by (simp add: spent_ok_def)
qed

lemma spent_ok_step:
  assumes "oq_core s" and "spent_ok s" and "oq_step s t"
  shows "spent_ok t"
  using assms(3)
proof (cases rule: oq_step_cases)
  case (enq newID recipient body flds bubble after now)
  show ?thesis
  proof (cases rule: enqueue_cases [of recipient body flds bubble after newID now "rq s"])
    case full
    then show ?thesis using enq(1) spent_ok_shrink [OF assms(2), of t] by simp
  next
    case (queued m)
    have "m \<notin> set (pending (rq s))"
      using queued(2) assms(1) by (auto simp: oq_core_def keys_ok_def)
    then have "m \<notin> set (sending s)" using assms(1) by (auto simp: oq_core_def)
    moreover have "used_before t = used_before s" using enq(1) by (simp add: fun_eq_iff used_before_def)
    moreover have "count_list (spent s) (next_ref (rq s)) = 0" using assms(2) by (simp add: spent_ok_def)
    ultimately show ?thesis
      using assms(2) enq(1) queued unfolding spent_ok_def
      by (auto simp: used_before_def route_base_def maxDeliveryAttempts_def)
  qed
next
  case (share c)
  then show ?thesis using spent_ok_shrink [OF assms(2), of t] by simp
next
  case (idle la now q)
  from idle(2) have "q = reap now (rq s)" by (cases rule: pickDue_cases) auto
  then show ?thesis
    using idle(1) spent_ok_shrink [OF assms(2), of t] reap_pending [OF oq_core_mrefs [OF assms(1)], of now] by auto
next
  case (start la now m q m' q')
  from start(2) obtain ys zs where p: "q = (reap now (rq s))\<lparr>inFlight := List.insert (MID m) (inFlight (rq s))\<rparr>"
      "pending (reap now (rq s)) = ys @ m # zs" "sendable now (inFlight (rq s)) ys m"
    by (cases rule: pickDue_cases) auto
  have mp: "m \<in> set (pending (rq s))" using p(2) reap_pending [OF oq_core_mrefs [OF assms(1)], of now] by (metis filter_is_subset in_set_conv_decomp subsetD)
  have nm: "m \<notin> set (sending s)" using p(3) assms(1) by (auto simp: sendable_def oq_core_def)
  have m': "m' = m\<lparr>Attempts := Attempts m + 1\<rparr>" using start(4) by (auto simp: attempt_begin_def Let_def)
  have pend: "y \<in> set (pending q') \<Longrightarrow> y = m' \<or> (y \<in> set (pending (rq s)) \<and> mref y \<noteq> mref m)" for y
    using start(4) p(1) reap_pending [OF oq_core_mrefs [OF assms(1)], of now] oq_core_same [OF assms(1) _ mp]
    by (auto simp: attempt_begin_def Let_def m')
  have "int (count_list (spent s) (mref y)) \<le> route_base y + used_before t y \<and>
      int (count_list (spent s) (mref y)) < route_base y + maxDeliveryAttempts" if "y \<in> set (pending q')" for y
    using pend [OF that]
  proof
    assume "y = m'"
    then show ?thesis using assms(2) mp nm start(1) by (auto simp: spent_ok_def used_before_def m' route_base_def)
  next
    assume y: "y \<in> set (pending (rq s)) \<and> mref y \<noteq> mref m"
    then have "used_before t y = used_before s y" using start(1) by (auto simp: used_before_def m')
    with y assms(2) show ?thesis by (simp add: spent_ok_def)
  qed
  moreover have "next_ref q' = next_ref (rq s)" using begin_keys(2) [OF start(4)] p(1) by simp
  ultimately show ?thesis using assms(2) start(1) by (simp add: spent_ok_def)
next
  case (finish m res hasNode now path q)
  then show ?thesis using spent_ok_finish [OF assms(1,2)] by simp
next
  case (take_snapshot sn q)
  then show ?thesis using spent_ok_shrink [OF assms(2), of t] Flush_take_frame [OF take_snapshot(3)] by simp
next
  case (write_snapshot sn)
  then show ?thesis using spent_ok_shrink [OF assms(2), of t] Flush_put_frame [of sn "rq s"] by simp
qed

lemma spent_ok_init: "oq_init s \<Longrightarrow> spent_ok s"
proof -
  assume i: "oq_init s"
  then have "\<forall>x \<in> set (pending (rq s)). 0 \<le> Attempts x" "sending s = []" "spent s = []"
    using oq_core_init [OF i] by (auto simp: oq_core_def attempts_ok_def elim!: oq_init.cases)
  then show "spent_ok s" by (auto simp: spent_ok_def used_before_def route_base_def maxDeliveryAttempts_def)
qed

lemma spent_ok_reachable: "oq_init s0 \<Longrightarrow> reaches oq_step s0 s \<Longrightarrow> spent_ok s"
  by (erule (1) oq_sys.inv_extend [of spent_ok, rotated 2]) (blast intro: spent_ok_init spent_ok_step)+

end
