(* ===== verification/Startup.thy ===== *)
theory Startup
  imports Relay OutboundProps
begin

text \<open>
  Start-up in \<^verbatim>\<open>service.go\<close> and the single-instance lock of \<^verbatim>\<open>lock_unix.go\<close>: where the identity comes from and how it
  is backed up, the order in which \<^verbatim>\<open>New\<close> loads the stores and what it refuses, the state it hands to the handlers.
\<close>

subsection \<open>Base64\<close>

definition b64_char :: "nat \<Rightarrow> char" where
  "b64_char n = chr (if n < 26 then n + 65 else if n < 52 then n + 71 else if n < 62 then n - 4 else if n = 62 then 43 else 47)"

fun b64_encode :: "bytes \<Rightarrow> string" where
  "b64_encode [] = []"
| "b64_encode [a] = [b64_char (ord a div 4), b64_char (ord a mod 4 * 16), CHR ''='', CHR ''='']"
| "b64_encode [a, b] = [b64_char (ord a div 4), b64_char (ord a mod 4 * 16 + ord b div 16), b64_char (ord b mod 16 * 4), CHR ''='']"
| "b64_encode (a # b # c # bs) =
     b64_char (ord a div 4) # b64_char (ord a mod 4 * 16 + ord b div 16) # b64_char (ord b mod 16 * 4 + ord c div 64) #
     b64_char (ord c mod 64) # b64_encode bs"

lemma b64_value_char: "n < 64 \<Longrightarrow> b64_value (b64_char n) = Some n"
  by (auto simp: b64_value_def b64_char_def Let_def)

lemma b64_char_graphic: "n < 64 \<Longrightarrow> graphic (b64_char n) \<and> b64_char n \<noteq> CHR ''=''"
proof -
  assume "n < 64"
  then have "33 \<le> ord (b64_char n) \<and> ord (b64_char n) < 127 \<and> ord (b64_char n) \<noteq> 61" by (auto simp: b64_char_def)
  then show ?thesis by (auto simp: graphic_def)
qed

lemma ord_parts:
  "ord c div 4 < 64" "ord c div 16 < 16" "ord c div 64 < 4" "ord c div 16 mod 16 = ord c div 16" "ord c div 64 mod 4 = ord c div 64"
  "ord c div 16 div 16 = 0" "ord c div 64 div 4 = 0"
  using ord_lt_256 [of c] by (simp_all add: div_less_iff_less_mult div_eq_0_iff)

lemma b64_sextets:
  "ord a mod 4 * 16 < 64" "ord a mod 4 * 16 + ord b div 16 < 64" "ord b mod 16 * 4 < 64"
  "ord b mod 16 * 4 + ord c div 64 < 64" "ord c mod 64 < 64"
proof -
  have "ord a mod 4 < 4" "ord b mod 16 < 16" "ord c mod 64 < 64" by simp_all
  then show "ord a mod 4 * 16 < 64" "ord a mod 4 * 16 + ord b div 16 < 64" "ord b mod 16 * 4 < 64"
    "ord b mod 16 * 4 + ord c div 64 < 64" "ord c mod 64 < 64" using ord_parts(2) [of b] ord_parts(3) [of c] by linarith+
qed

lemma b64_quanta_encode: "b64_quanta (b64_encode bs) = Some bs"
  by (induction bs rule: b64_encode.induct)
    (simp_all add: b64_value_char b64_char_graphic b64_sextets ord_parts)

lemma b64_encode_chars: "c \<in> set (b64_encode bs) \<Longrightarrow> graphic c"
proof (induction bs rule: b64_encode.induct)
  case (2 a)
  then show ?case using b64_char_graphic ord_parts b64_sextets by (auto simp: graphic_def)
next
  case (3 a b)
  then show ?case using b64_char_graphic ord_parts b64_sextets by (auto simp: graphic_def)
next
  case (4 a b c bs)
  then show ?case using b64_char_graphic ord_parts b64_sextets by auto
qed simp

lemma b64_decode_encode: "b64_decode (b64_encode bs) = Some bs"
proof -
  have "filter (\<lambda>c. c \<noteq> CHR 0x0A \<and> c \<noteq> CHR 0x0D) (b64_encode bs) = b64_encode bs"
    using b64_encode_chars by (fastforce simp: filter_id_conv graphic_def)
  then show ?thesis by (simp add: b64_decode_def b64_quanta_encode)
qed

subsection \<open>The identity\<close>

text \<open>
  The identities belong to the network library: a type \<open>'i\<close> with its constructors. \<open>saveIdentity\<close> is \<^verbatim>\<open>Identity.Save\<close>
  on a file system, \<open>sys\<close> the errors of the calls of the backup's write, \<open>mk\<close> the one of its \<^verbatim>\<open>MkdirAll\<close>.
\<close>

record 'i identity_lib =
  IdentityFromPrivateKey :: "bytes \<Rightarrow> string + 'i"
  PrivateKey :: "'i \<Rightarrow> bytes"
  IdentityFromFile :: "bytes \<Rightarrow> string + 'i"
  NewIdentity :: "string + 'i"
  saveIdentity :: "'i \<Rightarrow> string \<Rightarrow> fs \<Rightarrow> string option \<times> fs"

datatype identity_error = NotBase64 | BadKey string | LibErr string | SaveErr string

definition writeIdentityBackup ::
  "string option \<Rightarrow> (syscall \<Rightarrow> string option) \<Rightarrow> nat \<Rightarrow> string \<Rightarrow> string \<Rightarrow> string \<Rightarrow> fs \<Rightarrow> string option \<times> fs"
where
  "writeIdentityBackup mk sys part tmp path b64 f = (case mk of
      Some e \<Rightarrow> (Some e, f)
    | None \<Rightarrow> (case atomicWrite path tmp (b64 @ nl) sys part f of (e, f', _) \<Rightarrow> (e, f')))"

definition loadOrCreateIdentity ::
  "'i identity_lib \<Rightarrow> string option \<Rightarrow> (syscall \<Rightarrow> string option) \<Rightarrow> nat \<Rightarrow> string \<Rightarrow> string \<Rightarrow> string \<Rightarrow> fs \<Rightarrow>
   (identity_error + 'i) \<times> fs"
where
  "loadOrCreateIdentity lib mk sys part tmp b64 identityPath f =
     (let t = TrimSpace b64 in
      if t \<noteq> [] then
        (case b64_decode t of
           None \<Rightarrow> (Inl NotBase64, f)
         | Some raw \<Rightarrow> (case IdentityFromPrivateKey lib raw of Inl e \<Rightarrow> (Inl (BadKey e), f) | Inr i \<Rightarrow> (Inr i, f)))
      else (case f identityPath of
          Some dat \<Rightarrow> (case IdentityFromFile lib dat of Inl e \<Rightarrow> (Inl (LibErr e), f) | Inr i \<Rightarrow> (Inr i, f))
        | None \<Rightarrow>
            (case NewIdentity lib of
               Inl e \<Rightarrow> (Inl (LibErr e), f)
             | Inr i \<Rightarrow>
                 (case saveIdentity lib i identityPath f of
                    (Some e, f1) \<Rightarrow> (Inl (SaveErr e), f1)
                  | (None, f1) \<Rightarrow>
                      (Inr i, snd (writeIdentityBackup mk sys part tmp (identityPath @ ''.b64.txt'') (b64_encode (PrivateKey lib i)) f1))))))"

lemma decode_last_ascii:
  assumes "ord c < 128"
  shows "decode_last_rune (p @ [c]) = (ord c, 1)"
proof -
  have "\<not> is_cont c" using assms by (simp add: is_cont_def)
  then have "\<exists>ks. filter (\<lambda>k. k \<le> length (p @ [c]) \<and> \<not> is_cont ((p @ [c]) ! (length (p @ [c]) - k))) [1, 2, 3, 4] = 1 # ks"
    by (simp add: nth_append)
  then show ?thesis using assms by (auto simp: decode_last_rune_def decode_rune_ascii simp del: filter.simps)
qed

lemma space_width_last_graphic: "graphic c \<Longrightarrow> space_width_last (p @ [c]) = 0"
  by (simp add: space_width_last_def decode_last_ascii graphic_def is_space_rune_def)

lemma TrimSpace_graphic:
  assumes "\<forall>c \<in> set t. graphic c"
  shows "TrimSpace (t @ nl) = t"
proof (cases t rule: rev_cases)
  case Nil
  then show ?thesis by (simp add: TrimSpace_def space_width_def is_space_rune_def decode_rune_ascii trim_right_space.simps)
next
  case (snoc p c)
  obtain d t' where t: "t = d # t'" by (cases t) (use snoc in simp_all)
  have l: "trim_left_space (t @ nl) = t @ nl"
    using assms t by (simp add: space_width_graphic)
  have "space_width_last (t @ nl) = 1"
    by (simp add: space_width_last_def decode_last_ascii is_space_rune_def)
  then have "trim_right_space (t @ nl) = trim_right_space t" by (subst trim_right_space.simps) simp
  also have "\<dots> = t" using snoc assms by (intro trim_right_fixed) (simp add: space_width_last_graphic)
  finally show ?thesis using l by (simp add: TrimSpace_def)
qed

lemma backup_written:
  assumes "\<And>c. sys c = None" and "tmp \<noteq> path"
  shows "snd (writeIdentityBackup None sys part tmp path b64 f) path = Some (b64 @ nl)"
  using assms by (simp add: writeIdentityBackup_def atomicWrite_def Let_def)

text \<open>
  C40: The printed advice works. When the service has created its identity and written the backup file, the
  text of that file, pasted as it is into \<^verbatim>\<open>service.identity_b64\<close>, passes the check of the configuration and gives the same identity on
  any machine, whatever its files hold, and nothing is written.
\<close>
theorem identity_backup_restores:
  assumes "NewIdentity lib = Inr i" and "saveIdentity lib i path f = (None, f1)"
    and "IdentityFromPrivateKey lib (PrivateKey lib i) = Inr i" and "length (PrivateKey lib i) = 64"
    and "f path = None" and "\<And>c. sys c = None" and "tmp \<noteq> path @ ''.b64.txt''"
    and "loadOrCreateIdentity lib None sys part tmp [] path f = (r, f2)"
  shows "r = Inr i \<and> (\<exists>b. f2 (path @ ''.b64.txt'') = Some b \<and>
    loadOrCreateIdentity lib mk' sys' part' tmp' b path' g = (Inr i, g) \<and>
    check_b64 (s\<lparr>IdentityB64 := b\<rparr>) = Inr (s\<lparr>IdentityB64 := TrimSpace b\<rparr>) \<and> TrimSpace b \<noteq> [])"
proof -
  let ?e = "b64_encode (PrivateKey lib i)"
  have blank: "TrimSpace [] = []" by (simp add: TrimSpace_def trim_right_space.simps)
  have "f2 = snd (writeIdentityBackup None sys part tmp (path @ ''.b64.txt'') ?e f1)" and r: "r = Inr i"
    using assms(1,2,5,8) blank by (simp_all add: loadOrCreateIdentity_def)
  then have b: "f2 (path @ ''.b64.txt'') = Some (?e @ nl)" using backup_written [OF assms(6,7)] by simp
  have t: "TrimSpace (?e @ nl) = ?e" using b64_encode_chars by (intro TrimSpace_graphic) blast
  have ne: "?e \<noteq> []" using assms(4) b64_decode_encode [of "PrivateKey lib i"] by (auto simp: b64_decode_def)
  show ?thesis
    using r b t ne assms(3,4) b64_decode_encode
    by (auto simp: loadOrCreateIdentity_def check_b64_def identityPrivateKeyLen_def)
qed

definition demoIdentities :: "bytes identity_lib" where
  "demoIdentities = \<lparr>IdentityFromPrivateKey = (\<lambda>b. if length b = 64 then Inr b else Inl ''length''), PrivateKey = (\<lambda>i. i),
     IdentityFromFile = (\<lambda>b. Inr b), NewIdentity = Inr (replicate 64 CHR ''k''), saveIdentity = (\<lambda>i p f. (None, f(p \<mapsto> i)))\<rparr>"

theorem identity_backup_restores_witness:
  "\<exists>b. snd (loadOrCreateIdentity demoIdentities None (\<lambda>c. None) 0 ''tmp'' [] ''id'' (\<lambda>p. None)) ''id.b64.txt'' = Some b \<and>
     fst (loadOrCreateIdentity demoIdentities None (\<lambda>c. None) 0 ''tmp'' b ''other'' (\<lambda>p. None)) = Inr (replicate 64 CHR ''k'')"
proof -
  obtain r f2 where rf: "loadOrCreateIdentity demoIdentities None (\<lambda>c. None) 0 ''tmp'' [] ''id'' (\<lambda>p. None) = (r, f2)" by fastforce
  have "\<exists>b. f2 (''id'' @ ''.b64.txt'') = Some b \<and>
      loadOrCreateIdentity demoIdentities None (\<lambda>c. None) 0 ''tmp'' b ''other'' (\<lambda>p. None) = (Inr (replicate 64 CHR ''k''), \<lambda>p. None)"
    using identity_backup_restores [OF _ _ _ _ _ _ _ rf, of "replicate 64 CHR ''k''" "(\<lambda>p. None)(''id'' \<mapsto> replicate 64 CHR ''k'')"
      None "\<lambda>c. None" 0 "''tmp''" "''other''" "\<lambda>p. None"]
    by (force simp: demoIdentities_def)
  then show ?thesis using rf by auto
qed

subsection \<open>The single-instance lock\<close>

text \<open>
  \<open>holder\<close> is the process the kernel lets hold the lock, \<open>lockText\<close> the contents of the lock file. The open and
  the \<^verbatim>\<open>flock\<close> call can fail for other reasons (\<open>opn\<close>, \<open>flk\<close>), and so can the truncation that precedes the note of the
  process id (\<open>trunc\<close>).
\<close>

record lock_file =
  holder :: "nat option"
  lockText :: bytes

datatype lock_error = InstanceHeld string | LockUnavailable string

definition readLockHolder :: "bytes \<Rightarrow> string" where
  "readLockHolder dat = (let s = TrimSpace (take 32 dat) in if Atoi s = None \<or> s = [] then [] else s)"

definition acquireInstanceLock ::
  "string option \<Rightarrow> string option \<Rightarrow> bool \<Rightarrow> nat \<Rightarrow> lock_file \<Rightarrow> lock_error option \<times> lock_file"
where
  "acquireInstanceLock opn flk trunc pid lf = (case opn of
      Some e \<Rightarrow> (Some (LockUnavailable e), lf)
    | None \<Rightarrow>
        if holder lf \<noteq> None then (Some (InstanceHeld (readLockHolder (lockText lf))), lf)
        else (case flk of
            Some e \<Rightarrow> (Some (LockUnavailable e), lf)
          | None \<Rightarrow> (None, lf\<lparr>holder := Some pid, lockText := (if trunc then Itoa (int pid) @ nl else lockText lf)\<rparr>)))"

definition releaseInstanceLock :: "lock_file \<Rightarrow> lock_file" where
  "releaseInstanceLock lf = lf\<lparr>holder := None\<rparr>"

lemma refused_names_holder:
  assumes "acquireInstanceLock None None True pid lf = (None, lf')" and "pid \<le> 9999999"
  shows "acquireInstanceLock None flk t pid' lf' = (Some (InstanceHeld (Itoa (int pid))), lf')"
proof -
  have lf': "holder lf' = Some pid" "lockText lf' = dec_nat pid @ nl"
    using assms(1) by (auto simp: acquireInstanceLock_def Itoa_def split: if_splits)
  have "length (dec_nat pid) \<le> 7" using length_dec_nat_mono [OF assms(2)] by (simp add: dec_nat.simps)
  then have tk: "take 32 (dec_nat pid @ nl) = dec_nat pid @ nl" by simp
  have "\<forall>c \<in> set (dec_nat pid). graphic c"
    using dec_nat_digits [of pid] by (auto simp: list_all_iff is_digit_def graphic_def)
  then have t: "TrimSpace (dec_nat pid @ nl) = dec_nat pid" by (rule TrimSpace_graphic)
  have "Atoi (dec_nat pid) \<noteq> None" using assms(2) Atoi_Itoa [of "int pid"] by (simp add: Itoa_def minInt_def maxInt_def)
  then show ?thesis using lf' tk t dec_nat_digits [of pid]
    by (auto simp: acquireInstanceLock_def readLockHolder_def Itoa_def Let_def)
qed

subsection \<open>Building the service\<close>

text \<open>
  What the environment answers while \<^verbatim>\<open>New\<close> runs: the errors of the calls that prepare directories, log and
  network, the outcome of the lock and of the identity, and the files of the four stores.
\<close>

record startup =
  identityDirErr :: "string option"
  rosterFile :: "State store_file"
  historyFile :: "Entry list store_file"
  infoFile :: "fileFormat store_file"
  logErr :: "string option"
  stateDirErr :: "string option"
  lockErr :: "lock_error option"
  identityErr :: "string option"
  deliveryErr :: "string option"
  queueFile :: "outboundMessage list store_file"

definition dedupMaxEntries :: int where "dedupMaxEntries = 50000"

definition held_text :: "string \<Rightarrow> string" where
  "held_text h = ''instance lock already held'' @ (if h = [] then [] else '' by PID '' @ h)"

definition opt_fail :: "string \<Rightarrow> string option \<Rightarrow> string + 'a \<Rightarrow> string + 'a" where
  "opt_fail pre e k = (case e of Some m \<Rightarrow> Inl (pre @ m) | None \<Rightarrow> k)"

definition sum_fail :: "string \<Rightarrow> string + 'b \<Rightarrow> ('b \<Rightarrow> string + 'a) \<Rightarrow> string + 'a" where
  "sum_fail pre r k = (case r of Inl m \<Rightarrow> Inl (pre @ m) | Inr x \<Rightarrow> k x)"

definition start_queue :: "Config \<Rightarrow> outboundMessage list store_file \<Rightarrow> OutboundQueue" where
  "start_queue c f =
     (let p = Config.Propagation c; q = newOutboundQueue (Some f) in
      if PropagationConfig.Enabled p
      then SetPropagation (Mode p = PropagationModeFallback) (Mode p = PropagationModeAlways) (DirectAttempts p) q else q)"

definition start_cache :: "Config \<Rightarrow> OutboundQueue \<Rightarrow> OutboundQueue" where
  "start_cache c q =
     (let s = Config.Service c in if IDCacheTTL s > 0 then SetIDMap (Some (NewCache (IDCacheTTL s) (IDCacheMax s))) q else q)"

definition start_dedup :: "Config \<Rightarrow> dedupCache option" where
  "start_dedup c =
     (let w = DedupWindow (Config.Service c) in if w > 0 then Some (newDedupCache w dedupMaxEntries) else None)"

text \<open>The function fields of the dispatcher are set by \<open>wire\<close> at each call.\<close>

definition start_dispatcher :: "(nat \<Rightarrow> bool) \<Rightarrow> Config \<Rightarrow> Roster \<Rightarrow> Store \<Rightarrow> Dispatcher" where
  "start_dispatcher fits c r st = \<lparr>Cfg = c, Rost = r, Info = Some st, Announce = None, PathLookup = None, OnJoin = True,
     OnAdminAdd = True, LookupAnnouncedName = None, MaxReplyContentBytes = 0, OverflowLog = True, PacketFits = fits\<rparr>"

definition NewService :: "unicode \<Rightarrow> (nat \<Rightarrow> bool) \<Rightarrow> startup \<Rightarrow> time \<Rightarrow> Config \<Rightarrow> string + Service" where
  "NewService un fits su now c =
     opt_fail ''create state dir: '' (identityDirErr su) (
     sum_fail ''load roster: '' (New un (Some (rosterFile su))) (\<lambda>r.
     sum_fail ''load history: '' (NewLog (historyFile su) (Count (Replay c))) (\<lambda>hl.
     sum_fail ''load group info: '' (load (infoFile su)) (\<lambda>st.
     opt_fail ''open log: '' (logErr su) (
     opt_fail ''create state dir: '' (stateDirErr su) (
     case lockErr su of
       Some (InstanceHeld h) \<Rightarrow>
         Inl (''another fwdsvc is already running with state_path '' @ Quote un (StatePath (Config.Service c)) @ '' ('' @ held_text h @ '') '' @
           mdash @ '' refusing to start to avoid duplicate message delivery; stop the other instance first (check with: pgrep -x fwdsvc)'')
     | _ \<Rightarrow>
         (let r' = snd (enrollConfigRoles c now r) in
          opt_fail '''' (identityErr su) (
          opt_fail ''register delivery: '' (deliveryErr su) (
          sum_fail ''load outbound queue: '' (LoadQueue (start_queue c (queueFile su))) (\<lambda>q.
            Inr \<lparr>disp = start_dispatcher fits c r' st, hist = hl, outbound = start_cache c q, dedup = start_dedup c,
                 replayLimit = [], tasks = []\<rparr>))))))))))"

lemma NewService_cases:
  assumes "NewService un fits su now c = Inr s"
  obtains r hl st q where "New un (Some (rosterFile su)) = Inr r" "NewLog (historyFile su) (Count (Replay c)) = Inr hl"
    "load (infoFile su) = Inr st" "LoadQueue (start_queue c (queueFile su)) = Inr q"
    "s = \<lparr>disp = start_dispatcher fits c (snd (enrollConfigRoles c now r)) st, hist = hl, outbound = start_cache c q,
          dedup = start_dedup c, replayLimit = [], tasks = []\<rparr>"
    "\<And>h. lockErr su \<noteq> Some (InstanceHeld h)"
  using assms
  by (auto simp: NewService_def opt_fail_def sum_fail_def Let_def split: option.splits sum.splits lock_error.splits)

lemma LoadQueue_cache: "LoadQueue (q\<lparr>qidmap := x\<rparr>) = map_sum id (\<lambda>q'. q'\<lparr>qidmap := x\<rparr>) (LoadQueue q)"
  by (simp add: LoadQueue_def Let_def split: option.split sum.split)

text \<open>The queue the service starts with is one the queue's own run may start with.\<close>

lemma start_queue_init:
  assumes "LoadQueue (start_queue c f) = Inr q" and "\<And>ms. outboundStore_load f = Inr ms \<Longrightarrow> file_ok ms"
  shows "oq_init \<lparr>rq = start_cache c q, sending = [], snap = None, starts = [], spent = []\<rparr>"
proof -
  obtain fb al da where sq: "start_queue c f = SetPropagation fb al da (newOutboundQueue (Some f))"
  proof (cases "PropagationConfig.Enabled (Config.Propagation c)")
    case False
    then show thesis using that [of False False 0] by (simp add: start_queue_def SetPropagation_def newOutboundQueue_def)
  qed (use that in \<open>simp add: start_queue_def Let_def\<close>)
  obtain x where x: "start_cache c q = q\<lparr>qidmap := x\<rparr>"
  proof (cases "IDCacheTTL (Config.Service c) > 0")
    case False
    then show thesis using that [of "qidmap q"] by (simp add: start_cache_def)
  qed (use that in \<open>simp add: start_cache_def SetIDMap_def Let_def\<close>)
  have "LoadQueue (configured (Some f) x fb al da) = Inr (q\<lparr>qidmap := x\<rparr>)"
    using assms(1) sq by (simp add: configured_def SetIDMap_def LoadQueue_cache)
  from oq_init.intros [OF this] assms(2) x show ?thesis by auto
qed

end
