(* ===== verification/OutboundThms.thy ===== *)
theory OutboundThms
  imports OutboundProps
begin

text \<open>
  What the outbound queue promises: on disk, in the order of sends, in the number of attempts, in the choice
  of the next message. Each theorem is about every interleaving of workers, enqueues and the flush loop.
\<close>

subsection \<open>What is on disk\<close>

text \<open>
  The number of attempts of a message that is being sent is not yet settled, so the comparison of the file
  with the queue disregards it there.
\<close>

definition settled :: "string list \<Rightarrow> outboundMessage \<Rightarrow> outboundMessage" where
  "settled busy m = (if MID m \<in> set busy then m\<lparr>Attempts := 0\<rparr> else m)"

definition agrees :: "outboundMessage list \<Rightarrow> OutboundQueue \<Rightarrow> bool" where
  "agrees ms q \<longleftrightarrow> map (settled (inFlight q)) ms = map (settled (inFlight q) \<circ> stored_msg) (pending q)"

definition on_disk :: "OutboundQueue \<Rightarrow> bool" where
  "on_disk q \<longleftrightarrow> (\<exists>f ms. qstore q = Some f \<and> outboundStore_load f = Inr ms \<and> agrees ms q)"

definition disk_ok :: "Run \<Rightarrow> bool" where
  "disk_ok s \<longleftrightarrow> qstore (rq s) = None \<or>
     ((qdirty (rq s) \<or> snap s \<noteq> None \<or> on_disk (rq s)) \<and> (\<forall>sn. snap s = Some sn \<longrightarrow> qdirty (rq s) \<or> agrees sn (rq s)))"

lemma MID_stored [simp]: "MID (stored_msg m) = MID m" by (simp add: stored_msg_def)

lemma settled_more: "set busy \<subseteq> set busy' \<Longrightarrow> settled busy' (settled busy m) = settled busy' m"
  by (auto simp: settled_def)

lemma agrees_busy:
  assumes "agrees ms q" and "set (inFlight q) \<subseteq> set busy"
    and "map (settled busy \<circ> stored_msg) p = map (settled busy \<circ> stored_msg) (pending q)"
  shows "map (settled busy) ms = map (settled busy \<circ> stored_msg) p"
proof -
  have "map (settled busy) ms = map (settled busy) (map (settled (inFlight q)) ms)"
    by (simp add: settled_more [OF assms(2)])
  also have "\<dots> = map (settled busy) (map (settled (inFlight q) \<circ> stored_msg) (pending q))"
    using assms(1) by (simp only: agrees_def)
  also have "\<dots> = map (settled busy \<circ> stored_msg) (pending q)"
    by (simp add: settled_more [OF assms(2)])
  finally show ?thesis using assms(3) by simp
qed

lemma on_disk_mono:
  assumes "on_disk q" and "qstore q' = qstore q" and "\<And>ms. agrees ms q \<Longrightarrow> agrees ms q'"
  shows "on_disk q'"
  using assms by (auto simp: on_disk_def)

text \<open>A step that marks the queue, or changes nothing the file can show, keeps the file in step.\<close>

lemma disk_ok_keep:
  assumes "disk_ok s" and "qstore (rq t) = qstore (rq s)" and "snap t = snap s"
    and "qdirty (rq t) \<or> qstore (rq s) = None \<or> (qdirty (rq t) = qdirty (rq s) \<and> (\<forall>ms. agrees ms (rq s) \<longrightarrow> agrees ms (rq t)))"
  shows "disk_ok t"
  using assms on_disk_mono [of "rq s" "rq t"] by (auto simp: disk_ok_def)

lemma agrees_begin:
  assumes "oq_core s" and "m \<in> set (pending (rq s))" and "agrees ms (rq s)"
    and "attempt_begin m ((rq s)\<lparr>inFlight := List.insert (MID m) (inFlight (rq s))\<rparr>) = (m', q')"
  shows "agrees ms q'"
proof -
  let ?busy = "List.insert (MID m) (inFlight (rq s))"
  have q': "pending q' = map (\<lambda>x. if mref x = mref m then x\<lparr>Attempts := Attempts x + 1\<rparr> else x) (pending (rq s))"
      "inFlight q' = ?busy"
    using assms(4) by (auto simp: attempt_begin_def Let_def)
  have "(settled ?busy \<circ> stored_msg) (if mref x = mref m then x\<lparr>Attempts := Attempts x + 1\<rparr> else x) =
      (settled ?busy \<circ> stored_msg) x" if "x \<in> set (pending (rq s))" for x
    using oq_core_same [OF assms(1) that assms(2)] by (simp add: settled_def stored_msg_def)
  then have "map (settled ?busy \<circ> stored_msg) (pending q') = map (settled ?busy \<circ> stored_msg) (pending (rq s))"
    unfolding q' map_map by (intro map_cong HOL.refl) (simp only: comp_apply)
  moreover have "set (inFlight (rq s)) \<subseteq> set ?busy" by auto
  ultimately show ?thesis using agrees_busy [OF assms(3)] by (simp add: agrees_def q'(2))
qed

lemma disk_ok_step:
  assumes c: "oq_core s" and "disk_ok s" and "oq_step s t"
  shows "disk_ok t"
  using assms(3)
proof (cases rule: oq_step_cases)
  case (enq newID recipient body flds bubble after now)
  show ?thesis
  proof (rule disk_ok_keep [OF assms(2)])
    show "qdirty (rq t) \<or> qstore (rq s) = None \<or> (qdirty (rq t) = qdirty (rq s) \<and> (\<forall>ms. agrees ms (rq s) \<longrightarrow> agrees ms (rq t)))"
      by (cases "qstore (rq s)"; cases rule: enqueue_cases [of recipient body flds bubble after newID now "rq s"])
        (use enq(1) in \<open>simp_all add: agrees_def\<close>)
  qed (use enq(1) in \<open>simp_all add: enqueue_frame\<close>)
next
  case (share c)
  then show ?thesis by (intro disk_ok_keep [OF assms(2)]) (simp_all add: agrees_def)
next
  case (idle la now q)
  from idle(2) have q: "q = reap now (rq s)" by (cases rule: pickDue_cases) auto
  show ?thesis
    by (rule disk_ok_keep [OF assms(2)]) (use idle(1) q reap_dirty [of now "rq s"]
      reap_pending [OF oq_core_mrefs [OF c], of now] in \<open>auto simp: agrees_def filter_id_conv\<close>)
next
  case (start la now m q m' q')
  from start(2) obtain ys zs where p: "q = (reap now (rq s))\<lparr>inFlight := List.insert (MID m) (inFlight (rq s))\<rparr>"
      "pending (reap now (rq s)) = ys @ m # zs"
    by (cases rule: pickDue_cases) auto
  let ?s = "s\<lparr>rq := reap now (rq s)\<rparr>"
  have r: "disk_ok ?s"
    by (rule disk_ok_keep [OF assms(2)]) (use reap_dirty [of now "rq s"]
      reap_pending [OF oq_core_mrefs [OF c], of now] in \<open>auto simp: agrees_def filter_id_conv\<close>)
  have b: "attempt_begin m ((rq ?s)\<lparr>inFlight := List.insert (MID m) (inFlight (rq ?s))\<rparr>) = (m', q')"
    using start(4) p(1) by simp
  have "qdirty q' = qdirty (rq ?s)" "qstore q' = qstore (rq ?s)" using b by (auto simp: attempt_begin_def Let_def)
  moreover have "agrees ms q'" if "agrees ms (rq ?s)" for ms
    using agrees_begin [OF oq_core_reap [OF c, of now] _ that b] p(2) by simp
  ultimately show ?thesis
    by (intro disk_ok_keep [OF r]) (use start(1) in simp_all)
next
  case (finish m res hasNode now path q)
  then show ?thesis
    using attempt_end_frame(5,6) [of m res hasNode now "rq s"] by (intro disk_ok_keep [OF assms(2)]) auto
next
  case (take_snapshot sn q)
  have "agrees (map stored_msg (pending (rq s))) q" using Flush_take_frame [OF take_snapshot(3)] by (simp add: agrees_def)
  moreover have "sn = map stored_msg (pending (rq s))" using take_snapshot(3) by (auto simp: Flush_take_def split: if_splits)
  ultimately show ?thesis using take_snapshot(1) by (simp add: disk_ok_def)
next
  case (write_snapshot sn)
  show ?thesis
  proof (cases "qstore (rq s)")
    case (Some f)
    obtain e f' where e: "Save sn f = (e, f')" by (cases "Save sn f")
    have "outboundStore_load f' = Inr sn" if "e = None"
      using Save_ok [of sn f f'] e that by (simp add: outboundStore_load_def ReadStore_def)
    moreover have "agrees sn (Flush_put sn (rq s)) = agrees sn (rq s)" by (simp add: agrees_def Flush_put_frame)
    ultimately show ?thesis
      using assms(2) write_snapshot Some e
      by (cases e) (auto simp: disk_ok_def on_disk_def Flush_put_def agrees_def)
  qed (use write_snapshot in \<open>simp add: disk_ok_def Flush_put_def\<close>)
qed

text \<open>A start-up that found no file, or kept every message of the file as it was.\<close>

definition clean_start :: "Run \<Rightarrow> bool" where
  "clean_start s \<longleftrightarrow> oq_init s \<and> (qstore (rq s) = None \<or> on_disk (rq s))"

lemma disk_ok_reachable:
  assumes "clean_start s0" and "reaches oq_step s0 s"
  shows "disk_ok s"
  using assms(2,1)
proof (induction rule: reaches.induct)
  case (refl s)
  then show ?case by (auto simp: clean_start_def disk_ok_def elim!: oq_init.cases)
next
  case (step s0 s t)
  then have "oq_core s" using oq_sys.inv_reachable by (auto simp: clean_start_def)
  with step disk_ok_step show ?case by blast
qed

lemma stored_msg_demote: "stored_msg (m\<lparr>Propagated := False\<rparr>) = (stored_msg m)\<lparr>Propagated := False\<rparr>"
  by (simp add: stored_msg_def)

lemma stored_msg_simps [simp]:
  "Recipient (stored_msg m) = Recipient m" "Propagated (stored_msg m) = Propagated m" "stored_msg (stored_msg m) = stored_msg m"
  by (simp_all add: stored_msg_def)

text \<open>
  Loading a file of stored messages: the well-addressed ones in their order, and with propagation turned off
  in the configuration all of them direct.
\<close>

lemma LoadQueue_stored:
  assumes "outboundStore_load f = Inr (map stored_msg ms)"
  shows "\<exists>q. LoadQueue (configured (Some f) c fallback always direct) = Inr q \<and>
    map stored_msg (pending q) = map (\<lambda>m. (stored_msg m)\<lparr>Propagated := Propagated m \<and> (fallback \<or> always)\<rparr>)
      (filter (\<lambda>m. length (Recipient m) = 16) ms) \<and>
    map mref (pending q) = [0..<length (pending q)] \<and> inFlight q = [] \<and> \<not> qdirty q"
proof -
  have k: "map stored_msg (load_keep on (map stored_msg xs)) =
      map (\<lambda>m. (stored_msg m)\<lparr>Propagated := Propagated m \<and> on\<rparr>) (filter (\<lambda>m. length (Recipient m) = 16) xs)" for on xs
    by (induction xs) (auto simp: load_keep_def stored_msg_def)
  show ?thesis
    using assms k [of "fallback \<or> always" ms]
    by (simp add: LoadQueue_def Let_def load_keep_def [symmetric] del: map_map)
qed

text \<open>
  C16: what a restart finds. Whatever workers, enqueues and flushes did, once the queue is at rest (nothing being sent
  or written, nothing marked) the file holds exactly the queued messages in their order, without their
  attachments; and a new process that reads the file, whatever its propagation settings, starts with exactly these messages in
  this order: identifier, recipient, text, attempts, times and hold unchanged, only messages whose recipient is not a
  hash of 16 bytes left out and, if the new configuration has propagation off, the others set back to
  direct delivery. A flush whose write fails leaves the queue marked, so that the next flush writes again.
  (Texts and recipients are byte slices in the file, base64, so nothing is lost in JSON.)
\<close>

theorem outbound_restart:
  assumes "clean_start s0" and "reaches oq_step s0 s" and "qstore (rq s) = Some f"
  shows "(sending s = [] \<and> snap s = None \<and> \<not> qdirty (rq s) \<longrightarrow>
      outboundStore_load f = Inr (map stored_msg (pending (rq s))) \<and>
      (\<forall>c fallback always direct. \<exists>q. LoadQueue (configured (Some f) c fallback always direct) = Inr q \<and>
         map stored_msg (pending q) = map (\<lambda>m. (stored_msg m)\<lparr>Propagated := Propagated m \<and> (fallback \<or> always)\<rparr>)
           (filter (\<lambda>m. length (Recipient m) = 16) (pending (rq s))) \<and>
         map mref (pending q) = [0..<length (pending q)] \<and> inFlight q = [] \<and> \<not> qdirty q)) \<and>
    (\<forall>e as. answers f = Some e # as \<and> qdirty (rq s) \<longrightarrow> qdirty (FlushQueue (rq s)))"
proof -
  have "outboundStore_load f = Inr (map stored_msg (pending (rq s)))"
    if rest: "sending s = []" "snap s = None" "\<not> qdirty (rq s)"
  proof -
    have "inFlight (rq s) = []"
      using oq_sys.inv_reachable [of s0 s] assms(1,2) rest(1) by (simp add: oq_core_def clean_start_def)
    moreover from this have "settled (inFlight (rq s)) = (\<lambda>m. m)" by (simp add: settled_def fun_eq_iff)
    moreover have "on_disk (rq s)" using disk_ok_reachable [OF assms(1,2)] rest assms(3) by (simp add: disk_ok_def)
    ultimately show ?thesis using assms(3) by (auto simp: on_disk_def agrees_def comp_def)
  qed
  then show ?thesis
    using assms(3) LoadQueue_stored by (auto simp: FlushQueue_def Flush_take_def Flush_put_def Save_def)
qed

subsection \<open>Order, budget and bounds\<close>

text \<open>
  C13: a held message comes last. In every run, once a message enqueued with \<^verbatim>\<open>EnqueueAfterEarlier\<close> has been handed
  to a worker, no message enqueued before it to the same recipient is sent any more, is being sent, or
  is still queued; retries, parallel workers and restarts of other sends included.
\<close>

theorem held_message_last:
  assumes "oq_init s0" and "reaches oq_step s0 s" and "starts s = xs @ a # ys" and "AfterEarlier a"
  shows "(\<forall>b \<in> set ys. Recipient b = Recipient a \<longrightarrow> mref a \<le> mref b) \<and>
    (\<forall>b \<in> set (pending (rq s)) \<union> set (sending s). Recipient b = Recipient a \<longrightarrow> mref a \<le> mref b)"
proof -
  have h: "held_ok s" using held_ok_reachable [OF assms(1,2)] .
  have sub: "set (sending s) \<subseteq> set (pending (rq s))"
    using oq_sys.inv_reachable [OF assms(1,2)] by (simp add: oq_core_def)
  have "clear_before (rq s) a" using h assms(3,4) by (simp add: held_ok_def)
  then have q: "\<forall>b \<in> set (pending (rq s)). Recipient b = Recipient a \<longrightarrow> mref a \<le> mref b"
    unfolding clear_before_def by (force simp: mkey_def)
  moreover have "\<forall>b \<in> set ys. Recipient b = Recipient a \<longrightarrow> mref a \<le> mref b"
    using h assms(3,4) by (auto simp: held_ok_def sorted_wrt_append not_less)
  ultimately show ?thesis using sub by blast
qed

text \<open>
  C15: bounded effort. In every run no message fails more than ten counted attempts (five direct, five through a
  propagation node), at most eight messages are on the wire at once and no message is with two workers at
  the same time, and the queue never holds more than ten thousand messages.
\<close>

theorem attempts_and_workers_bounded:
  assumes "oq_init s0" and "reaches oq_step s0 s"
  shows "count_list (spent s) r \<le> 10 \<and> length (sending s) \<le> 8 \<and> distinct (map mref (sending s)) \<and>
    pendingCount (rq s) \<le> 10000"
proof -
  have c: "oq_core s" using oq_sys.inv_reachable [OF assms] .
  have "int (count_list (spent s) r) \<le> 10"
    using spent_ok_reachable [OF assms] by (simp add: spent_ok_def maxDeliveryAttempts_def)
  moreover have "inj_on mref (set (sending s))"
    using c oq_core_same [OF c] by (auto simp: inj_on_def oq_core_def)
  ultimately show ?thesis
    using c by (simp add: oq_core_def keys_ok_def outboundWorkers_def maxPendingMessages_def pendingCount_def distinct_map)
qed

lemma hasEarlierFor_iff: "hasEarlierFor ys r \<longleftrightarrow> r \<in> Recipient ` set ys"
  by (auto simp: hasEarlierFor_def list_ex_iff)

text \<open>
  C14: nothing stays forever. After any visit of a worker to the queue, no message that is not being sent is
  older than a day; and a worker that finds nothing to do leaves no message behind that could go: for every
  recipient with queued messages, the first of them is being sent or not yet due. So a held message waits
  only for messages that are themselves on their way out.
\<close>

theorem queue_drains:
  assumes "oq_init s0" and "reaches oq_step s0 s" and "pickDue la now (rq s) = (best, q)"
  shows "(\<forall>m \<in> set (pending q). MID m \<notin> set (inFlight q) \<and> EnqueuedAt m \<noteq> 0 \<longrightarrow> now - EnqueuedAt m \<le> 24 * Hour) \<and>
    (best = None \<longrightarrow> (\<forall>ys m zs. pending q = ys @ m # zs \<and> Recipient m \<notin> Recipient ` set ys \<longrightarrow>
       MID m \<in> set (inFlight q) \<or> (NextAttempt m \<noteq> 0 \<and> now < NextAttempt m)))"
proof -
  have c: "oq_core s" using oq_sys.inv_reachable [OF assms(1,2)] .
  note rp = reap_pending [OF oq_core_mrefs [OF c], of now]
  have age: "now - EnqueuedAt m \<le> 24 * Hour"
    if "m \<in> set (pending (reap now (rq s)))" "MID m \<notin> set (inFlight (rq s))" "EnqueuedAt m \<noteq> 0" for m
    using that time_sub_greater_iff [of maxQueueAge now "EnqueuedAt m"]
    by (auto simp: rp queue_expired_def maxQueueAge_def duration_defs)
  from assms(3) show ?thesis
  proof (cases rule: pickDue_cases)
    case none
    have "MID m \<in> set (inFlight q) \<or> (NextAttempt m \<noteq> 0 \<and> now < NextAttempt m)"
      if "pending q = ys @ m # zs" "Recipient m \<notin> Recipient ` set ys" for ys m zs
    proof -
      have "\<not> sendable now (inFlight (rq s)) ys m"
        using eligible_mem [of m now "inFlight (rq s)" "[]" "pending (reap now (rq s))"] none that(1) by auto
      moreover have "\<not> hasEarlierFor ys (Recipient m)" using that(2) by (simp only: hasEarlierFor_iff not_False_eq_True)
      ultimately show ?thesis using none(2) by (auto simp: sendable_def)
    qed
    with none age show ?thesis by auto
  next
    case (some m ys zs)
    then show ?thesis using age by auto
  qed
qed

text \<open>The order of announces spelled out.\<close>

lemma not_better_iff: "\<not> better a b \<longleftrightarrow> (\<forall>t. a = Some t \<longrightarrow> (\<exists>u. b = Some u \<and> t \<le> u))"
  by (auto simp: better_def not_less split: option.splits)

lemma better_iff: "better a b \<longleftrightarrow> (\<exists>t. a = Some t \<and> (\<forall>u. b = Some u \<longrightarrow> u < t))"
  by (auto simp: better_def split: option.splits)

lemma pick_best:
  assumes "oq_init s0" and "reaches oq_step s0 s" and "pickDue la now (rq s) = (Some m, q)"
  shows "m \<in> set (eligible now (inFlight (rq s)) [] (pending q)) \<and>
    (\<forall>x \<in> set (eligible now (inFlight (rq s)) [] (pending q)).
       \<not> better (la (Recipient x)) (la (Recipient m)) \<and>
       (mref x < mref m \<longrightarrow> better (la (Recipient m)) (la (Recipient x))))"
proof -
  have c: "oq_core s" using oq_sys.inv_reachable [OF assms(1,2)] .
  let ?p = "pending (reap now (rq s))"
  let ?el = "eligible now (inFlight (rq s)) [] ?p"
  have f: "fold (choose_msg la) ?el None = Some m" and pq: "pending q = ?p"
    using assms(3) by (auto simp: pickDue_def Let_def pick_loop_fold split: option.splits)
  then have "?el \<noteq> []" by auto
  from choose_fold [OF this, of la] f obtain ys zs where e: "?el = ys @ m # zs"
      "\<forall>x \<in> set ?el. \<not> better (la (Recipient x)) (la (Recipient m))" "\<forall>x \<in> set ys. better (la (Recipient m)) (la (Recipient x))"
    by auto
  have "subseq (eligible now b ahead p) p" for b ahead p by (induction p arbitrary: ahead) auto
  then have "subseq (map mref ?el) (map mref ?p)" by (intro subseq_map)
  moreover have "sorted_wrt (<) (map mref ?p)"
    using oq_core_reap [OF c, of now] by (simp add: oq_core_def keys_ok_def)
  ultimately have "sorted_wrt (<) (map mref ?el)" by (rule sorted_wrt_subseq)
  then have "x \<in> set ys" if "x \<in> set ?el" "mref x < mref m" for x
    using that e(1) by (auto simp: sorted_wrt_append)
  with e pq show ?thesis by auto
qed

lemma sendable_reads:
  "sendable now busy ahead m \<longleftrightarrow> MID m \<notin> set busy \<and> (NextAttempt m = 0 \<or> NextAttempt m \<le> now) \<and>
     (AfterEarlier m \<longrightarrow> Recipient m \<notin> Recipient ` set ahead)"
  by (auto simp: sendable_def hasEarlierFor_iff)

text \<open>
  C36: who goes first. When a worker takes a message out of a queue that stands at \<open>ys @ m # zs\<close>, that message is not being sent, it is
  due, and if it is held no earlier message to its recipient is queued. Against every other message of the queue that may go
  in this sense: if the other's recipient has announced, at some time \<open>t\<close>, then the chosen one's has announced
  and not before \<open>t\<close>; and if the other was enqueued earlier, the chosen one's recipient has announced strictly
  later (or at all, where the other's has not), so equals go in the order of enqueueing.
\<close>

theorem pick_most_recent:
  assumes "oq_init s0" and "reaches oq_step s0 s" and "pickDue la now (rq s) = (Some m, q)"
  shows "(\<exists>ys zs. pending q = ys @ m # zs \<and> MID m \<notin> set (inFlight (rq s)) \<and> (NextAttempt m = 0 \<or> NextAttempt m \<le> now) \<and>
      (AfterEarlier m \<longrightarrow> Recipient m \<notin> Recipient ` set ys)) \<and>
    (\<forall>ys x zs. pending q = ys @ x # zs \<and> MID x \<notin> set (inFlight (rq s)) \<and> (NextAttempt x = 0 \<or> NextAttempt x \<le> now) \<and>
        (AfterEarlier x \<longrightarrow> Recipient x \<notin> Recipient ` set ys) \<longrightarrow>
      (\<forall>t. la (Recipient x) = Some t \<longrightarrow> (\<exists>u. la (Recipient m) = Some u \<and> t \<le> u)) \<and>
      (mref x < mref m \<longrightarrow> (\<exists>u. la (Recipient m) = Some u \<and> (\<forall>t. la (Recipient x) = Some t \<longrightarrow> t < u))))"
proof -
  note b = pick_best [OF assms, unfolded eligible_mem sendable_reads append_Nil Ball_def not_better_iff, unfolded better_iff]
  have c: "(\<forall>t. la (Recipient x) = Some t \<longrightarrow> (\<exists>u. la (Recipient m) = Some u \<and> t \<le> u)) \<and>
      (mref x < mref m \<longrightarrow> (\<exists>u. la (Recipient m) = Some u \<and> (\<forall>t. la (Recipient x) = Some t \<longrightarrow> t < u)))"
    if "pending q = ys @ x # zs \<and> MID x \<notin> set (inFlight (rq s)) \<and> (NextAttempt x = 0 \<or> NextAttempt x \<le> now) \<and>
        (AfterEarlier x \<longrightarrow> Recipient x \<notin> Recipient ` set ys)" for ys x zs
  proof -
    from that have "\<exists>ys zs. pending q = ys @ x # zs \<and> MID x \<notin> set (inFlight (rq s)) \<and>
        (NextAttempt x = 0 \<or> NextAttempt x \<le> now) \<and> (AfterEarlier x \<longrightarrow> Recipient x \<notin> Recipient ` set ys)" by (intro exI)
    from conjunct2 [OF b, THEN spec, THEN mp, OF this] show ?thesis .
  qed
  show ?thesis by (rule conjI [OF conjunct1 [OF b]]) (intro allI impI, rule c)
qed

subsection \<open>The backoff\<close>

lemma backoff_loop_alt:
  assumes "0 < w"
  shows "min maxRetryBackoff (backoff_loop n w) = min maxRetryBackoff (w * 2 ^ n)"
  using assms
proof (induction n arbitrary: w)
  case (Suc n)
  show ?case
  proof (cases "w < maxRetryBackoff")
    case True
    with Suc.IH [of "w * 2"] Suc.prems show ?thesis by (simp add: mult.assoc)
  next
    case False
    have "(1 :: int) \<le> 2 ^ Suc n" by (rule one_le_power) simp
    then have "w \<le> w * 2 ^ Suc n" using Suc.prems mult_left_mono [of 1 "2 ^ Suc n" w] by simp
    with False show ?thesis by simp
  qed
qed simp

lemma backoff_loop_bound: "w \<le> 2 * maxRetryBackoff \<Longrightarrow> backoff_loop k w \<le> 2 * maxRetryBackoff"
  by (induction k arbitrary: w) auto

text \<open>
  The wait before the next attempt doubles with every attempt made and stops at a minute: for any positive
  retry interval it is the smaller of the minute and the interval times the power of two, and the doubling never runs
  past twice the minute, so it cannot overflow; with the interval of the service it is 10, 20, 40, 60, 60 seconds.
\<close>

theorem backoff_schedule:
  assumes "0 < retryWait q" and "1 \<le> n"
  shows "backoffWait q n = min (60 * Second) (retryWait q * 2 ^ nat (n - 1)) \<and>
    (retryWait q \<le> 60 * Second \<longrightarrow> backoff_loop (nat (n - 1)) (retryWait q) \<le> 2 * (60 * Second)) \<and>
    map (backoffWait (newOutboundQueue None)) [1, 2, 3, 4, 5] =
      map ((*) Second) [10, 20, 40, 60, 60]"
proof -
  have "map (backoffWait (newOutboundQueue None)) [1, 2, 3, 4, 5] = map ((*) Second) [10, 20, 40, 60, 60]"
    by (simp add: backoffWait_def newOutboundQueue_def deliveryRetryWait_def maxRetryBackoff_def duration_defs eval_nat_numeral)
  moreover have "backoffWait q n = min maxRetryBackoff (backoff_loop (nat (n - 1)) (retryWait q))"
    by (simp add: backoffWait_def Let_def min_def)
  moreover have "retryWait q \<le> 60 * Second \<longrightarrow> backoff_loop (nat (n - 1)) (retryWait q) \<le> 2 * (60 * Second)"
    using backoff_loop_bound [of "retryWait q"] assms(1) by (auto simp: maxRetryBackoff_def)
  ultimately show ?thesis
    using backoff_loop_alt [OF assms(1), of "nat (n - 1)"] by (simp add: maxRetryBackoff_def)
qed

theorem backoff_schedule_witness: "backoffWait (newOutboundQueue None) 3 = 40 * Second"
  using backoff_schedule [of "newOutboundQueue None" 3]
  by (simp add: newOutboundQueue_def deliveryRetryWait_def duration_defs)

subsection \<open>A run\<close>

text \<open>Two messages to the same recipient, the second one held, and a store that starts without a file.\<close>

definition demo_addr :: bytes where "demo_addr = replicate 16 CHR ''r''"

lemma demo_addr_length [simp]: "length demo_addr = 16" by (simp add: demo_addr_def)

definition demo_msg :: "nat \<Rightarrow> bool \<Rightarrow> outboundMessage" where
  "demo_msg n held = \<lparr>mref = n, MID = replicate (Suc n) CHR ''i'', Recipient = demo_addr, MBody = ''hi'', MFields = [], MBubble = None,
     Attempts = 0, NextAttempt = 0, EnqueuedAt = 5, Propagated = False, AfterEarlier = held\<rparr>"

definition demo0 :: Run where
  "demo0 = \<lparr>rq = configured (Some \<lparr>content = Absent, answers = []\<rparr>) None False False 0, sending = [], snap = None,
     starts = [], spent = []\<rparr>"

definition demo1 :: Run where
  "demo1 = demo0\<lparr>rq := (rq demo0)\<lparr>pending := [demo_msg 0 False, demo_msg 1 True], next_ref := 2, qdirty := True\<rparr>\<rparr>"

definition demo2 :: Run where
  "demo2 = demo0\<lparr>rq := (rq demo0)\<lparr>pending := [(demo_msg 1 True)\<lparr>Attempts := 1\<rparr>], next_ref := 2, qdirty := True,
     inFlight := [MID (demo_msg 1 True)]\<rparr>, sending := [(demo_msg 1 True)\<lparr>Attempts := 1\<rparr>],
     starts := [(demo_msg 0 False)\<lparr>Attempts := 1\<rparr>, (demo_msg 1 True)\<lparr>Attempts := 1\<rparr>]\<rparr>"

lemmas demo_defs = demo_msg_def demo0_def configured_def SetIDMap_def SetPropagation_def newOutboundQueue_def
  maxPendingMessages_def outboundWorkers_def maxQueueAge_def duration_defs persistQueue_def

lemma demo0_clean: "clean_start demo0" "oq_init demo0"
proof -
  have "LoadQueue (configured (Some \<lparr>content = Absent, answers = []\<rparr>) None False False 0) = Inr (rq demo0)"
    by (simp add: LoadQueue_def outboundStore_load_def ReadStore_def demo_defs)
  then show i: "oq_init demo0"
    unfolding demo0_def by (intro oq_init.intros) (auto simp: demo0_def outboundStore_load_def ReadStore_def file_ok_def)
  have "on_disk (rq demo0)"
    by (simp add: on_disk_def agrees_def outboundStore_load_def ReadStore_def demo_defs)
  with i show "clean_start demo0" by (simp add: clean_start_def)
qed

lemma demo1_reached: "reaches oq_step demo0 demo1"
proof -
  let ?a = "demo0\<lparr>rq := snd (enqueue demo_addr ''hi'' [] None False ''i'' 5 (rq demo0))\<rparr>"
  have "oq_step demo0 ?a" by (rule oq_step.enq) (simp add: demo_defs)
  moreover have "oq_step ?a (?a\<lparr>rq := snd (enqueue demo_addr ''hi'' [] None True ''ii'' 5 (rq ?a))\<rparr>)"
    by (rule oq_step.enq) (simp add: demo_defs enqueue_def)
  moreover have "?a\<lparr>rq := snd (enqueue demo_addr ''hi'' [] None True ''ii'' 5 (rq ?a))\<rparr> = demo1"
    by (simp add: demo1_def demo_defs enqueue_def)
  ultimately show ?thesis by (metis reaches.step reaches_one)
qed

lemma demo2_reached: "reaches oq_step demo0 demo2"
proof -
  let ?m = "(demo_msg 0 False)\<lparr>Attempts := 1\<rparr>"
  let ?b = "demo1\<lparr>rq := (rq demo1)\<lparr>pending := [?m, demo_msg 1 True], inFlight := [MID ?m]\<rparr>, sending := [?m], starts := [?m]\<rparr>"
  let ?c = "demo1\<lparr>rq := (rq demo1)\<lparr>pending := [demo_msg 1 True]\<rparr>, starts := [?m]\<rparr>"
  have p1: "pickDue (\<lambda>_. None) 7 (rq demo1) = (Some (demo_msg 0 False), (rq demo1)\<lparr>inFlight := [MID ?m]\<rparr>)"
    by (simp add: pickDue_def reap_def queue_expired_def sendable_def hasEarlierFor_def time_sub_def demo1_def demo_defs better_def)
  have "oq_step demo1 (demo1\<lparr>rq := rq ?b, sending := sending demo1 @ [?m], starts := starts demo1 @ [?m]\<rparr>)"
    by (rule oq_step.work, rule worker_step.start [OF p1]) (simp_all add: attempt_begin_def upd_msg_def demo1_def demo_defs)
  then have s1: "oq_step demo1 ?b" by (simp add: demo1_def demo0_def)
  have "oq_step ?b (?b\<lparr>rq := rq ?c, sending := removeAll ?m (sending ?b),
      spent := (if uses_attempt (Sent ''x'') then mref ?m # spent ?b else spent ?b)\<rparr>)"
    by (rule oq_step.work, rule worker_step.finish [where res = "Sent ''x''" and hasNode = False and now = 8 and path = None])
      (simp_all add: attempt_end_def register_sent_def removeLocked_def demo1_def demo_defs)
  then have s2: "oq_step ?b ?c" by (simp add: uses_attempt_def demo1_def demo0_def)
  have p2: "pickDue (\<lambda>_. None) 9 (rq ?c) = (Some (demo_msg 1 True), (rq ?c)\<lparr>inFlight := [MID (demo_msg 1 True)]\<rparr>)"
    by (simp add: pickDue_def reap_def queue_expired_def sendable_def hasEarlierFor_def time_sub_def demo1_def demo_defs)
  have "oq_step ?c (?c\<lparr>rq := rq demo2, sending := sending ?c @ [(demo_msg 1 True)\<lparr>Attempts := 1\<rparr>],
      starts := starts ?c @ [(demo_msg 1 True)\<lparr>Attempts := 1\<rparr>]\<rparr>)"
    by (rule oq_step.work, rule worker_step.start [OF p2]) (simp_all add: attempt_begin_def upd_msg_def demo1_def demo2_def demo_defs)
  then have s3: "oq_step ?c demo2" by (simp add: demo1_def demo2_def demo0_def)
  from demo1_reached s1 s2 s3 show ?thesis by (blast intro: reaches.step)
qed

theorem held_message_last_witness:
  "list_all (\<lambda>b. Recipient b \<noteq> demo_addr \<or> \<not> mref b < 1) (pending (rq demo2))"
proof -
  have "starts demo2 = [(demo_msg 0 False)\<lparr>Attempts := 1\<rparr>] @ (demo_msg 1 True)\<lparr>Attempts := 1\<rparr> # []"
    by (simp add: demo2_def)
  from held_message_last [OF demo0_clean(2) demo2_reached this] show ?thesis
    by (auto simp: list_all_iff demo_msg_def)
qed

theorem attempts_and_workers_bounded_witness: "length (sending demo2) \<le> 8 \<and> pendingCount (rq demo2) \<le> 10000"
  using attempts_and_workers_bounded [OF demo0_clean(2) demo2_reached] by simp

theorem queue_drains_witness:
  "list_all (\<lambda>m. MID m \<in> set (inFlight (snd (pickDue (\<lambda>_. None) 9 (rq demo2)))) \<or> EnqueuedAt m = 0 \<or> 9 - EnqueuedAt m \<le> 24 * Hour)
     (pending (snd (pickDue (\<lambda>_. None) 9 (rq demo2))))"
  using queue_drains [OF demo0_clean(2) demo2_reached, of "\<lambda>_. None" 9] by (auto simp: list_all_iff prod_eq_iff)

theorem pick_most_recent_witness:
  "\<exists>ys zs. pending (snd (pickDue (\<lambda>_. None) 7 (rq demo1))) = ys @ demo_msg 0 False # zs \<and>
     MID (demo_msg 0 False) \<notin> set (inFlight (rq demo1))"
proof -
  have p: "pickDue (\<lambda>_. None) 7 (rq demo1) = (Some (demo_msg 0 False), snd (pickDue (\<lambda>_. None) 7 (rq demo1)))"
    by (simp add: pickDue_def reap_def queue_expired_def sendable_def hasEarlierFor_def time_sub_def demo1_def demo_defs better_def)
  from pick_most_recent [OF demo0_clean(2) demo1_reached p] show ?thesis by blast
qed

theorem outbound_restart_witness:
  "outboundStore_load (the (qstore (FlushQueue (rq demo1)))) = Inr (map stored_msg [demo_msg 0 False, demo_msg 1 True]) \<and>
   (\<exists>q. LoadQueue (configured (qstore (FlushQueue (rq demo1))) None True False 0) = Inr q \<and>
     map stored_msg (pending q) = map stored_msg [demo_msg 0 False, demo_msg 1 True])"
proof -
  let ?sn = "map stored_msg [demo_msg 0 False, demo_msg 1 True]"
  let ?t = "demo1\<lparr>rq := (rq demo1)\<lparr>qdirty := False\<rparr>, snap := Some ?sn\<rparr>"
  let ?u = "?t\<lparr>rq := Flush_put ?sn (rq ?t), snap := None\<rparr>"
  have "oq_step demo1 ?t" by (rule oq_step.work, rule worker_step.take_snapshot) (simp_all add: Flush_take_def demo1_def demo_defs)
  moreover have "oq_step ?t ?u" by (rule oq_step.work, rule worker_step.write_snapshot) simp
  ultimately have "reaches oq_step demo0 ?u" using demo1_reached by (blast intro: reaches.step)
  note run = this
  have u: "rq ?u = FlushQueue (rq demo1)"
    by (simp add: FlushQueue_def Flush_take_def demo1_def demo_defs)
  have st: "qstore (rq ?u) = Some \<lparr>content = Parsed ?sn, answers = []\<rparr>" "sending ?u = []" "snap ?u = None" "\<not> qdirty (rq ?u)"
      "pending (rq ?u) = [demo_msg 0 False, demo_msg 1 True]"
    by (simp_all add: Flush_put_def Save_def demo1_def demo_defs)
  note r = conjunct1 [OF outbound_restart [OF demo0_clean(1) run st(1)], THEN mp, OF conjI [OF st(2) conjI [OF st(3,4)]]]
  have v: "map (\<lambda>m. (stored_msg m)\<lparr>Propagated := Propagated m \<and> (True \<or> False)\<rparr>)
      (filter (\<lambda>m. length (Recipient m) = 16) [demo_msg 0 False, demo_msg 1 True]) = ?sn"
    by (simp add: demo_msg_def stored_msg_def)
  have "qstore (FlushQueue (rq demo1)) = Some \<lparr>content = Parsed ?sn, answers = []\<rparr>" using st(1) unfolding u .
  moreover have "outboundStore_load \<lparr>content = Parsed ?sn, answers = []\<rparr> = Inr ?sn" using conjunct1 [OF r] unfolding st(5) .
  moreover obtain q where "LoadQueue (configured (Some \<lparr>content = Parsed ?sn, answers = []\<rparr>) None True False 0) = Inr q"
      "map stored_msg (pending q) = ?sn"
    using conjunct2 [OF r, THEN spec, of None, THEN spec, of True, THEN spec, of False, THEN spec, of 0] unfolding st(5) v by blast
  ultimately show ?thesis by (simp only: option.sel) blast
qed

end
