(* ===== verification/Policy.thy ===== *)
theory Policy
  imports Commands
begin

text \<open>
  The access policy of the command layer and the proof that \<open>Dispatch\<close> keeps to it.

  \<open>permitted now c d d'\<close> is the abstract specification: the state changes a caller \<open>c\<close> may cause in a
  dispatcher \<open>d\<close>, one rule per kind of change, with the authority it takes and the guards it must pass.
  \<open>Dispatch_permitted\<close> is the refinement: whatever the command, its arguments and the outcome of the
  saves, the dispatcher afterwards is one the policy allows. The properties of the command layer are then
  case analyses over the policy.
\<close>

inductive permitted :: "time \<Rightarrow> Caller \<Rightarrow> Dispatcher \<Rightarrow> Dispatcher \<Rightarrow> bool" for now c d where
  nothing: "permitted now c d d"
| joins: "\<not> Member c \<Longrightarrow> HashBytes c = Some hb \<Longrightarrow> \<not> Locked (Service (Cfg d)) \<or> atLeastMod (CRole c) \<Longrightarrow>
    \<not> IsBanned hb (Rost d) \<Longrightarrow> \<not> is_full d \<Longrightarrow>
    permitted now c d (d\<lparr>Rost := snd (AddOrUpdate hb now (Rost d))\<rparr>)"
| joins_named: "\<not> Member c \<Longrightarrow> HashBytes c = Some hb \<Longrightarrow> \<not> Locked (Service (Cfg d)) \<or> atLeastMod (CRole c) \<Longrightarrow>
    \<not> IsBanned hb (Rost d) \<Longrightarrow> \<not> is_full d \<Longrightarrow> nickRE nick \<Longrightarrow>
    permitted now c d (d\<lparr>Rost := snd (SetNickname (CHash c) nick (snd (AddOrUpdate hb now (Rost d))))\<rparr>)"
| leaves: "Member c \<Longrightarrow> permitted now c d (d\<lparr>Rost := snd (Remove (CHash c) (Rost d))\<rparr>)"
| pauses: "Member c \<Longrightarrow> permitted now c d (d\<lparr>Rost := snd (SetPaused (CHash c) x (Rost d))\<rparr>)"
| filters: "Member c \<Longrightarrow> permitted now c d (d\<lparr>Rost := snd (SetTextOnly (CHash c) x (Rost d))\<rparr>)"
| renames: "Member c \<Longrightarrow> nickRE nick \<Longrightarrow>
    permitted now c d (d\<lparr>Rost := snd (SetNickname (CHash c) nick (Rost d))\<rparr>)"
| renames_other: "atLeastMod (CRole c) \<Longrightarrow> Resolve q (Rost d) = Inr u \<Longrightarrow> nickRE nick \<Longrightarrow>
    permitted now c d (d\<lparr>Rost := snd (SetNickname (Hash u) nick (Rost d))\<rparr>)"
| invites: "atLeastMod (CRole c) \<Longrightarrow> mustHexBytes h = Some hb \<Longrightarrow> h = ToLower (uni (Rost d)) a \<Longrightarrow>
    \<not> IsBanned hb (Rost d) \<Longrightarrow> \<not> Has hb (Rost d) \<Longrightarrow> \<not> is_full d \<Longrightarrow>
    permitted now c d (d\<lparr>Rost := snd (AddInvited hb now (Rost d))\<rparr>)"
| invites_named: "atLeastMod (CRole c) \<Longrightarrow> mustHexBytes h = Some hb \<Longrightarrow> h = ToLower (uni (Rost d)) a \<Longrightarrow>
    \<not> IsBanned hb (Rost d) \<Longrightarrow> \<not> Has hb (Rost d) \<Longrightarrow> \<not> is_full d \<Longrightarrow> nickRE nick \<Longrightarrow>
    permitted now c d (d\<lparr>Rost := snd (SetNickname h nick (snd (AddInvited hb now (Rost d))))\<rparr>)"
| removes: "atLeastMod (CRole c) \<Longrightarrow> Resolve q (Rost d) = Inr u \<Longrightarrow>
    permitted now c d (d\<lparr>Rost := snd (Remove (Hash u) (Rost d))\<rparr>)"
| bans: "atLeastMod (CRole c) \<Longrightarrow> Resolve q (Rost d) = Inr u \<Longrightarrow>
    permitted now c d (d\<lparr>Rost := snd (Ban (Hash u) (Rost d))\<rparr>)"
| unbans: "atLeastMod (CRole c) \<Longrightarrow> h \<in> set (banlist (Rost d)) \<Longrightarrow>
    permitted now c d (d\<lparr>Rost := snd (Unban h (Rost d))\<rparr>)"
| grants: "CRole c = RoleAdmin \<Longrightarrow> Resolve q (Rost d) = Inr u \<Longrightarrow> role_ok role \<Longrightarrow>
    Hash u \<noteq> CHash c \<or> parseRole role = RoleAdmin \<or> configRole d (CHash c) = RoleAdmin \<Longrightarrow>
    permitted now c d (d\<lparr>Rost := snd (SetRole (Hash u) role (Rost d))\<rparr>)"
| describes: "CRole c = RoleAdmin \<Longrightarrow> Info d = Some s \<Longrightarrow>
    text = [] \<or> InfoOverflow d text \<le> 0 \<and> int (length text) \<le> MaxInfoBytes \<and>
      list_all (Not \<circ> control_byte) text \<Longrightarrow>
    permitted now c d (d\<lparr>Info := Some (snd (SetInfo text s))\<rparr>)"
| pins: "atLeastMod (CRole c) \<Longrightarrow> Info d = Some s \<Longrightarrow> By p = CHash c \<Longrightarrow>
    ByNick p = (case Get (CHash c) (Rost d) of Some u \<Rightarrow> Nickname u | None \<Rightarrow> '''') \<Longrightarrow>
    permitted now c d (d\<lparr>Info := Some (snd (AddPin p s))\<rparr>)"
| unpins: "atLeastMod (CRole c) \<Longrightarrow> Info d = Some s \<Longrightarrow>
    permitted now c d (d\<lparr>Info := Some (snd (RemovePin n s))\<rparr>)"

lemmas permitted_intros = permitted.intros

lemma reply_frame [simp]: "snd (reply s d) = d" "fst (reply s d) = (s, [])"
  by (simp_all add: reply_def)

lemma set_and_reply_frame [simp]: "snd (set_and_reply f ok res d) = d\<lparr>Rost := snd res\<rparr>"
  by (auto simp: set_and_reply_def split: prod.split option.split)

text \<open>The state behind a reply that depends on the error of a save is the same in both branches.\<close>

lemma snd_if_reply [simp]: "snd (if b then reply s d else reply t d) = d"
  by simp

lemma default_nick_ok: "default_nick d hb \<noteq> [] \<Longrightarrow> nickRE (default_nick d hb)"
  using SanitizeNickname_nick by (auto simp: default_nick_def split: option.splits if_splits)

subsection \<open>Every handler keeps to the policy\<close>

text \<open>
  Handlers that end in a reply chosen by the result of a roster call: the state is the call's, whichever
  reply is sent.
\<close>

lemma let_pair2: "(let ((a, e), r) = p; d' = f r in g a e r d') = g (fst (fst p)) (snd (fst p)) (snd p) (f (snd p))"
  by (simp add: split_beta Let_def)

lemma let_pair1: "(let (e, r) = p; d' = f r in g e r d') = g (fst p) (snd p) (f (snd p))"
  by (simp add: split_beta Let_def)

lemmas call_simps = let_pair1 let_pair2 split_beta Let_def

lemma handleJoin_permitted: "permitted now c d (snd (handleJoin now c d))"
proof (cases "Member c \<or> HashBytes c = None \<or> Locked (Service (Cfg d)) \<and> \<not> atLeastMod (CRole c) \<or> is_full d \<or>
    IsBanned (the (HashBytes c)) (Rost d)")
  case True
  have "snd (handleJoin now c d) = d"
  proof (cases "HashBytes c")
    case None
    then show ?thesis by (simp add: handleJoin_def)
  next
    case (Some hb)
    then show ?thesis
      using True unfolding handleJoin_def option.case
      by (cases "Member c"; cases "Locked (Service (Cfg d)) \<and> \<not> atLeastMod (CRole c)"; cases "IsBanned hb (Rost d)")
         (simp_all only: if_True if_False option.sel option.case simp_thms reply_frame option.distinct)
  qed
  then show ?thesis by (simp add: permitted.nothing)
next
  case False
  then obtain hb where hb: "HashBytes c = Some hb" by auto
  let ?r = "snd (AddOrUpdate hb now (Rost d))"
  have "\<exists>nick. (nick = [] \<or> nickRE nick) \<and> snd (handleJoin now c d) =
      d\<lparr>Rost := if nick = [] then ?r else snd (SetNickname (CHash c) nick ?r)\<rparr>"
  proof (cases "snd (fst (AddOrUpdate hb now (Rost d)))")
    case None
    let ?n = "default_nick (d\<lparr>Rost := ?r\<rparr>) hb"
    show ?thesis
    proof (cases "(case Get (CHash c) ?r of Some u \<Rightarrow> Nickname u = [] | None \<Rightarrow> False) \<and> ?n \<noteq> []")
      case True
      with False hb None default_nick_ok [of "d\<lparr>Rost := ?r\<rparr>" hb] show ?thesis
        by (intro exI [of _ ?n]) (auto simp: handleJoin_def call_simps)
    next
      case bare: False
      with False hb None show ?thesis
        by (intro exI [of _ "[]"]) (auto simp: handleJoin_def call_simps)
    qed
  next
    case (Some e)
    with False hb show ?thesis by (intro exI [of _ "[]"]) (auto simp: handleJoin_def call_simps)
  qed
  then show ?thesis using False hb by (auto intro: permitted.joins permitted.joins_named)
qed

lemma own_setting_permitted:
  "permitted now c d (snd (handleLeave c d))" "permitted now c d (snd (handlePause c d))"
  "permitted now c d (snd (handleResume c d))" "permitted now c d (snd (handleTextOnly c d))"
  "permitted now c d (snd (handleShowAll c d))"
  by (auto simp: handleLeave_def handlePause_def handleResume_def handleTextOnly_def handleShowAll_def
      call_simps permitted.intros split: option.split)

lemma handleNick_permitted: "permitted now c d (snd (handleNick c args d))"
  by (auto simp: handleNick_def permitted.nothing split: list.split sum.split
      intro: permitted.renames permitted.renames_other)

lemma usermode_apply_shape:
  assumes "req \<in> {''admin'', ''mod'', ''user''}"
  shows "snd (usermode_apply c req u d) = d \<or>
    (\<exists>role. role_ok role \<and>
       (Hash u \<noteq> CHash c \<or> parseRole role = RoleAdmin \<or> configRole d (CHash c) = RoleAdmin) \<and>
       snd (usermode_apply c req u d) = d\<lparr>Rost := snd (SetRole (Hash u) role (Rost d))\<rparr>)"
proof (cases "Hash u = CHash c \<and> parseRole req < RoleAdmin \<and> configRole d (CHash c) < RoleAdmin")
  case True
  then show ?thesis by (simp add: usermode_apply_def Let_def)
next
  case False
  have lt: "r < RoleAdmin \<longleftrightarrow> r \<noteq> RoleAdmin" for r by (cases r) (auto simp: less_Role_def)
  define role where "role = (if req = ''user'' then [] else req)"
  have "role_ok role" "parseRole role = parseRole req"
    using assms by (auto simp: role_def role_ok_def parseRole_def)
  moreover have "snd (usermode_apply c req u d) = d\<lparr>Rost := snd (SetRole (Hash u) role (Rost d))\<rparr>"
    unfolding usermode_apply_def role_def [symmetric] Let_def if_not_P [OF False]
    by (simp add: split_beta split: option.split)
  ultimately show ?thesis using False lt by metis
qed

lemma handleUserMode_shape:
  assumes "CRole c = RoleAdmin"
  shows "snd (handleUserMode c args d) = d \<or>
    (\<exists>q u role. Resolve q (Rost d) = Inr u \<and> role_ok role \<and>
       (Hash u \<noteq> CHash c \<or> parseRole role = RoleAdmin \<or> configRole d (CHash c) = RoleAdmin) \<and>
       snd (handleUserMode c args d) = d\<lparr>Rost := snd (SetRole (Hash u) role (Rost d))\<rparr>)"
proof (cases "\<exists>a q u. args = [a, q] \<and> ToLower (uni (Rost d)) a \<in> {''admin'', ''mod'', ''user''} \<and> Resolve q (Rost d) = Inr u")
  case True
  then obtain a q u where a: "args = [a, q]" "ToLower (uni (Rost d)) a \<in> {''admin'', ''mod'', ''user''}"
      "Resolve q (Rost d) = Inr u" by blast
  then have "handleUserMode c args d = usermode_apply c (ToLower (uni (Rost d)) a) u d"
    using assms unfolding handleUserMode_def Let_def by simp
  with usermode_apply_shape [OF a(2), of c u d] a(3) show ?thesis by metis
next
  case False
  have "snd (handleUserMode c [a, q] d) = d" if "args = [a, q]" for a q
    using that False unfolding handleUserMode_def Let_def by (cases "Resolve q (Rost d)") auto
  then show ?thesis using assms by (simp add: handleUserMode_def split: list.split)
qed

lemma handleUserMode_permitted: "permitted now c d (snd (handleUserMode c args d))"
proof (cases "CRole c = RoleAdmin")
  case True
  with handleUserMode_shape [OF True, of args d] show ?thesis
    by (auto intro: permitted.nothing permitted.grants)
qed (simp add: handleUserMode_def permitted.nothing)

lemma handleAddUser_permitted: "permitted now c d (snd (handleAddUser now (CRole c) args d))"
proof (cases "\<exists>arg0. args = [arg0] \<and> atLeastMod (CRole c)")
  case False
  then show ?thesis by (auto simp: handleAddUser_def permitted.nothing split: list.split)
next
  case True
  then obtain a where a: "args = [a]" "atLeastMod (CRole c)" by blast
  let ?h = "ToLower (uni (Rost d)) (TrimSpace a)"
  show ?thesis
  proof (cases "mustHexBytes ?h")
    case None
    with a show ?thesis by (simp add: handleAddUser_def Let_def permitted.nothing)
  next
    case (Some hb)
    show ?thesis
    proof (cases "IsBanned hb (Rost d) \<or> Has hb (Rost d) \<or> is_full d")
      case True
      with a Some show ?thesis by (auto simp: handleAddUser_def Let_def permitted.nothing)
    next
      case False
      let ?r = "snd (AddInvited hb now (Rost d))" and ?n = "default_nick (d\<lparr>Rost := snd (AddInvited hb now (Rost d))\<rparr>) hb"
      have "snd (handleAddUser now (CRole c) args d) = d\<lparr>Rost := ?r\<rparr> \<or>
          ?n \<noteq> [] \<and> snd (handleAddUser now (CRole c) args d) = d\<lparr>Rost := snd (SetNickname ?h ?n ?r)\<rparr>"
        using False a Some by (simp add: handleAddUser_def call_simps split: option.split)
      with False a Some default_nick_ok [of "d\<lparr>Rost := ?r\<rparr>" hb] show ?thesis
        by (auto intro: permitted.invites permitted.invites_named)
    qed
  qed
qed

lemma moderation_permitted:
  "permitted now c d (snd (handleRemoveUser (CRole c) args d))"
  "permitted now c d (snd (handleKick (CRole c) args d))"
  "permitted now c d (snd (handleBan (CRole c) args d))"
  by (auto simp: handleRemoveUser_def handleKick_def handleBan_def call_simps permitted.nothing
      split: list.split sum.split option.split intro: permitted.removes permitted.bans)

lemma Unban_ok: "h \<in> set (banlist r) \<Longrightarrow> fst (fst (Unban h r)) = (ToLower (uni r) h \<in> set (banlist r))"
  by (simp add: Unban_def Let_def split_beta)

lemma unban_prefix_permitted:
  assumes "atLeastMod (CRole c)"
  shows "permitted now c d (snd (unban_prefix hash d))"
proof -
  have "m \<in> set (banlist (Rost d))" if "filter (\<lambda>h. HasPrefix h hash) (Banlist (Rost d)) = [m]" for m
  proof -
    have "m \<in> set (filter (\<lambda>h. HasPrefix h hash) (Banlist (Rost d)))" using that by simp
    then show ?thesis by (simp add: Banlist_def)
  qed
  then show ?thesis
    using assms by (auto simp: unban_prefix_def call_simps permitted.nothing split: list.split option.split
        intro: permitted.unbans)
qed

lemma find_mem: "find P xs = Some x \<Longrightarrow> x \<in> set xs"
  by (induction xs) (auto split: if_splits)

lemma handleUnban_permitted: "permitted now c d (snd (handleUnban (CRole c) args d))"
proof (cases "\<exists>a. args = [a] \<and> atLeastMod (CRole c)")
  case False
  then show ?thesis by (auto simp: handleUnban_def permitted.nothing split: list.split)
next
  case True
  then obtain a where a: "args = [a]" "atLeastMod (CRole c)" by blast
  let ?h = "ToLower (uni (Rost d)) (TrimSpace a)"
  show ?thesis
  proof (cases "find (\<lambda>h. h = ?h) (Banlist (Rost d))")
    case None
    with a show ?thesis by (simp add: handleUnban_def Let_def unban_prefix_permitted)
  next
    case (Some h)
    then have h: "h \<in> set (banlist (Rost d))" using find_mem [OF Some] by (simp add: Banlist_def)
    show ?thesis
    proof (cases "snd (fst (Unban h (Rost d))) = None \<and> \<not> fst (fst (Unban h (Rost d)))")
      case True
      then have "snd (Unban h (Rost d)) = Rost d" by (simp add: Unban_def Let_def split_beta split: if_splits)
      with True a Some show ?thesis by (simp add: handleUnban_def call_simps unban_prefix_permitted)
    next
      case False
      with a Some have "snd (handleUnban (CRole c) args d) = d\<lparr>Rost := snd (Unban h (Rost d))\<rparr>"
        by (auto simp: handleUnban_def call_simps split: option.split)
      with a h show ?thesis by (simp add: permitted.unbans)
    qed
  qed
qed

lemma readonly_handlers:
  "snd (handleInfo c d) = d" "snd (handlePins now c d) = d" "snd (handlePath now role args d) = d"
  "snd (handleAnnounce role d) = d" "snd (reply_list p d) = d"
  by (auto simp: handleInfo_def handlePins_def handlePath_def handleAnnounce_def reply_list_def Let_def
      split: option.split sum.split)

lemma scrubbed_clean: "list_all (Not \<circ> control_byte) (scrubControlBytes s)"
  using cmd_scrub.scrub_no_control by (simp add: list_all_iff)

lemma handleSetInfo_permitted: "permitted now c d (snd (handleSetInfo c text d))"
proof (cases "CRole c = RoleAdmin \<and> Info d \<noteq> None")
  case False
  then show ?thesis by (auto simp: handleSetInfo_def permitted.nothing split: option.split)
next
  case True
  then obtain s where s: "Info d = Some s" by auto
  let ?t = "scrubControlBytes (TrimSpace text)"
  show ?thesis
  proof (cases "TrimSpace text = []")
    case blank: True
    then have "snd (handleSetInfo c text d) = (if info s = [] then d else d\<lparr>Info := Some (snd (SetInfo [] s))\<rparr>)"
      using True s by (simp add: handleSetInfo_def call_simps split: option.split)
    with True s show ?thesis by (simp add: permitted.nothing permitted.describes)
  next
    case False
    show ?thesis
    proof (cases "int (length ?t) > MaxInfoBytes \<or> InfoOverflow d ?t > 0")
      case long: True
      then have "snd (handleSetInfo c text d) = d"
        using False True s unfolding handleSetInfo_def Let_def by auto
      then show ?thesis by (simp add: permitted.nothing)
    next
      case fits: False
      then have "snd (handleSetInfo c text d) = d\<lparr>Info := Some (snd (SetInfo ?t s))\<rparr>"
        using False True s by (simp add: handleSetInfo_def call_simps split: option.split)
      with True s fits scrubbed_clean [of "TrimSpace text"] show ?thesis by (auto intro!: permitted.describes)
    qed
  qed
qed

lemma handlePin_permitted: "permitted now c d (snd (handlePin now c text d))"
  by (auto simp: handlePin_def call_simps permitted.nothing split: option.split info_error.split
      intro!: permitted.pins)

lemma handleUnpin_permitted: "permitted now c d (snd (handleUnpin c args d))"
  by (auto simp: handleUnpin_def call_simps permitted.nothing split: option.split intro!: permitted.unpins)

lemmas handlers_permitted =
  handleJoin_permitted own_setting_permitted handleNick_permitted handleUserMode_permitted
  handleAddUser_permitted moderation_permitted handleUnban_permitted handleSetInfo_permitted
  handlePin_permitted handleUnpin_permitted permitted.nothing

lemma permitted_if:
  "permitted now c d (snd x) \<Longrightarrow> permitted now c d (snd y) \<Longrightarrow> permitted now c d (snd (if b then x else y))"
  by simp

lemma Dispatch_allowed: "permitted now (deriveCaller d s) d (snd (Dispatch now s p d))"
  unfolding Dispatch_def Let_def
  by (intro permitted_if handlers_permitted) (simp_all add: readonly_handlers permitted.nothing)

end
