(* ===== verification/MemberBook.thy ===== *)
theory MemberBook
  imports RosterProps
begin

text \<open>
  The roster as the commands and the service see it: a book of members and of banned hashes.
  \<open>member_book\<close> states what admitting, expelling, banning and pardoning do to the two sets; its lemmas are
  what the client layers rest on, that the two sets stay apart and how the number of members grows. The
  locale is interpreted twice on the roster, with \<^verbatim>\<open>AddOrUpdate\<close> (a join) and with \<^verbatim>\<open>AddInvited\<close> (an
  invitation) as the way in.
\<close>

locale member_book =
  fixes sound :: "'s \<Rightarrow> bool"
    and members :: "'s \<Rightarrow> string set"
    and banned :: "'s \<Rightarrow> string set"
    and admit :: "string \<Rightarrow> 's \<Rightarrow> 's"
    and expel :: "string \<Rightarrow> 's \<Rightarrow> 's"
    and exclude :: "string \<Rightarrow> 's \<Rightarrow> 's"
    and pardon :: "string \<Rightarrow> 's \<Rightarrow> 's"
  assumes finite_members: "finite (members s)"
    and members_admit: "sound s \<Longrightarrow> hex_hash h \<Longrightarrow> members (admit h s) = insert h (members s)"
    and banned_admit: "banned (admit h s) = banned s"
    and members_expel: "sound s \<Longrightarrow> hex_hash h \<Longrightarrow> members (expel h s) = members s - {h}"
    and banned_expel: "banned (expel h s) = banned s"
    and members_exclude: "sound s \<Longrightarrow> hex_hash h \<Longrightarrow> members (exclude h s) = members s - {h}"
    and banned_exclude: "sound s \<Longrightarrow> hex_hash h \<Longrightarrow> banned (exclude h s) = insert h (banned s)"
    and members_pardon: "members (pardon h s) = members s"
    and banned_pardon: "sound s \<Longrightarrow> hex_hash h \<Longrightarrow> banned (pardon h s) = banned s - {h}"
begin

definition apart :: "'s \<Rightarrow> bool" where
  "apart s \<longleftrightarrow> members s \<inter> banned s = {}"

lemma apart_admit: "sound s \<Longrightarrow> hex_hash h \<Longrightarrow> apart s \<Longrightarrow> h \<notin> banned s \<Longrightarrow> apart (admit h s)"
  by (auto simp: apart_def members_admit banned_admit)

lemma apart_expel: "sound s \<Longrightarrow> hex_hash h \<Longrightarrow> apart s \<Longrightarrow> apart (expel h s)"
  by (auto simp: apart_def members_expel banned_expel)

lemma apart_exclude: "sound s \<Longrightarrow> hex_hash h \<Longrightarrow> apart s \<Longrightarrow> apart (exclude h s)"
  by (auto simp: apart_def members_exclude banned_exclude)

lemma apart_pardon: "sound s \<Longrightarrow> hex_hash h \<Longrightarrow> apart s \<Longrightarrow> apart (pardon h s)"
  by (auto simp: apart_def members_pardon banned_pardon)

lemma card_admit: "sound s \<Longrightarrow> hex_hash h \<Longrightarrow> card (members (admit h s)) \<le> Suc (card (members s))"
  using finite_members by (simp add: members_admit card_insert_if)

lemma card_shrinks:
  assumes "sound s" and "hex_hash h"
  shows "card (members (expel h s)) \<le> card (members s)" "card (members (exclude h s)) \<le> card (members s)"
  using assms finite_members by (auto simp: members_expel members_exclude intro!: card_mono)

end

abbreviation roster_members :: "Roster \<Rightarrow> string set" where
  "roster_members r \<equiv> fst ` set (users r)"

abbreviation roster_banned :: "Roster \<Rightarrow> string set" where
  "roster_banned r \<equiv> set (banlist r)"

definition hash_bytes :: "string \<Rightarrow> bytes" where
  "hash_bytes h = (case DecodeString h of Some b \<Rightarrow> b | None \<Rightarrow> [])"

lemma hash_bytes:
  assumes "hex_hash h"
  shows "length (hash_bytes h) = 16" "EncodeToString (hash_bytes h) = h"
  using assms by (auto simp: hash_bytes_def elim!: Decode_hex_hash)

lemma keys_AddOrUpdate:
  "length b = 16 \<Longrightarrow> roster_members (snd (AddOrUpdate b t r)) = insert (EncodeToString b) (roster_members r)"
  by (simp add: users_AddOrUpdate)

lemma keys_AddInvited:
  "length b = 16 \<Longrightarrow> roster_members (snd (AddInvited b t r)) = insert (EncodeToString b) (roster_members r)"
  by (auto simp: users_AddInvited dest: map_of_key)

interpretation join_book: member_book wf_roster roster_members roster_banned
    "\<lambda>h r. snd (AddOrUpdate (hash_bytes h) now r)" "\<lambda>h r. snd (Remove h r)" "\<lambda>h r. snd (Ban h r)" "\<lambda>h r. snd (Unban h r)"
    for now
  by unfold_locales (auto simp: keys_AddOrUpdate hash_bytes users_Remove users_Ban banlist_Ban banlist_Unban)

interpretation invite_book: member_book wf_roster roster_members roster_banned
    "\<lambda>h r. snd (AddInvited (hash_bytes h) now r)" "\<lambda>h r. snd (Remove h r)" "\<lambda>h r. snd (Ban h r)" "\<lambda>h r. snd (Unban h r)"
    for now
  by unfold_locales (auto simp: keys_AddInvited hash_bytes users_Remove users_Ban banlist_Ban banlist_Unban)



lemma Len_card: "wf_roster r \<Longrightarrow> Len r = card (roster_members r)"
  using distinct_card [of "gkeys (users r)"] by (simp add: Len_def wf_roster_def wf_users_def gmap_ok_def)

end
