(* ===== verification/CommandProps.thy ===== *)
theory CommandProps
  imports Policy MemberBook
begin

text \<open>
  The properties of the command layer, read off its policy: what a command of an ordinary sender can
  change, who can raise a role, who gets into a locked group, the member cap, that banned hashes are never
  members, and that replies keep within their byte budgets.
\<close>

subsection \<open>Callers\<close>

lemma deriveCaller_hex:
  assumes "hex_hash s"
  shows "CHash (deriveCaller d s) = s" "HashBytes (deriveCaller d s) = Some (hash_bytes s)"
    "Member (deriveCaller d s) = (s \<in> roster_members (Rost d))"
proof -
  obtain b where b: "mustHexBytes s = Some b" "length b = 16" "EncodeToString b = s"
    using assms by (rule mustHexBytes_hex_hash)
  then have "b = hash_bytes s" using assms by (auto simp: mustHexBytes_Decode hash_bytes_def split: if_splits)
  with b assms show "CHash (deriveCaller d s) = s" "HashBytes (deriveCaller d s) = Some (hash_bytes s)"
    "Member (deriveCaller d s) = (s \<in> roster_members (Rost d))"
    by (auto simp: deriveCaller_def Let_def Has_def normalizeHash_def map_of_eq_None_iff split: option.split)
qed

lemma deriveCaller_role:
  assumes "hex_hash s"
  shows "CRole (deriveCaller d s) =
    (case map_of (users (Rost d)) s of None \<Rightarrow> configRole d s
     | Some u \<Rightarrow> max (configRole d s) (parseRole (Role u)))"
proof -
  have m: "Member (deriveCaller d s) = (map_of (users (Rost d)) s \<noteq> None)"
    by (simp add: deriveCaller_hex(3) [OF assms] map_of_eq_None_iff)
  obtain b where b: "mustHexBytes s = Some b" "length b = 16" "EncodeToString b = s"
    using assms by (rule mustHexBytes_hex_hash)
  then show ?thesis
    using assms by (auto simp: deriveCaller_def Let_def Has_def normalizeHash_def Get_def max_def split: option.split)
qed

lemma atLeastMod_User [simp]: "\<not> atLeastMod RoleUser"
  by (simp add: atLeastMod_def)

lemma permitted_Cfg: "permitted now c d d' \<Longrightarrow> Cfg d' = Cfg d \<and> PacketFits d' = PacketFits d \<and> uni (Rost d') = uni (Rost d)"
  by (induction rule: permitted.induct) auto

subsection \<open>What an ordinary sender can change\<close>

lemma lookup_SetNickname:
  "map_of (users (snd (SetNickname h n r))) k =
     map_option (\<lambda>u. if k = ToLower (uni r) h then u\<lparr>Nickname := n\<rparr> else u) (map_of (users r) k)"
  by (cases "map_of (users r) k") (auto simp: users_setters map_of_upd_at)

lemma lookup_AddOrUpdate:
  "map_of (users (snd (AddOrUpdate b t r))) k =
     (if length b = 16 \<and> k = EncodeToString b
      then Some ((case map_of (users r) k of Some u \<Rightarrow> u
                  | None \<Rightarrow> zeroUser\<lparr>Hash := EncodeToString b, JoinedAt := t\<rparr>)\<lparr>LastMessageAt := t\<rparr>)
      else map_of (users r) k)"
  by (simp add: users_AddOrUpdate map_of_gput)

lemma lookup_AddInvited:
  "map_of (users (snd (AddInvited b t r))) k =
     (if length b = 16 \<and> k = EncodeToString b \<and> map_of (users r) k = None
      then Some (zeroUser\<lparr>Hash := EncodeToString b, JoinedAt := t, Invited := True\<rparr>)
      else map_of (users r) k)"
  by (auto simp: users_AddInvited map_of_gput)

lemma lookup_others:
  "map_of (users (snd (Remove h r))) k = (if k = ToLower (uni r) h then None else map_of (users r) k)"
  "map_of (users (snd (Ban h r))) k = (if k = ToLower (uni r) h then None else map_of (users r) k)"
  by (simp_all add: users_Remove users_Ban map_of_gdel)

lemma lookup_flags:
  "map_of (users (snd (SetPaused h x r))) k =
     map_option (\<lambda>u. if k = ToLower (uni r) h then u\<lparr>Paused := x\<rparr> else u) (map_of (users r) k)"
  "map_of (users (snd (SetTextOnly h x r))) k =
     map_option (\<lambda>u. if k = ToLower (uni r) h then u\<lparr>TextOnly := x\<rparr> else u) (map_of (users r) k)"
  by (cases "map_of (users r) k", auto simp: users_setters map_of_upd_at)+

lemmas lookup_simps = lookup_SetNickname lookup_AddOrUpdate lookup_AddInvited lookup_others lookup_flags

lemma user_confined:
  assumes "permitted now c d d'" and "CRole c = RoleUser" and "hex_hash (CHash c)"
    and "HashBytes c = Some (hash_bytes (CHash c))"
  shows "(h \<noteq> CHash c \<longrightarrow> map_of (users (Rost d')) h = map_of (users (Rost d)) h) \<and>
    banlist (Rost d') = banlist (Rost d) \<and> Info d' = Info d \<and> Cfg d' = Cfg d"
  using assms by (cases rule: permitted.cases) (auto simp: lookup_simps hash_bytes option.map_ident)

lemma fitList_hooks: "h \<in> set (snd (fitList d cmd header lines)) \<Longrightarrow> \<exists>k n t. h = Overflowed cmd k n t"
  by (auto simp: fitList_def Let_def split_beta split: if_splits)

lemma list_hooks:
  "h \<in> set (snd (listUsers d)) \<Longrightarrow> \<exists>cmd k n t. h = Overflowed cmd k n t"
  "h \<in> set (snd (listConfigList d label hs)) \<Longrightarrow> \<exists>cmd k n t. h = Overflowed cmd k n t"
  by (auto simp: listUsers_def listConfigList_def Let_def split: if_splits dest!: fitList_hooks)

lemma user_hooks:
  assumes "CRole (deriveCaller d s) = RoleUser" and "h \<in> set (snd (fst (Dispatch now s p d)))"
  shows "h = Joined (CHash (deriveCaller d s)) \<or> (\<exists>cmd k n t. h = Overflowed cmd k n t)"
proof -
  define c where "c = deriveCaller d s"
  define Q where "Q = (\<lambda>x :: outcome. \<forall>h \<in> set (snd (fst x)). h = Joined (CHash c) \<or> (\<exists>cmd k n t. h = Overflowed cmd k n t))"
  have role: "CRole c = RoleUser" using assms(1) by (simp add: c_def)
  have if_Q: "Q x \<Longrightarrow> Q y \<Longrightarrow> Q (if b then x else y)" for x y b by simp
  have r: "Q (reply t d')" for t d' by (simp add: Q_def)
  have sr: "Q (set_and_reply a b res d')" for a b res d'
    by (auto simp: Q_def set_and_reply_def split: prod.split option.split)
  have l: "Q (reply_list (listUsers d) d)" "Q (reply_list (listConfigList d lab hs) d)" for lab hs
    using list_hooks by (fastforce simp: Q_def reply_list_def)+
  have j: "Q (handleJoin now c d)"
    by (auto simp: Q_def handleJoin_def call_simps split: option.splits if_splits)
  have o: "Q (handleInfo c d)" "Q (handlePins now c d)" "Q (handleLeave c d)" "Q (handlePause c d)"
      "Q (handleResume c d)" "Q (handleTextOnly c d)" "Q (handleShowAll c d)" "Q (handleNick c args d)" for args
    by (auto simp: handleInfo_def handlePins_def handleLeave_def handlePause_def handleResume_def
        handleTextOnly_def handleShowAll_def handleNick_def role call_simps r sr split: option.split list.split)
  have m: "Q (handleSetInfo c t d)" "Q (handlePin now c t d)" "Q (handleUnpin c args d)" "Q (handleUserMode c args d)"
      "Q (handleAddUser now (CRole c) args d)" "Q (handleRemoveUser (CRole c) args d)" "Q (handleKick (CRole c) args d)"
      "Q (handleBan (CRole c) args d)" "Q (handleUnban (CRole c) args d)" "Q (handleAnnounce (CRole c) d)"
      "Q (handlePath now (CRole c) args d)" for t args
    by (simp_all add: role r handleSetInfo_def handlePin_def handleUnpin_def handleUserMode_def handleAddUser_def
        handleRemoveUser_def handleKick_def handleBan_def handleUnban_def handleAnnounce_def handlePath_def)
  have "Q (Dispatch now s p d)"
    unfolding Dispatch_def Let_def c_def [symmetric] by (intro if_Q r l j o m)
  then show ?thesis using assms(2) by (simp add: Q_def c_def)
qed

text \<open>
  C7: a command from a sender who is neither mod nor admin, whatever it is and whatever its arguments,
  touches nobody else: every other member's record, the ban list, the description, the pins and the
  configuration are unchanged, and the only effect outside the command layer it can cause, beyond a log
  line, is its own join.
\<close>

theorem user_command_confined:
  assumes "hex_hash s" and "CRole (deriveCaller d s) = RoleUser" and "Dispatch now s p d = ((rep, hooks), d')"
  shows "(\<forall>h. h \<noteq> s \<longrightarrow> map_of (users (Rost d')) h = map_of (users (Rost d)) h) \<and>
    banlist (Rost d') = banlist (Rost d) \<and> Info d' = Info d \<and> Cfg d' = Cfg d \<and>
    (\<forall>h \<in> set hooks. h = Joined s \<or> (\<exists>cmd k n t. h = Overflowed cmd k n t))"
proof -
  have "permitted now (deriveCaller d s) d d'" using Dispatch_allowed [of now d s p] assms(3) by simp
  moreover have "\<forall>h \<in> set hooks. h = Joined s \<or> (\<exists>cmd k n t. h = Overflowed cmd k n t)"
    using user_hooks [OF assms(2), of _ now p] assms(3) by (simp add: deriveCaller_hex [OF assms(1)])
  ultimately show ?thesis
    using user_confined [of now "deriveCaller d s" d d'] assms(1,2) by (simp add: deriveCaller_hex)
qed

text \<open>An example dispatcher: the two members of \<open>demo\<close>, no configured admins.\<close>

definition demoDisp :: Dispatcher where
  "demoDisp = \<lparr>Cfg = defaults, Rost = demo, Info = Some emptyStore, Announce = None, PathLookup = None,
     OnJoin = True, OnAdminAdd = True, LookupAnnouncedName = None, MaxReplyContentBytes = 0,
     OverflowLog = False, PacketFits = (\<lambda>n. n \<le> 280)\<rparr>"

definition typed :: "string \<Rightarrow> string list \<Rightarrow> Parsed" where
  "typed n args = \<lparr>Name = n, Args = args, Rest = Join args '' '', Raw = []\<rparr>"

lemma demoDisp_roles: "hex_hash s \<Longrightarrow> CRole (deriveCaller demoDisp s) = RoleUser"
  by (auto simp: deriveCaller_role demoDisp_def demo_def configRole_def IsAdmin_def IsMod_def defaults_def
      zeroUser_def parseRole_def split: option.split)

theorem user_command_confined_witness:
  "map_of (users (Rost (snd (Dispatch 9 alice (typed ''ban'' [''bob'']) demoDisp)))) bob = map_of (users demo) bob"
  using user_command_confined [OF demo_hashes(5) demoDisp_roles [OF demo_hashes(5)], of 9 "typed ''ban'' [''bob'']"]
    demo_hashes(7) prod.collapse [of "fst (Dispatch 9 alice (typed ''ban'' [''bob'']) demoDisp)"]
    prod.collapse [of "Dispatch 9 alice (typed ''ban'' [''bob'']) demoDisp"]
  by (metis (no_types, lifting) Dispatcher.select_convs(2) demoDisp_def)

subsection \<open>Roles\<close>

definition role_at :: "Dispatcher \<Rightarrow> string \<Rightarrow> string" where
  "role_at d h = (case map_of (users (Rost d)) h of Some u \<Rightarrow> Role u | None \<Rightarrow> '''')"

lemma roles_kept:
  assumes "permitted now c d d'" and "CRole c \<noteq> RoleAdmin"
  shows "role_at d' h = role_at d h \<or> map_of (users (Rost d')) h = None"
  using assms
  by (cases rule: permitted.cases; cases "map_of (users (Rost d)) h")
     (auto simp: role_at_def lookup_simps zeroUser_def)

text \<open>
  C8: only an admin can grant. After any command of a sender who is not an admin, every hash has the
  runtime role it had before, or is no longer a member at all; in particular mods cannot promote anybody,
  themselves included, and re-inviting somebody does not bring a role back.
\<close>

theorem no_escalation:
  assumes "hex_hash s" and "CRole (deriveCaller d s) \<noteq> RoleAdmin"
  shows "role_at (snd (Dispatch now s p d)) h = role_at d h \<or>
    map_of (users (Rost (snd (Dispatch now s p d)))) h = None"
  using roles_kept [OF Dispatch_allowed assms(2)] .

theorem no_escalation_witness:
  "role_at (snd (Dispatch 9 alice (typed ''usermode'' [''admin'', ''al'']) demoDisp)) alice = '''' \<or>
   map_of (users (Rost (snd (Dispatch 9 alice (typed ''usermode'' [''admin'', ''al'']) demoDisp)))) alice = None"
proof -
  have "role_at demoDisp alice = ''''"
    using demo_lookup(1) by (simp add: role_at_def demoDisp_def zeroUser_def)
  with no_escalation [OF demo_hashes(5), of demoDisp 9 "typed ''usermode'' [''admin'', ''al'']" alice]
    demoDisp_roles [OF demo_hashes(5)] show ?thesis by simp
qed

lemma parseRole_names:
  assumes "role_ok r"
  shows "parseRole r = RoleAdmin \<longleftrightarrow> r = ''admin''"
  using assms by (auto simp: role_ok_def parseRole_def)

lemma max_Admin: "max a b = RoleAdmin \<longleftrightarrow> a = RoleAdmin \<or> b = RoleAdmin"
  by (cases a; cases b) (simp_all add: max_def less_eq_Role_def)

lemma role_configRole: "Rost d' = r \<Longrightarrow> Cfg d' = Cfg d \<Longrightarrow> uni r = uni (Rost d) \<Longrightarrow> configRole d' h = configRole d h"
  by (auto simp: configRole_def)

text \<open>
  C11: the configured role is a floor and no admin locks themself out. A sender's effective role is never
  below what the configuration lists grant, whatever the roster says; and an admin who runs \<^verbatim>\<open>/usermode\<close>,
  on themself or on anybody, with any arguments, is still an admin afterwards.
\<close>

theorem admin_never_locked_out:
  assumes "wf_roster (Rost d)" and "hex_hash s" and "CRole (deriveCaller d s) = RoleAdmin" and "Name p = ''usermode''"
  shows "CRole (deriveCaller (snd (Dispatch now s p d)) s) = RoleAdmin \<and>
    (\<forall>d' h. hex_hash h \<longrightarrow> configRole d' h \<le> CRole (deriveCaller d' h))"
proof -
  let ?c = "deriveCaller d s" and ?d' = "snd (handleUserMode (deriveCaller d s) (Args p) d)"
  have D: "snd (Dispatch now s p d) = ?d'" using assms(4) by (simp add: Dispatch_def Let_def)
  have fl: "\<forall>d' h. hex_hash h \<longrightarrow> configRole d' h \<le> CRole (deriveCaller d' h)"
    by (auto simp: deriveCaller_role split: option.split)
  consider "?d' = d"
    | q u role where "Resolve q (Rost d) = Inr u" "role_ok role"
      "Hash u \<noteq> s \<or> parseRole role = RoleAdmin \<or> configRole d s = RoleAdmin"
      "?d' = d\<lparr>Rost := snd (SetRole (Hash u) role (Rost d))\<rparr>"
    using handleUserMode_shape [OF assms(3), of "Args p"] deriveCaller_hex(1) [OF assms(2), of d] by metis
  then have "CRole (deriveCaller ?d' s) = RoleAdmin"
  proof cases
    case 2
    have cr: "configRole ?d' s = configRole d s" using 2(4) by (auto intro!: role_configRole)
    have hu: "hex_hash (Hash u)" using Resolve_wf(1) [OF assms(1) 2(1)] .
    have lk: "map_of (users (Rost ?d')) s =
        map_option (\<lambda>v. if s = Hash u then v\<lparr>Role := role\<rparr> else v) (map_of (users (Rost d)) s)"
      using 2(2,4) hu by (cases "map_of (users (Rost d)) s") (auto simp: users_setters map_of_upd_at role_ok_def)
    show ?thesis
      using assms(3) 2(3) unfolding deriveCaller_role [OF assms(2)] cr lk
      by (cases "map_of (users (Rost d)) s") (auto simp: max_Admin)
  qed (use assms(3) in simp)
  with D fl show ?thesis by simp
qed

definition adminDisp :: Dispatcher where
  "adminDisp = demoDisp\<lparr>Cfg := defaults\<lparr>Admins := [alice]\<rparr>\<rparr>"

lemma adminDisp_role: "CRole (deriveCaller adminDisp alice) = RoleAdmin"
  by (auto simp: deriveCaller_role [OF demo_hashes(5)] adminDisp_def configRole_def IsAdmin_def max_Admin
      demo_hashes(5) split: option.split)

theorem admin_never_locked_out_witness:
  "CRole (deriveCaller (snd (Dispatch 9 alice (typed ''usermode'' [''user'', ''al'']) adminDisp)) alice) = RoleAdmin"
proof -
  have "wf_roster (Rost adminDisp)" using wf_demo by (simp add: adminDisp_def demoDisp_def)
  then show ?thesis
    using admin_never_locked_out [OF _ demo_hashes(5) adminDisp_role] by (simp add: typed_def)
qed

subsection \<open>The invariant of the command layer\<close>

definition nick_ok :: "string \<Rightarrow> bool" where
  "nick_ok n \<longleftrightarrow> n = [] \<or> nickRE n"

definition nicks_ok :: "(string, User) gmap \<Rightarrow> bool" where
  "nicks_ok m \<longleftrightarrow> (\<forall>(h, u) \<in> set m. nick_ok (Nickname u))"

lemma nicks_okD: "nicks_ok m \<Longrightarrow> map_of m k = Some v \<Longrightarrow> nick_ok (Nickname v)"
  unfolding nicks_ok_def using map_of_SomeD by fastforce

definition disp_ok :: "Dispatcher \<Rightarrow> bool" where
  "disp_ok d \<longleftrightarrow> wf_roster (Rost d) \<and> join_book.apart (Rost d) \<and>
     nicks_ok (users (Rost d)) \<and>
     (\<forall>s. Info d = Some s \<longrightarrow> gi_ok s \<and> (\<forall>p \<in> set (pins s). nick_ok (ByNick p)))"

inductive cmd_step :: "Dispatcher \<Rightarrow> Dispatcher \<Rightarrow> bool" where
  command: "hex_hash s \<Longrightarrow> cmd_step d (snd (Dispatch now s p d))"

lemma nicks_gput:
  assumes "nicks_ok m" and "nick_ok (Nickname v)"
  shows "nicks_ok (gput k v m)"
  using assms unfolding nicks_ok_def by (induction m) (auto split: if_splits)

lemma nicks_upd_at:
  assumes "nicks_ok m" and "\<And>u. nick_ok (Nickname u) \<Longrightarrow> nick_ok (Nickname (f u))"
  shows "nicks_ok (upd_at k f m)"
proof (cases "map_of m k")
  case (Some v)
  then have "nick_ok (Nickname v)" using nicks_okD [OF assms(1)] by blast
  then show ?thesis using Some nicks_gput [OF assms(1) assms(2)] by (simp add: upd_at_def)
qed (use assms(1) in \<open>simp add: upd_at_def\<close>)

lemma nicks_methods:
  assumes n: "nicks_ok (users r)"
  shows "nicks_ok (users (snd (AddOrUpdate b t r)))"
    and "nicks_ok (users (snd (AddInvited b t r)))"
    and "nicks_ok (users (snd (Remove h r)))"
    and "nicks_ok (users (snd (Ban h r)))"
    and "nicks_ok (users (snd (SetPaused h x r)))"
    and "nicks_ok (users (snd (SetTextOnly h x r)))"
    and "nicks_ok (users (snd (SetRole h role r)))"
    and "nickRE nick \<Longrightarrow> nicks_ok (users (snd (SetNickname h nick r)))"
proof -
  have bare: "nick_ok (Nickname (zeroUser\<lparr>Hash := h, JoinedAt := t, Invited := x\<rparr>))"
    "nick_ok (Nickname (zeroUser\<lparr>Hash := h, JoinedAt := t\<rparr>))" for h t x
    by (simp_all add: nick_ok_def zeroUser_def)
  show "nicks_ok (users (snd (AddOrUpdate b t r)))"
    using n bare nicks_okD [OF n] unfolding users_AddOrUpdate by (auto intro!: nicks_gput split: option.split)
  show "nicks_ok (users (snd (AddInvited b t r)))"
    using n bare unfolding users_AddInvited by (auto intro!: nicks_gput)
  show "nicks_ok (users (snd (Remove h r)))"
    "nicks_ok (users (snd (Ban h r)))"
    using n by (auto simp: users_Remove users_Ban set_gdel nicks_ok_def)
  show "nicks_ok (users (snd (SetPaused h x r)))"
    "nicks_ok (users (snd (SetTextOnly h x r)))"
    "nicks_ok (users (snd (SetRole h role r)))"
    "nickRE nick \<Longrightarrow> nicks_ok (users (snd (SetNickname h nick r)))"
    using n unfolding users_setters by (auto intro!: nicks_upd_at simp: nick_ok_def)
qed

lemma apart_frame:
  assumes "roster_members r' = roster_members r" and "roster_banned r' = roster_banned r"
  shows "join_book.apart r' = join_book.apart r"
  using assms by (simp add: join_book.apart_def)

lemma apart_setters [simp]:
  "join_book.apart (snd (SetPaused h x r)) = join_book.apart r"
  "join_book.apart (snd (SetTextOnly h x r)) = join_book.apart r"
  "join_book.apart (snd (SetNickname h n r)) = join_book.apart r"
  "join_book.apart (snd (SetRole h role r)) = join_book.apart r"
  by (rule apart_frame; simp add: users_setters)+

lemma hash_bytes_Encode: "length b = 16 \<Longrightarrow> hash_bytes (EncodeToString b) = b"
  by (simp add: hash_bytes_def)

lemma apart_adds:
  assumes "wf_roster r" and "join_book.apart r" and "\<not> IsBanned b r" and "length b = 16"
  shows "join_book.apart (snd (AddOrUpdate b t r))" "join_book.apart (snd (AddInvited b t r))"
proof -
  have nb: "EncodeToString b \<notin> roster_banned r"
    using assms(3,4) by (simp add: IsBanned_def normalizeHash_def)
  note hx = hex_hash_Encode [OF assms(4)]
  show "join_book.apart (snd (AddOrUpdate b t r))"
    using join_book.apart_admit [OF assms(1) hx assms(2) nb, of t]
    unfolding hash_bytes_Encode [OF assms(4)] .
  show "join_book.apart (snd (AddInvited b t r))"
    using invite_book.apart_admit [OF assms(1) hx _ nb, of t] assms(2)
    unfolding hash_bytes_Encode [OF assms(4)] by blast
qed

lemma Get_nick_ok:
  assumes "nicks_ok (users r)"
  shows "nick_ok (case Get h r of Some u \<Rightarrow> Nickname u | None \<Rightarrow> '''')"
  using nicks_okD [OF assms] by (auto simp: Get_def nick_ok_def [of "[]"] split: option.split)

lemma disp_okD:
  assumes "disp_ok d"
  shows "wf_roster (Rost d)" "join_book.apart (Rost d)" "nicks_ok (users (Rost d))"
    "\<And>s. Info d = Some s \<Longrightarrow> gi_ok s" "\<And>s p. Info d = Some s \<Longrightarrow> p \<in> set (pins s) \<Longrightarrow> nick_ok (ByNick p)"
  using assms by (auto simp: disp_ok_def)

lemma disp_ok_Rost:
  assumes "disp_ok d" and "wf_roster r" and "join_book.apart r" and "nicks_ok (users r)"
  shows "disp_ok (d\<lparr>Rost := r\<rparr>)"
  using assms by (simp add: disp_ok_def)

lemma disp_ok_Info:
  assumes "disp_ok d" and "gi_ok s" and "\<forall>p \<in> set (pins s). nick_ok (ByNick p)"
  shows "disp_ok (d\<lparr>Info := Some s\<rparr>)"
  using assms by (simp add: disp_ok_def)

lemma apart_removals:
  assumes "wf_roster r" and "join_book.apart r" and "hex_hash h"
  shows "join_book.apart (snd (Remove h r))" "join_book.apart (snd (Ban h r))" "join_book.apart (snd (Unban h r))"
  using join_book.apart_expel [OF assms(1,3,2)] join_book.apart_exclude [OF assms(1,3,2)]
    join_book.apart_pardon [OF assms(1,3,2)] .

lemma pins_after:
  "set (pins (snd (SetInfo t s))) = set (pins s)"
  "p' \<in> set (pins (snd (AddPin p s))) \<Longrightarrow> p' \<in> set (pins s) \<or> ByNick p' = ByNick p"
  "set (pins (snd (RemovePin n s))) \<subseteq> set (pins s)"
  by (auto simp: SetInfo_def AddPin_def RemovePin_def Let_def split: if_splits dest: in_set_takeD in_set_dropD)

lemma permitted_disp_ok:
  assumes "permitted now c d d'" and "disp_ok d" and "hex_hash (CHash c)" and "HashBytes c = Some (hash_bytes (CHash c))"
  shows "disp_ok d'"
  using assms(1)
proof cases
  case (removes q u)
  then show ?thesis
    using disp_okD [OF assms(2)] Resolve_wf [of "Rost d" q u]
    by (auto intro!: disp_ok_Rost [OF assms(2)] wf_intros apart_removals nicks_methods)
next
  case (bans q u)
  then show ?thesis
    using disp_okD [OF assms(2)] Resolve_wf [of "Rost d" q u]
    by (auto intro!: disp_ok_Rost [OF assms(2)] wf_intros apart_removals nicks_methods)
next
  case (unbans h)
  then have "hex_hash h" using disp_okD(1) [OF assms(2)] by (auto simp: wf_roster_def)
  with unbans disp_okD [OF assms(2)] show ?thesis
    by (auto intro!: disp_ok_Rost [OF assms(2)] wf_intros apart_removals)
next
  case (describes s t)
  then show ?thesis
    using disp_okD [OF assms(2)] by (auto intro!: disp_ok_Info [OF assms(2)] wf_intros simp: pins_after)
next
  case (pins s p)
  then have "nick_ok (ByNick p)" using Get_nick_ok [OF disp_okD(3) [OF assms(2)]] by simp
  with pins disp_okD [OF assms(2)] show ?thesis
    by (auto intro!: disp_ok_Info [OF assms(2)] wf_intros dest!: pins_after(2))
next
  case (unpins s n)
  then show ?thesis
    using disp_okD [OF assms(2)] pins_after(3) [of n s] by (auto intro!: disp_ok_Info [OF assms(2)] wf_intros)
qed (auto simp: assms disp_okD [OF assms(2)] mustHexBytes_length hash_bytes(1) [OF assms(3)]
    intro!: disp_ok_Rost [OF assms(2)] wf_intros nicks_methods apart_adds apart_removals)

lemma cmd_step_permitted:
  assumes "cmd_step d d'"
  obtains s now where "hex_hash s" "permitted now (deriveCaller d s) d d'"
  using assms Dispatch_allowed by (cases rule: cmd_step.cases) blast

interpretation cmd_sys: step_system disp_ok cmd_step disp_ok
proof
  fix d d' assume "disp_ok d" "cmd_step d d'"
  then show "disp_ok d'"
    by (auto elim!: cmd_step_permitted intro: permitted_disp_ok simp: deriveCaller_hex)
qed

text \<open>
  What the invariant means: nobody is both a member and banned, every nickname is empty or one of the nickname
  alphabet, the stored description and pins are within their limits, and what every joiner is sent of them
  is at most 2502 bytes.
\<close>

lemma disp_ok_meaning:
  assumes ok: "disp_ok d"
  shows "wf_roster (Rost d) \<and> roster_members (Rost d) \<inter> roster_banned (Rost d) = {} \<and>
    (\<forall>h u. map_of (users (Rost d)) h = Some u \<longrightarrow> Nickname u = [] \<or> nickRE (Nickname u)) \<and>
    (\<forall>s now. Info d = Some s \<longrightarrow> gi_ok s \<and> length (Render (Pins s) now) \<le> 2502)"
proof -
  have "length (Render (Pins s) now) \<le> 2502" if "Info d = Some s" for s now
  proof -
    have "length (ByNick p) \<le> 32" if "p \<in> set (pins s)" for p
      using disp_okD(5) [OF ok \<open>Info d = Some s\<close> that] by (auto simp: nick_ok_def nickRE_def)
    then show ?thesis
      using length_Render [OF disp_okD(4) [OF ok \<open>Info d = Some s\<close>]] by (simp add: Pins_def)
  qed
  moreover have "Nickname u = [] \<or> nickRE (Nickname u)" if "map_of (users (Rost d)) h = Some u" for h u
    using nicks_okD [OF disp_okD(3) [OF ok] that] by (simp add: nick_ok_def)
  ultimately show ?thesis using disp_okD(1,2,4) [OF ok] by (auto simp: join_book.apart_def)
qed

lemma disp_ok_demo: "disp_ok demoDisp"
  using wf_demo
  by (simp add: disp_ok_def demoDisp_def join_book.apart_def nicks_ok_def gi_ok_def emptyStore_def)
     (simp add: demo_def nick_ok_def nickRE_def nick_char_def zeroUser_def)

subsection \<open>Locked groups\<close>

text \<open>A command of a sender without authority, in any state along a run.\<close>

inductive plain_step :: "Dispatcher \<Rightarrow> Dispatcher \<Rightarrow> bool" where
  plain: "hex_hash s \<Longrightarrow> CRole (deriveCaller d s) = RoleUser \<Longrightarrow> plain_step d (snd (Dispatch now s p d))"

lemma locked_step:
  assumes "permitted now c d d'" and "CRole c = RoleUser" and "Locked (Service (Cfg d))"
  shows "roster_members (Rost d') \<subseteq> roster_members (Rost d) \<and> banlist (Rost d') = banlist (Rost d) \<and> Cfg d' = Cfg d"
  using assms by (cases rule: permitted.cases) (auto simp: users_Remove users_setters)

text \<open>
  C9: nobody gets into a locked group without an invitation. While the group is locked, no sequence of
  commands, from any number of senders none of whom is mod or admin when they send, adds a member: the
  member set only shrinks, and the ban list and the lock itself stay.
\<close>

theorem locked_group_closed:
  assumes "Locked (Service (Cfg d0))" and "reaches plain_step d0 d"
  shows "roster_members (Rost d) \<subseteq> roster_members (Rost d0) \<and> banlist (Rost d) = banlist (Rost d0) \<and>
    Locked (Service (Cfg d))"
  using assms(2,1)
proof (induction rule: reaches.induct)
  case (step e t u)
  from step.hyps(2) obtain s now where "CRole (deriveCaller t s) = RoleUser" "permitted now (deriveCaller t s) t u"
    using Dispatch_allowed by (cases rule: plain_step.cases) blast
  from locked_step [OF this(2,1)] step.IH step.prems show ?case by auto
qed simp

definition lockedDisp :: Dispatcher where
  "lockedDisp = demoDisp\<lparr>Cfg := defaults\<lparr>Service := (Service defaults)\<lparr>Locked := True\<rparr>\<rparr>\<rparr>"

theorem locked_group_closed_witness:
  "roster_members (Rost (snd (Dispatch 9 (replicate 32 CHR ''c'') (typed ''join'' []) lockedDisp))) \<subseteq>
     roster_members demo"
proof -
  have hx: "hex_hash (replicate 32 CHR ''c'')"
    by (simp add: hex_hash_def is_lower_hex_def list_all_iff)
  have r: "CRole (deriveCaller lockedDisp (replicate 32 CHR ''c'')) = RoleUser"
    using hx by (auto simp: deriveCaller_role lockedDisp_def demoDisp_def demo_def configRole_def IsAdmin_def IsMod_def
        defaults_def zeroUser_def parseRole_def split: option.split)
  have l: "Locked (Service (Cfg lockedDisp))" by (simp add: lockedDisp_def)
  from locked_group_closed [OF l reaches_one [where step = plain_step, OF plain_step.plain [OF hx r]]]
  show ?thesis by (simp add: lockedDisp_def demoDisp_def)
qed

subsection \<open>The member cap\<close>

lemma not_full: "\<not> is_full d \<Longrightarrow> 0 < MaxMembers (Service (Cfg d)) \<Longrightarrow> int (Len (Rost d)) < MaxMembers (Service (Cfg d))"
  by (auto simp: is_full_def)

lemma Len_adds:
  "Len (snd (AddOrUpdate b t r)) \<le> Suc (Len r)" "Len (snd (AddInvited b t r)) \<le> Suc (Len r)"
  "Len (snd (SetNickname h n r)) = Len r"
  by (simp_all add: Len_def users_AddOrUpdate users_AddInvited users_setters length_gput)

lemma Len_rest:
  "Len (snd (Remove h r)) \<le> Len r" "Len (snd (Ban h r)) \<le> Len r" "Len (snd (Unban h r)) = Len r"
  "Len (snd (SetPaused h x r)) = Len r" "Len (snd (SetTextOnly h x r)) = Len r" "Len (snd (SetRole h role r)) = Len r"
  by (simp_all add: Len_def users_Remove users_Ban users_setters length_gdel_le)

lemma permitted_cap:
  assumes "permitted now c d d'" and "0 < MaxMembers (Service (Cfg d))"
  shows "int (Len (Rost d')) \<le> max (int (Len (Rost d))) (MaxMembers (Service (Cfg d)))"
proof -
  have "Len (Rost d') \<le> Len (Rost d) \<or> \<not> is_full d \<and> Len (Rost d') \<le> Suc (Len (Rost d))"
    using assms(1) by (cases rule: permitted.cases) (auto simp: Len_rest Len_adds intro: le_SucI)
  then show ?thesis using not_full [OF _ assms(2)] by linarith
qed

text \<open>
  C10: the member cap holds against everybody, operators included: when \<^verbatim>\<open>max_members\<close> is set, no
  sequence of commands takes the roster beyond it, and a roster that is already larger, after the cap was
  lowered, does not grow.
\<close>

theorem member_cap:
  assumes "0 < MaxMembers (Service (Cfg d0))" and "reaches cmd_step d0 d"
  shows "int (Len (Rost d)) \<le> max (int (Len (Rost d0))) (MaxMembers (Service (Cfg d0)))"
proof -
  have "Cfg d = Cfg d0 \<and> int (Len (Rost d)) \<le> max (int (Len (Rost d0))) (MaxMembers (Service (Cfg d0)))"
    using assms(2,1)
  proof (induction rule: reaches.induct)
    case (step e t u)
    from step.hyps(2) obtain s now where "permitted now (deriveCaller t s) t u" by (rule cmd_step_permitted)
    with step permitted_cap [OF this] permitted_Cfg [OF this] show ?case by auto
  qed simp
  then show ?thesis by blast
qed

theorem member_cap_witness:
  "int (Len (Rost (snd (Dispatch 9 bob (typed ''join'' []) demoDisp)))) \<le> 512"
proof -
  have "MaxMembers (Service (Cfg demoDisp)) = 512" "Len (Rost demoDisp) = 2"
    by (simp_all add: demoDisp_def defaults_def DefaultMaxMembers_def Len_def demo_def)
  with member_cap [OF _ reaches_one [where step = cmd_step, OF cmd_step.command [OF demo_hashes(6)]], of demoDisp]
  show ?thesis by (simp add: max_def split: if_splits)
qed

subsection \<open>Reply budgets\<close>

text \<open>One round of the loop: the test, and the two ways it can go.\<close>

definition fit_stop :: "int \<Rightarrow> string \<Rightarrow> string list \<Rightarrow> nat \<Rightarrow> bool" where
  "fit_stop limit line rest used \<longleftrightarrow>
     int (used + (1 + length line) + length (footer (length rest))) > limit \<and> rest \<noteq> [] \<or>
     int (used + (1 + length line)) > limit"

lemma fit_loop_round:
  "fit_loop limit (line # rest) b used kept =
     (if fit_stop limit line rest used then (b @ footer (length (line # rest)), kept)
      else fit_loop limit rest (b @ nl @ line) (used + (1 + length line)) (kept + 1))"
  by (auto simp: fit_stop_def Let_def)

lemma fit_loop_bound:
  assumes "length b = used" and "int (used + length (footer (length lines))) \<le> limit"
    and "fit_loop limit lines b used kept = (b', kept')"
  shows "kept' = kept + length lines \<or> int (length b') \<le> limit"
  using assms
proof (induction lines arbitrary: b used kept)
  case (Cons line rest)
  show ?case
  proof (cases "fit_stop limit line rest used")
    case True
    with Cons.prems show ?thesis by (auto simp: fit_loop_round simp del: fit_loop.simps)
  next
    case False
    then have go: "fit_loop limit rest (b @ nl @ line) (used + (1 + length line)) (kept + 1) = (b', kept')"
      using Cons.prems(3) by (simp add: fit_loop_round del: fit_loop.simps)
    show ?thesis
    proof (cases "rest = []")
      case True
      with go show ?thesis by simp
    next
      case ne: False
      with False have "int (used + (1 + length line) + length (footer (length rest))) \<le> limit"
        by (auto simp: fit_stop_def)
      from Cons.IH [OF _ this go] Cons.prems(1) show ?thesis by simp
    qed
  qed
qed simp

lemma fit_loop_total:
  assumes "fit_loop limit lines b used kept = (b', kept + length lines)" and "length b = used"
  shows "lines = [] \<or> int (length (b @ nl @ Join lines nl)) \<le> limit"
  using assms
proof (induction lines arbitrary: b used kept)
  case (Cons line rest)
  have nostop: "\<not> fit_stop limit line rest used"
    using Cons.prems(1) by (auto simp: fit_loop_round simp del: fit_loop.simps split: if_splits)
  then have go: "fit_loop limit rest (b @ nl @ line) (used + (1 + length line)) (kept + 1) = (b', kept + 1 + length rest)"
    using Cons.prems(1) by (simp add: fit_loop_round del: fit_loop.simps)
  show ?case
  proof (cases rest)
    case Nil
    with nostop Cons.prems(2) show ?thesis by (simp add: fit_stop_def)
  next
    case more: (Cons l ls)
    with Cons.IH [OF go] Cons.prems(2) show ?thesis by simp
  qed
qed simp

text \<open>
  A list reply fits its budget. When the header with its ``and N more'' line fits, the reply of
  \<^verbatim>\<open>fitList\<close> is never longer than the limit, however many lines there are and however long each is;
  without a limit, or when everything fits, it is the whole list.
\<close>

theorem fitList_fits:
  assumes "0 < MaxReplyContentBytes d"
    and "int (length header + length (footer (length lines))) \<le> MaxReplyContentBytes d"
  shows "int (length (fst (fitList d cmd header lines))) \<le> MaxReplyContentBytes d \<and>
    (int (length (header @ nl @ Join lines nl)) \<le> MaxReplyContentBytes d \<longrightarrow> lines \<noteq> [] \<longrightarrow>
      fst (fitList d cmd header lines) = header @ nl @ Join lines nl)"
proof (cases "fit_loop (MaxReplyContentBytes d) lines header (length header) 0")
  case (Pair b kept)
  have "kept = length lines \<or> int (length b) \<le> MaxReplyContentBytes d"
    using fit_loop_bound [OF HOL.refl assms(2) Pair] by simp
  moreover have "lines = [] \<or> int (length (header @ nl @ Join lines nl)) \<le> MaxReplyContentBytes d" if "kept = length lines"
    using fit_loop_total [of _ lines header "length header" 0 b] Pair that by simp
  ultimately show ?thesis
    using assms Pair by (auto simp: fitList_def Let_def)
qed

theorem fitList_fits_witness:
  "length (fst (fitList (demoDisp\<lparr>MaxReplyContentBytes := 60\<rparr>) ''/x'' ''H:'' (replicate 9 (replicate 20 CHR ''y'')))) \<le> 60"
proof -
  have "int (length ''H:'' + length (footer (length (replicate 9 (replicate 20 CHR ''y''))))) \<le> 60"
    by (simp add: footer_def dec_nat.simps)
  then show ?thesis
    using fitList_fits [of "demoDisp\<lparr>MaxReplyContentBytes := 60\<rparr>" "''H:''"] by simp
qed

lemma probe_edge:
  assumes "\<not> fits m" and "m \<le> n + fuel" and "n < m"
  shows "n \<le> probe fits fuel n \<and> \<not> fits (probe fits fuel n + 1) \<and>
    (\<forall>i. n < i \<and> i \<le> probe fits fuel n \<longrightarrow> fits i)"
  using assms
proof (induction fits fuel n rule: probe.induct)
  case (2 fits fuel n)
  show ?case
  proof (cases "fits (n + 1)")
    case True
    with 2(2,4) have "n + 1 < m" by (cases "m = n + 1") auto
    with 2 True have IH: "n + 1 \<le> probe fits fuel (n + 1) \<and> \<not> fits (probe fits fuel (n + 1) + 1) \<and>
        (\<forall>i. n + 1 < i \<and> i \<le> probe fits fuel (n + 1) \<longrightarrow> fits i)" by simp
    have "fits i" if "n < i" "i \<le> probe fits fuel (n + 1)" for i
      using IH True that by (cases "i = n + 1") auto
    with IH True show ?thesis by auto
  qed auto
qed simp

text \<open>
  The measured packet budget is exact. As long as the library refuses some content of at most 1024
  bytes (its own cap is 295), the probe stops, every size up to its result is accepted and the next one is
  refused.
\<close>

theorem singlePacketReplyBytes_exact:
  assumes "\<not> PacketFits d m" and "0 < m" and "m \<le> 1024"
  shows "\<not> PacketFits d (singlePacketReplyBytes d + 1) \<and>
    (\<forall>i. 0 < i \<and> i \<le> singlePacketReplyBytes d \<longrightarrow> PacketFits d i)"
  using probe_edge [of "PacketFits d" m 0 probe_fuel] assms by (simp add: singlePacketReplyBytes_def probe_fuel_def)

theorem singlePacketReplyBytes_exact_witness:
  "\<not> PacketFits demoDisp (singlePacketReplyBytes demoDisp + 1)"
  using singlePacketReplyBytes_exact [of demoDisp 281] by (simp add: demoDisp_def)

subsection \<open>The description fits one packet\<close>

text \<open>The stored description, when there is one, passed the check of \<^verbatim>\<open>InfoOverflow\<close>.\<close>

definition info_fits :: "Dispatcher \<Rightarrow> bool" where
  "info_fits d \<longleftrightarrow> (\<forall>s. Info d = Some s \<longrightarrow> info s \<noteq> [] \<longrightarrow> InfoOverflow d (info s) \<le> 0)"

lemma renderInfo_Info [simp]: "renderInfo (d\<lparr>Info := x\<rparr>) c t n = renderInfo d c t n"
  "renderInfo (d\<lparr>Rost := r\<rparr>) c t n = renderInfo d c t n"
  by (simp_all add: renderInfo_def)

lemma InfoOverflow_state [simp]:
  "InfoOverflow (d\<lparr>Info := x\<rparr>) t = InfoOverflow d t" "InfoOverflow (d\<lparr>Rost := r\<rparr>) t = InfoOverflow d t"
  by (simp_all add: InfoOverflow_def singlePacketReplyBytes_def Let_def)

lemma pin_info_frame [simp]:
  "info (snd (AddPin p s)) = info s" "info (snd (RemovePin n s)) = info s"
  by (simp_all add: AddPin_def RemovePin_def Let_def)

lemma SetInfo_stores: "int (length t) \<le> MaxInfoBytes \<Longrightarrow> info (snd (SetInfo t s)) = t"
  by (simp add: SetInfo_def TruncateText_short)

lemma permitted_info_fits:
  assumes "permitted now c d d'" and "info_fits d"
  shows "info_fits d'"
  using assms(1)
proof cases
  case (describes s t)
  have "info (snd (SetInfo [] s)) = []" by (rule SetInfo_stores) (simp add: MaxInfoBytes_def)
  with describes SetInfo_stores [of t s] show ?thesis by (auto simp: info_fits_def)
qed (use assms(2) in \<open>auto simp: info_fits_def\<close>)

text \<open>\<^verbatim>\<open>InfoOverflow\<close> sizes the worst reply: any caller's reply is at most as long as one of its two probes.\<close>

lemma InfoOverflow_worst:
  assumes "InfoOverflow d t \<le> 0" and "t \<noteq> []" and "length (CHash c) \<le> 32" and "n \<le> MaxPins"
  shows "length (renderInfo d c t n) \<le> singlePacketReplyBytes d"
proof -
  let ?s = "\<lparr>CHash = replicate 32 CHR ''0'', HashBytes = None, CRole = RoleUser, Member = False,
      CPaused = False, CTextOnly = False\<rparr>"
  have "length (renderInfo d ?s t MaxPins) \<le> singlePacketReplyBytes d"
    "length (renderInfo d (?s\<lparr>Member := True\<rparr>) t MaxPins) \<le> singlePacketReplyBytes d"
    using assms(1) by (auto simp: InfoOverflow_def Let_def split: if_splits)
  moreover have "length (dec_nat n) \<le> length (dec_nat MaxPins)"
    using assms(4) by (rule length_dec_nat_mono)
  moreover have "length (renderInfo d c t n) \<le> length (renderInfo d (?s\<lparr>Member := Member c\<rparr>) t MaxPins)"
    using assms(2,3) calculation(3) by (simp add: renderInfo_def MaxPins_def)
  ultimately show ?thesis by (cases "Member c") auto
qed

text \<open>
  C12: \<^verbatim>\<open>/info\<close> cannot be used as an amplifier. Start from a description that passes the startup check,
  let anybody send any commands: every \<^verbatim>\<open>/info\<close> reply with a description, to anybody, member or stranger, is
  within the single-packet budget.
\<close>

theorem info_reply_one_packet:
  assumes "disp_ok d0" and "info_fits d0" and "reaches cmd_step d0 d" and "hex_hash s"
    and "Info d = Some st" and "info st \<noteq> []" and "Name p = ''info''"
  shows "length (fst (fst (Dispatch now s p d))) \<le> singlePacketReplyBytes d"
proof -
  have "info_fits d"
    using assms(3,2)
  proof (induction rule: reaches.induct)
    case (step e t u)
    then show ?case by (auto elim: cmd_step_permitted intro: permitted_info_fits)
  qed
  then have ov: "InfoOverflow d (info st) \<le> 0" using assms(5,6) by (auto simp: info_fits_def)
  have "disp_ok d" using cmd_sys.inv_reaches [OF assms(3,1)] .
  then have "PinCount st \<le> MaxPins" using disp_okD(4) assms(5) by (auto simp: gi_ok_def PinCount_def MaxPins_def)
  moreover have "length (CHash (deriveCaller d s)) \<le> 32"
    using assms(4) by (simp add: deriveCaller_hex hex_hash_def)
  moreover have "fst (fst (Dispatch now s p d)) = renderInfo d (deriveCaller d s) (info st) (PinCount st)"
    using assms(5,7) by (simp add: Dispatch_def Let_def handleInfo_def)
  ultimately show ?thesis using InfoOverflow_worst [OF ov assms(6)] by simp
qed

definition infoDisp :: Dispatcher where
  "infoDisp = demoDisp\<lparr>Info := Some (emptyStore\<lparr>info := ''hi''\<rparr>)\<rparr>"

theorem info_reply_one_packet_witness:
  "length (fst (fst (Dispatch 9 alice (typed ''info'' []) infoDisp))) \<le> singlePacketReplyBytes infoDisp"
proof -
  have ok: "disp_ok infoDisp"
    unfolding infoDisp_def by (rule disp_ok_Info [OF disp_ok_demo]) (simp_all add: gi_ok_def emptyStore_def)
  have "\<not> PacketFits infoDisp 281" by (simp add: infoDisp_def demoDisp_def)
  then have e: "\<not> PacketFits infoDisp (singlePacketReplyBytes infoDisp + 1)"
    using probe_edge [of "PacketFits infoDisp" 281 0 probe_fuel] by (simp add: singlePacketReplyBytes_def probe_fuel_def)
  then have "280 \<le> singlePacketReplyBytes infoDisp" by (simp add: infoDisp_def demoDisp_def)
  then have "InfoOverflow infoDisp ''hi'' \<le> 0"
    by (simp add: InfoOverflow_def Let_def renderInfo_def infoDisp_def demoDisp_def defaults_def MaxPins_def
        mdash_def dec_nat.simps)
  then have fits: "info_fits infoDisp" by (simp add: info_fits_def infoDisp_def)
  show ?thesis
    by (rule info_reply_one_packet [OF ok fits reaches.refl demo_hashes(5), where st = "emptyStore\<lparr>info := ''hi''\<rparr>"])
       (simp_all add: infoDisp_def typed_def)
qed

end
