(* ===== verification/World.thy ===== *)
theory World
  imports Startup OutboundThms CommandProps
begin

text \<open>
  The running service: received messages, announces, pruning, flushes and catch-ups interleaved with the workers of
  the outbound queue, as a step relation on \<open>World\<close>. The handlers reach the queue only through its entry points and the shared id
  cache, so the service refines the queue's own run (\<open>oq_step\<close>), and what was proved of that run holds here.
\<close>

subsection \<open>Handlers as clients of the queue\<close>

text \<open>Message ids are 64 random bits; that those drawn from now on are new is an assumption on the generator.\<close>

definition fresh_ids :: "(nat \<Rightarrow> string) \<Rightarrow> OutboundQueue \<Rightarrow> bool" where
  "fresh_ids ids q \<longleftrightarrow> inj_on ids {next_ref q..} \<and> (\<forall>n \<ge> next_ref q. ids n \<notin> MID ` set (pending q))"

definition advances :: "(nat \<Rightarrow> string) \<Rightarrow> Service \<Rightarrow> Service \<Rightarrow> bool" where
  "advances ids s t \<longleftrightarrow> (fresh_ids ids (outbound s) \<longrightarrow> fresh_ids ids (outbound t) \<and>
     (\<forall>R. rq R = outbound s \<longrightarrow> reaches oq_step R (R\<lparr>rq := outbound t\<rparr>)))"

lemma advances_same: "outbound t = outbound s \<Longrightarrow> advances ids s t"
proof -
  assume a: "outbound t = outbound s"
  have "R\<lparr>rq := outbound t\<rparr> = R" if "rq R = outbound s" for R :: Run using that a by simp
  then have "reaches oq_step R (R\<lparr>rq := outbound t\<rparr>)" if "rq R = outbound s" for R :: Run
    using that by (simp only: reaches.refl)
  with a show ?thesis by (simp add: advances_def)
qed

lemma advances_trans:
  assumes "advances ids s t" and "advances ids t u"
  shows "advances ids s u"
proof (unfold advances_def, intro impI conjI allI)
  assume f: "fresh_ids ids (outbound s)"
  with assms show "fresh_ids ids (outbound u)" by (simp add: advances_def)
  fix R :: Run
  assume R: "rq R = outbound s"
  have 1: "reaches oq_step R (R\<lparr>rq := outbound t\<rparr>)" using assms(1) f R by (simp add: advances_def)
  have "reaches oq_step (R\<lparr>rq := outbound t\<rparr>) ((R\<lparr>rq := outbound t\<rparr>)\<lparr>rq := outbound u\<rparr>)"
    using assms f unfolding advances_def by (metis Run.select_convs(1) Run.surjective Run.update_convs(1))
  then show "reaches oq_step R (R\<lparr>rq := outbound u\<rparr>)" using reaches_trans [OF _ 1] by simp
qed

lemma advances_put_out: "advances ids s (put_out ids now to body flds b after s)"
proof (unfold advances_def, intro impI conjI allI)
  let ?q = "outbound s" and ?q' = "outbound (put_out ids now to body flds b after s)"
  assume f: "fresh_ids ids ?q"
  have q': "?q' = snd (enqueue to body flds b after (ids (next_ref ?q)) now ?q)" by (simp add: put_out_def)
  show "fresh_ids ids ?q'"
  proof (cases rule: enqueue_cases [of to body flds b after "ids (next_ref ?q)" now ?q])
    case full
    with f q' show ?thesis by (simp add: fresh_ids_def)
  next
    case (queued m)
    have "MID m = ids (next_ref ?q)" "pending ?q' = pending ?q @ [m]" "next_ref ?q' = Suc (next_ref ?q)"
      using queued q' by simp_all
    with f show ?thesis by (auto simp: fresh_ids_def inj_on_def Suc_le_eq)
  qed
  fix R :: Run
  assume R: "rq R = ?q"
  have "ids (next_ref ?q) \<notin> MID ` set (pending (rq R))" using f R by (simp add: fresh_ids_def)
  from oq_step.enq [OF this, of to body flds b after now] R q'
  show "reaches oq_step R (R\<lparr>rq := ?q'\<rparr>)" by (auto intro: reaches_one)
qed

lemma advances_set_cache: "advances ids s (set_cache c s)"
proof (unfold advances_def, intro impI conjI allI)
  show "fresh_ids ids (outbound (set_cache c s))" if "fresh_ids ids (outbound s)"
    using that by (simp add: fresh_ids_def set_cache_def)
  show "reaches oq_step R (R\<lparr>rq := outbound (set_cache c s)\<rparr>)" if "rq R = outbound s" for R
    using that oq_step.share [of R c] by (auto simp: set_cache_def intro: reaches_one)
qed

lemma advances_fold: "(\<And>x t. advances ids t (f x t)) \<Longrightarrow> advances ids s (fold f xs s)"
  by (induction xs arbitrary: s) (auto intro: advances_same advances_trans)

text \<open>A change of anything but the queue before or after makes no difference.\<close>

lemma advances_cong: "outbound s' = outbound s \<Longrightarrow> outbound t' = outbound t \<Longrightarrow> advances ids s t \<Longrightarrow> advances ids s' t'"
  by (simp add: advances_def)

lemma advances_sends:
  "advances ids s (send_text ids now to body s)" "advances ids s (send_bubble ids now to body flds b s)"
  "advances ids s (send_last ids now to body s)"
  by (simp_all add: sends_put_out advances_put_out)

lemma outbound_set_roster [simp]: "outbound (set_roster r s) = outbound s"
  by (simp add: set_roster_def)

lemma advances_forward: "advances ids s (fst (forwardToRoster ids now senderHex body flds opts s))"
proof -
  have "advances ids (fst st) (fst (fold (forward_one ids now senderHex body flds opts) hs st))" for hs st
  proof (induction hs arbitrary: st)
    case (Cons h hs)
    have "advances ids (fst st) (fst (forward_one ids now senderHex body flds opts h st))"
      by (auto simp: forward_one_def advances_sends advances_same split: prod.split option.split)
    with Cons show ?case using advances_trans by fastforce
  qed (simp add: advances_same)
  from this [of "(s, 0)"] show ?thesis by (simp add: forwardToRoster_def)
qed

lemma advances_bubble: "advances ids s (snd (newBubbleForForward now s))"
  by (auto simp: newBubbleForForward_def NewBubble_def advances_set_cache advances_same split: option.split)

lemma advances_open: "advances ids s (snd (open_bubble now sender msgID ctext flds s))"
proof -
  obtain b t where t: "newBubbleForForward now s = (b, t)" by fastforce
  then have "advances ids s t" using advances_bubble [of ids s now] by simp
  then have "advances ids s (set_cache x t)" "advances ids s t" for x using advances_trans advances_set_cache by blast+
  with t show ?thesis by (auto simp: open_bubble_def advances_same split: option.split)
qed

lemma advances_fan_out: "advances ids s (fan_out ids now sender msgID nick ctext body flds s)"
proof -
  obtain rw c where rw: "buildRewrite now (qidmap (outbound s)) flds = (rw, c)" by fastforce
  obtain b s1 where b: "open_bubble now sender msgID ctext flds (set_cache c s) = (b, s1)" by fastforce
  obtain s2 n where s2: "forwardToRoster ids now (EncodeToString sender) body (snd (stampReactorIdentity flds sender))
      \<lparr>rewrite = rw, bubble = b\<rparr> s1 = (s2, n)" by fastforce
  have 1: "advances ids s s1"
    using advances_trans [OF advances_set_cache advances_open [of ids "set_cache c s" now sender msgID ctext flds]] b by simp
  have 2: "advances ids s1 s2" using advances_forward s2 by (metis fst_conv)
  have "outbound (fan_out ids now sender msgID nick ctext body flds s) = outbound s2"
    using rw b s2 by (simp add: fan_out_def log_message_def Let_def)
  from advances_cong [OF HOL.refl this advances_trans [OF 1 2]] show ?thesis .
qed

lemma advances_relay: "advances ids s (relay_message ids now sender msgID nick ctext f s)"
  unfolding relay_message_def Let_def replyUnsupportedFields_def
  by (auto intro: advances_same advances_sends advances_fan_out advances_trans [OF advances_sends(1) advances_fan_out])

lemma advances_chat: "advances ids s (handle_chat ids sz now msg ctext s)"
proof -
  have "advances ids s (relay_message ids now a b c d e (set_roster r s))" for a b c d e r
    by (rule advances_trans [OF advances_same advances_relay]) simp
  then show ?thesis
    by (simp add: handle_chat_def replyOverInboundLimit_def replyInvite_def replyPaused_def advances_sends Let_def)
qed

lemma advances_hook: "advances ids s (run_hook ids now h s)"
proof -
  have "advances ids s ((send_text ids now b w s)\<lparr>tasks := ts\<rparr>)" for b w ts
    by (rule advances_cong [OF HOL.refl _ advances_sends(1)]) simp
  then show ?thesis
    by (cases h) (auto simp: run_hook_def onJoin_def onAdminAdd_def Let_def advances_same split: option.split)
qed

lemma advances_command: "advances ids s (handle_command ids net now sender ctext s)"
proof -
  obtain rep hooks d where d: "Dispatch now (EncodeToString sender) (Parse (uni (roster s)) ctext) (wire net (disp s)) = ((rep, hooks), d)"
    by (metis prod.exhaust)
  let ?s1 = "fold (run_hook ids now) hooks (s\<lparr>disp := d\<rparr>)"
  have "advances ids s (s\<lparr>disp := d\<rparr>)" by (simp add: advances_same)
  then have 1: "advances ids s ?s1" by (rule advances_trans) (intro advances_fold advances_hook)
  have "advances ids ?s1 (if rep \<noteq> [] then send_text ids now sender rep ?s1 else ?s1)" by (simp add: advances_sends advances_same)
  with 1 have "advances ids s (if rep \<noteq> [] then send_text ids now sender rep ?s1 else ?s1)" by (rule advances_trans)
  then show ?thesis using d unfolding handle_command_def by (simp only: Let_def prod.case)
qed

lemma outbound_duplicate [simp]: "outbound (snd (is_duplicate now msg s)) = outbound s"
  by (simp add: is_duplicate_def split: prod.split)

lemma advances_inbox: "advances ids s (onLXMFReceived ids sz net now msg s)"
proof -
  obtain dup s1 where d: "is_duplicate now msg s = (dup, s1)" by fastforce
  then have 1: "advances ids s s1" using outbound_duplicate [of now msg s] by (simp add: advances_same)
  let ?s2 = "set_roster (snd (Touch (SourceHash msg) now (roster s1))) s1"
  have 2: "advances ids s1 ?s2" by (simp add: advances_same)
  have "advances ids s (handle_command ids net now a b ?s2)" "advances ids s (handle_chat ids sz now msg b ?s2)" for a b
    using advances_trans [OF 1 advances_trans [OF 2]] advances_command advances_chat by blast+
  with 1 d show ?thesis by (simp add: onLXMFReceived_def Let_def)
qed

lemma advances_catchup: "advances ids s (sendJoinCatchup ids joiner now s)"
proof -
  have r: "advances ids s (fold (\<lambda>e. send_text ids now joiner (replay_body now e)) es (s\<lparr>replayLimit := l\<rparr>))" for es l
    by (rule advances_trans [OF advances_same [of "s\<lparr>replayLimit := l\<rparr>"] advances_fold]) (simp_all add: advances_sends)
  have l: "advances ids s (send_last ids now joiner w t)" if "advances ids s t" for w t
    using advances_trans [OF that advances_sends(3)] .
  have "advances ids s (s\<lparr>replayLimit := l\<rparr>)" for l by (simp add: advances_same)
  then show ?thesis
    using r l by (auto simp: sendJoinCatchup_def Let_def advances_same split: prod.split bool.split)
qed

subsection \<open>The running service\<close>

text \<open>
  \<open>wcatch\<close> is history: the catch-ups run so far, for whom, at which time, and whether they queued anything.
\<close>

record World =
  svc :: Service
  wsending :: "outboundMessage list"
  wsnap :: "outboundMessage list option"
  wstarts :: "outboundMessage list"
  wspent :: "nat list"
  wcatch :: "(bytes \<times> time \<times> bool) list"

definition queue_run :: "World \<Rightarrow> Run" where
  "queue_run w = \<lparr>rq = outbound (svc w), sending = wsending w, snap = wsnap w, starts = wstarts w, spent = wspent w\<rparr>"

definition after_run :: "Run \<Rightarrow> World \<Rightarrow> World" where
  "after_run R w = \<lparr>svc = (svc w)\<lparr>outbound := rq R\<rparr>, wsending = sending R, wsnap = snap R, wstarts = starts R, wspent = spent R,
     wcatch = wcatch w\<rparr>"

definition caught_up :: "(nat \<Rightarrow> string) \<Rightarrow> bytes \<Rightarrow> time \<Rightarrow> World \<Rightarrow> World" where
  "caught_up ids joiner at w =
     (let t = sendJoinCatchup ids joiner at ((svc w)\<lparr>tasks := remove1 (joiner, at) (tasks (svc w))\<rparr>)
      in w\<lparr>svc := t, wcatch := wcatch w @ [(joiner, at, pending (outbound t) \<noteq> pending (outbound (svc w)))]\<rparr>)"

lemma svc_caught_up [simp]:
  "svc (caught_up ids joiner at w) = sendJoinCatchup ids joiner at ((svc w)\<lparr>tasks := remove1 (joiner, at) (tasks (svc w))\<rparr>)"
  by (simp add: caught_up_def Let_def)

lemma queue_run_caught_up: "queue_run (caught_up ids joiner at w) = queue_run (w\<lparr>svc := svc (caught_up ids joiner at w)\<rparr>)"
  by (simp add: queue_run_def caught_up_def Let_def)

text \<open>
  A step of a handler runs to its end; between the handlers any worker may pick, finish or flush. The catch-ups
  run in any order, each after the handler that started it. In Go the handlers are atomic only between the locks of the
  parts they call: a worker, a catch-up or the handler of an announce may run in the middle of a
  fan-out or of another catch-up. Such finer interleavings are not in this relation; the order of messages in the queue and
  what is decided from the queue are proved of \<open>oq_step\<close>, whose steps are the lock regions themselves.
\<close>

inductive svc_step :: "World \<Rightarrow> World \<Rightarrow> bool" where
  receive: "length (SourceHash msg) = 16 \<Longrightarrow> fresh_ids ids (outbound (svc w)) \<Longrightarrow>
    svc_step w (w\<lparr>svc := onLXMFReceived ids sz net now msg (svc w)\<rparr>)"
| catchup: "(joiner, at) \<in> set (tasks (svc w)) \<Longrightarrow> fresh_ids ids (outbound (svc w)) \<Longrightarrow>
    svc_step w (caught_up ids joiner at w)"
| announce: "length hash = 16 \<Longrightarrow> svc_step w (w\<lparr>svc := OnAnnounce_member net now hash emitted app (svc w)\<rparr>)"
| prune: "svc_step w (w\<lparr>svc := runPrune now (svc w)\<rparr>)"
| flush: "svc_step w (w\<lparr>svc := set_roster (snd (Flush (roster (svc w)))) (svc w)\<rparr>)"
| work: "worker_step (queue_run w) R \<Longrightarrow> svc_step w (after_run R w)"

definition svc_init :: "World \<Rightarrow> bool" where
  "svc_init w \<longleftrightarrow> (\<exists>un fits su now c s. NewService un fits su now c = Inr s \<and>
     (\<forall>ms. outboundStore_load (queueFile su) = Inr ms \<longrightarrow> file_ok ms) \<and>
     w = \<lparr>svc = s, wsending = [], wsnap = None, wstarts = [], wspent = [], wcatch = []\<rparr>)"

lemma queue_run_after [simp]: "queue_run (after_run R w) = R"
  by (simp add: queue_run_def after_run_def)

lemma queue_run_svc: "queue_run (w\<lparr>svc := t\<rparr>) = (queue_run w)\<lparr>rq := outbound t\<rparr>"
  by (simp add: queue_run_def)

lemma advances_run:
  assumes "advances ids (svc w) t" and "fresh_ids ids (outbound (svc w))"
  shows "reaches oq_step (queue_run w) (queue_run (w\<lparr>svc := t\<rparr>))"
proof -
  have "rq (queue_run w) = outbound (svc w)" by (simp add: queue_run_def)
  with assms show ?thesis unfolding advances_def queue_run_svc by blast
qed

lemma same_run: "outbound t = outbound (svc w) \<Longrightarrow> reaches oq_step (queue_run w) (queue_run (w\<lparr>svc := t\<rparr>))"
proof -
  assume "outbound t = outbound (svc w)"
  then have "queue_run (w\<lparr>svc := t\<rparr>) = queue_run w" by (simp add: queue_run_def)
  then show ?thesis by (simp only: reaches.refl)
qed

lemma outbound_announce [simp]: "outbound (OnAnnounce_member net now hash emitted app s) = outbound s"
  by (simp add: OnAnnounce_member_def maybeAdoptAnnouncedNickname_def Let_def split: option.split)

lemma svc_step_queue: "svc_step w v \<Longrightarrow> reaches oq_step (queue_run w) (queue_run v)"
proof (induction rule: svc_step.induct)
  case (receive msg ids w sz net now)
  show ?case by (rule advances_run [OF advances_inbox receive(2)])
next
  case (catchup joiner at w ids)
  show ?case
    unfolding queue_run_caught_up svc_caught_up
    by (rule advances_run [OF _ catchup(2)]) (rule advances_cong [OF _ HOL.refl advances_catchup], simp)
next
  case (work w R)
  then show ?case by (simp add: oq_step.work reaches_one)
qed (rule same_run; simp add: runPrune_def)+

lemma svc_init_queue: "svc_init w \<Longrightarrow> oq_init (queue_run w)"
  using start_queue_init by (fastforce simp: svc_init_def queue_run_def elim!: NewService_cases)

interpretation svc_queue: refinement oq_init oq_step oq_core svc_init svc_step queue_run
  by unfold_locales (fact svc_init_queue svc_step_queue)+

end
