(* ===== verification/ServiceProps.thy ===== *)
theory ServiceProps
  imports World
begin

text \<open>
  What the handlers of the service do: which parts of the state each of them can touch, the invariant of the whole
  service, and the refinement of the outbound queue's own run.
\<close>

subsection \<open>Frames\<close>

lemma put_out_frame [simp]:
  "disp (put_out ids now to body flds b ae s) = disp s" "hist (put_out ids now to body flds b ae s) = hist s"
  "dedup (put_out ids now to body flds b ae s) = dedup s" "replayLimit (put_out ids now to body flds b ae s) = replayLimit s"
  "tasks (put_out ids now to body flds b ae s) = tasks s"
  "qidmap (outbound (put_out ids now to body flds b ae s)) = qidmap (outbound s)"
  by (simp_all add: put_out_def enqueue_def persistQueue_def split: option.split)

lemma send_frame [simp]:
  "disp (send_text ids now to body s) = disp s" "hist (send_text ids now to body s) = hist s"
  "tasks (send_text ids now to body s) = tasks s" "dedup (send_text ids now to body s) = dedup s"
  "replayLimit (send_text ids now to body s) = replayLimit s"
  "qidmap (outbound (send_text ids now to body s)) = qidmap (outbound s)"
  "disp (send_bubble ids now to body flds b s) = disp s" "hist (send_bubble ids now to body flds b s) = hist s"
  "tasks (send_bubble ids now to body flds b s) = tasks s" "dedup (send_bubble ids now to body flds b s) = dedup s"
  "qidmap (outbound (send_bubble ids now to body flds b s)) = qidmap (outbound s)"
  "disp (send_last ids now to body s) = disp s" "hist (send_last ids now to body s) = hist s"
  "tasks (send_last ids now to body s) = tasks s" "dedup (send_last ids now to body s) = dedup s"
  "qidmap (outbound (send_last ids now to body s)) = qidmap (outbound s)"
  by (simp_all add: sends_put_out)

lemma set_frame [simp]:
  "disp (set_cache c s) = disp s" "hist (set_cache c s) = hist s" "tasks (set_cache c s) = tasks s" "dedup (set_cache c s) = dedup s"
  "pending (outbound (set_cache c s)) = pending (outbound s)" "next_ref (outbound (set_cache c s)) = next_ref (outbound s)"
  "qidmap (outbound (set_cache c s)) = c"
  "disp (set_roster r s) = (disp s)\<lparr>Rost := r\<rparr>" "hist (set_roster r s) = hist s" "tasks (set_roster r s) = tasks s"
  "dedup (set_roster r s) = dedup s"
  by (simp_all add: set_cache_def set_roster_def)

lemma forward_frame:
  "disp (fst (forwardToRoster ids now sh body flds opts s)) = disp s \<and> hist (fst (forwardToRoster ids now sh body flds opts s)) = hist s \<and>
   tasks (fst (forwardToRoster ids now sh body flds opts s)) = tasks s \<and>
   qidmap (outbound (fst (forwardToRoster ids now sh body flds opts s))) = qidmap (outbound s)"
proof -
  have "disp (fst (fold (forward_one ids now sh body flds opts) hs st)) = disp (fst st) \<and>
      hist (fst (fold (forward_one ids now sh body flds opts) hs st)) = hist (fst st) \<and>
      tasks (fst (fold (forward_one ids now sh body flds opts) hs st)) = tasks (fst st) \<and>
      qidmap (outbound (fst (fold (forward_one ids now sh body flds opts) hs st))) = qidmap (outbound (fst st))" for hs st
  proof (induction hs arbitrary: st)
    case (Cons h hs)
    have "disp (fst (forward_one ids now sh body flds opts h st)) = disp (fst st) \<and>
        hist (fst (forward_one ids now sh body flds opts h st)) = hist (fst st) \<and>
        tasks (fst (forward_one ids now sh body flds opts h st)) = tasks (fst st) \<and>
        qidmap (outbound (fst (forward_one ids now sh body flds opts h st))) = qidmap (outbound (fst st))"
      by (auto simp: forward_one_def split: prod.split option.split)
    with Cons show ?case by simp
  qed simp
  from this [where hs = "ActiveHashes (roster s)" and st = "(s, 0)"] show ?thesis by (simp add: forwardToRoster_def)
qed

lemma open_frame [simp]:
  "disp (snd (open_bubble now sb i c f s)) = disp s" "hist (snd (open_bubble now sb i c f s)) = hist s"
  "tasks (snd (open_bubble now sb i c f s)) = tasks s" "pending (outbound (snd (open_bubble now sb i c f s))) = pending (outbound s)"
  "next_ref (outbound (snd (open_bubble now sb i c f s))) = next_ref (outbound s)"
  by (simp_all add: open_bubble_def newBubbleForForward_def NewBubble_def split: option.split)

text \<open>The fan-out of an accepted message changes the log by at most that message, and the dispatcher and the tasks not at all.\<close>

lemma fan_out_frame:
  "disp (fan_out ids now sb i nick c body f s) = disp s \<and> tasks (fan_out ids now sb i nick c body f s) = tasks s \<and>
   (hist (fan_out ids now sb i nick c body f s) = hist s \<or>
    c \<noteq> [] \<and> hist (fan_out ids now sb i nick c body f s) =
      snd (Append \<lparr>EAt = now, SenderHash = EncodeToString sb, SenderNick = nick, EContent = c\<rparr> (hist s)))"
proof -
  obtain rw cc where rw: "buildRewrite now (qidmap (outbound s)) f = (rw, cc)" by fastforce
  obtain b s1 where b: "open_bubble now sb i c f (set_cache cc s) = (b, s1)" by fastforce
  obtain s2 n where s2: "forwardToRoster ids now (EncodeToString sb) body (snd (stampReactorIdentity f sb))
      \<lparr>rewrite = rw, bubble = b\<rparr> s1 = (s2, n)" by fastforce
  have 1: "disp s1 = disp s" "hist s1 = hist s" "tasks s1 = tasks s"
    using open_frame [of now sb i c f "set_cache cc s"] b by simp_all
  have 2: "disp s2 = disp s1" "hist s2 = hist s1" "tasks s2 = tasks s1"
    using forward_frame [of ids now "EncodeToString sb" body "snd (stampReactorIdentity f sb)" "\<lparr>rewrite = rw, bubble = b\<rparr>" s1] s2
    by simp_all
  have "fan_out ids now sb i nick c body f s = (if n > 0 \<and> c \<noteq> [] then log_message now (EncodeToString sb) nick c s2 else s2)"
    using rw b s2 by (simp add: fan_out_def Let_def)
  with 1 2 show ?thesis by (simp add: log_message_def)
qed

text \<open>Every notice of the service is one text to one recipient.\<close>

lemma notices:
  "\<exists>w. replyUnsupportedFields ids now to ls o0 s = send_text ids now to w s" "\<exists>w. replyInvite ids now to s = send_text ids now to w s"
  "\<exists>w. replyPaused ids now to s = send_text ids now to w s" "\<exists>w. replyOverInboundLimit ids now to n s = send_text ids now to w s"
  unfolding replyUnsupportedFields_def replyInvite_def replyPaused_def replyOverInboundLimit_def by blast+

lemma relay_cases:
  obtains s1 where "s1 = s \<or> (\<exists>w. s1 = send_text ids now sb w s)"
    and "relay_message ids now sb i nick c f s = s1 \<or>
      relay_message ids now sb i nick c f s = fan_out ids now sb i nick c (forward_body nick c (drops f)) (out_fields f) s1"
proof -
  let ?o = "forward_body nick c (drops f) = [] \<and> out_fields f = []"
  let ?s1 = "if rejected f \<noteq> [] then replyUnsupportedFields ids now sb (rejected f) ?o s else s"
  have "?s1 = s \<or> (\<exists>w. ?s1 = send_text ids now sb w s)" using notices(1) by simp
  then show thesis by (rule that) (simp add: relay_message_def Let_def)
qed

lemma relay_frame:
  "disp (relay_message ids now sb i nick c f s) = disp s \<and> tasks (relay_message ids now sb i nick c f s) = tasks s \<and>
   (hist (relay_message ids now sb i nick c f s) = hist s \<or>
    c \<noteq> [] \<and> hist (relay_message ids now sb i nick c f s) =
      snd (Append \<lparr>EAt = now, SenderHash = EncodeToString sb, SenderNick = nick, EContent = c\<rparr> (hist s)))"
proof -
  obtain s1 where s1: "s1 = s \<or> (\<exists>w. s1 = send_text ids now sb w s)"
    and r: "relay_message ids now sb i nick c f s = s1 \<or>
      relay_message ids now sb i nick c f s = fan_out ids now sb i nick c (forward_body nick c (drops f)) (out_fields f) s1"
    by (rule relay_cases)
  have "disp s1 = disp s" "hist s1 = hist s" "tasks s1 = tasks s" using s1 by auto
  with r fan_out_frame [of ids now sb i nick c "forward_body nick c (drops f)" "out_fields f" s1] show ?thesis by auto
qed

lemma hook_frame [simp]:
  "disp (run_hook ids now h s) = disp s" "hist (run_hook ids now h s) = hist s"
  by (auto simp: run_hook_def onJoin_def onAdminAdd_def Let_def split: hook.split option.split)

lemma hooks_frame [simp]:
  "disp (fold (run_hook ids now) hs s) = disp s" "hist (fold (run_hook ids now) hs s) = hist s"
  by (induction hs arbitrary: s) simp_all

lemma command_frame:
  "disp (handle_command ids net now sb c s) = snd (Dispatch now (EncodeToString sb) (Parse (uni (roster s)) c) (wire net (disp s)))"
  "hist (handle_command ids net now sb c s) = hist s"
proof -
  obtain rep hooks d where d: "Dispatch now (EncodeToString sb) (Parse (uni (roster s)) c) (wire net (disp s)) = ((rep, hooks), d)"
    by (metis prod.exhaust)
  then have e: "handle_command ids net now sb c s = (if rep \<noteq> [] then send_text ids now sb rep (fold (run_hook ids now) hooks (s\<lparr>disp := d\<rparr>))
      else fold (run_hook ids now) hooks (s\<lparr>disp := d\<rparr>))"
    unfolding handle_command_def by (simp only: Let_def prod.case)
  show "disp (handle_command ids net now sb c s) = snd (Dispatch now (EncodeToString sb) (Parse (uni (roster s)) c) (wire net (disp s)))"
    "hist (handle_command ids net now sb c s) = hist s"
    unfolding e d by simp_all
qed

lemma texts_frame [simp]:
  "disp (fold (\<lambda>e. send_text ids now j (g e)) es t) = disp t" "hist (fold (\<lambda>e. send_text ids now j (g e)) es t) = hist t"
  "tasks (fold (\<lambda>e. send_text ids now j (g e)) es t) = tasks t"
  by (induction es arbitrary: t) simp_all

lemma catchup_frame [simp]:
  "disp (sendJoinCatchup ids j now s) = disp s" "hist (sendJoinCatchup ids j now s) = hist s"
  "tasks (sendJoinCatchup ids j now s) = tasks s"
  by (auto simp: sendJoinCatchup_def Let_def split: prod.split bool.split)

lemma duplicate_frame [simp]:
  "disp (snd (is_duplicate now msg s)) = disp s" "hist (snd (is_duplicate now msg s)) = hist s"
  "tasks (snd (is_duplicate now msg s)) = tasks s"
  by (simp_all add: is_duplicate_def split: prod.split)

subsection \<open>The invariant of the service\<close>

lemma nicks_presence:
  assumes "nicks_ok (users r)"
  shows "nicks_ok (users (snd (Touch b t r)))" "nicks_ok (users (snd (MarkMessage b t r)))"
    "nicks_ok (users (snd (UpdateLastAnnounce b t r)))" "nicks_ok (users (snd (Prune t d d' r)))"
  using assms unfolding users_Touch users_MarkMessage users_UpdateLastAnnounce users_Prune
  by (auto intro!: nicks_upd_at simp: nicks_ok_def [of "filter _ _"] nicks_ok_def [of "users r"])

lemma apart_presence:
  assumes "join_book.apart r"
  shows "join_book.apart (snd (Touch b t r))" "join_book.apart (snd (MarkMessage b t r))"
    "join_book.apart (snd (UpdateLastAnnounce b t r))" "join_book.apart (snd (Prune t d d' r))" "join_book.apart (snd (Flush r))"
  using assms unfolding join_book.apart_def users_Touch users_MarkMessage users_UpdateLastAnnounce users_Prune by auto


lemma disp_ok_methods:
  assumes "disp_ok d"
  shows "disp_ok (d\<lparr>Rost := snd (Touch b t (Rost d))\<rparr>)" "disp_ok (d\<lparr>Rost := snd (MarkMessage b t (Rost d))\<rparr>)"
    "disp_ok (d\<lparr>Rost := snd (UpdateLastAnnounce b t (Rost d))\<rparr>)" "disp_ok (d\<lparr>Rost := snd (Prune t p q (Rost d))\<rparr>)"
    "disp_ok (d\<lparr>Rost := snd (Flush (Rost d))\<rparr>)" "nickRE n \<Longrightarrow> disp_ok (d\<lparr>Rost := snd (SetNickname h n (Rost d))\<rparr>)"
  using disp_okD [OF assms]
  by (auto intro!: disp_ok_Rost [OF assms] wf_intros nicks_presence apart_presence nicks_methods)

lemma disp_ok_wire [simp]: "disp_ok (wire net d) = disp_ok d"
  by (simp add: disp_ok_def wire_def)

definition svc_ok :: "Service \<Rightarrow> bool" where
  "svc_ok s \<longleftrightarrow> disp_ok (disp s) \<and> 1 \<le> capacity (hist s) \<and> int (length (entries (hist s))) \<le> capacity (hist s)"

lemma keep_last_length: "1 \<le> n \<Longrightarrow> int (length (keep_last n xs)) \<le> n"
  by (auto simp: keep_last_def)

lemma log_ok_Append:
  "1 \<le> capacity l \<Longrightarrow> int (length (entries (snd (Append e l)))) \<le> capacity l"
  by (simp add: keep_last_length)

lemma chat_cases:
  obtains (notice) w where "handle_chat ids sz now msg c s = send_text ids now (SourceHash msg) w s"
  | (accepted) "Has (SourceHash msg) (roster s)" "\<not> IsPaused (EncodeToString (SourceHash msg)) (roster s)"
      "\<not> (MaxInboundChars (scfg s) > 0 \<and> int (RuneCount c) > MaxInboundChars (scfg s))"
      "handle_chat ids sz now msg c s =
        (let s1 = set_roster (snd (MarkMessage (SourceHash msg) now (roster s))) s in
         relay_message ids now (SourceHash msg) (MessageID msg) (sender_nick (EncodeToString (SourceHash msg)) s1)
           (sanitizeForward c) (filterAttachments sz (MsgFields msg) (scfg s1)) s1)"
  using notices(2-4) that unfolding handle_chat_def Let_def by metis

lemma svc_ok_chat: "svc_ok s \<Longrightarrow> svc_ok (handle_chat ids sz now msg c s)"
proof (cases rule: chat_cases [of ids sz now msg c s])
  case accepted
  assume ok: "svc_ok s"
  let ?s1 = "set_roster (snd (MarkMessage (SourceHash msg) now (roster s))) s"
  have "svc_ok ?s1" using ok disp_ok_methods(2) by (simp add: svc_ok_def)
  then show ?thesis
    using accepted relay_frame [of ids now "SourceHash msg" "MessageID msg" "sender_nick (EncodeToString (SourceHash msg)) ?s1"
        "sanitizeForward c" "filterAttachments sz (MsgFields msg) (scfg ?s1)" ?s1] log_ok_Append
    by (auto simp: svc_ok_def Let_def simp del: Append_frame(2))
qed (simp add: svc_ok_def)

lemma svc_ok_inbox:
  assumes "svc_ok s" and "length (SourceHash msg) = 16"
  shows "svc_ok (onLXMFReceived ids sz net now msg s)"
proof -
  obtain dup s1 where d: "is_duplicate now msg s = (dup, s1)" by fastforce
  then have s1: "svc_ok s1" using assms(1) duplicate_frame [of now msg s] by (simp add: svc_ok_def)
  let ?s2 = "set_roster (snd (Touch (SourceHash msg) now (roster s1))) s1"
  have s2: "svc_ok ?s2" using s1 disp_ok_methods(1) by (simp add: svc_ok_def)
  have "svc_ok (handle_command ids net now (SourceHash msg) c ?s2)" for c
    using s2 cmd_sys.inv_step [OF _ cmd_step.command [OF hex_hash_Encode [OF assms(2)]]]
    by (simp add: svc_ok_def command_frame)
  with s1 svc_ok_chat [OF s2] d show ?thesis by (simp add: onLXMFReceived_def Let_def)
qed

lemma svc_ok_announce: "svc_ok s \<Longrightarrow> svc_ok (OnAnnounce_member net now hash emitted app s)"
proof -
  assume ok: "svc_ok s"
  have adopt: "svc_ok (maybeAdoptAnnouncedNickname net hash app t)" if "svc_ok t" for t
    using that disp_ok_methods(6) [of "disp t"] SanitizeNickname_valid
    by (auto simp: maybeAdoptAnnouncedNickname_def svc_ok_def Let_def split: option.split)
  show ?thesis
    unfolding OnAnnounce_member_def Let_def using ok disp_ok_methods(3) by (intro adopt) (simp add: svc_ok_def)
qed

lemma svc_ok_step: "svc_ok (svc w) \<Longrightarrow> svc_step w v \<Longrightarrow> svc_ok (svc v)"
proof (erule svc_step.cases, goal_cases)
  case 1
  then show ?case using svc_ok_inbox by simp
next
  case 2
  then show ?case by (simp add: svc_ok_def)
next
  case 3
  then show ?case using svc_ok_announce by simp
next
  case 4
  then show ?case using disp_ok_methods(4) by (simp add: svc_ok_def runPrune_def)
next
  case 5
  then show ?case using disp_ok_methods(5) by (simp add: svc_ok_def)
next
  case 6
  then show ?case by (simp add: svc_ok_def after_run_def)
qed

subsection \<open>Start-up\<close>

lemma enroll_step_ok:
  assumes "wf_roster r" and "join_book.apart r" and "nicks_ok (users r)" and "hex_hash h" and "h \<notin> set (banlist r)"
    and "enroll_step now h (n, r) = (n', r')"
  shows "wf_roster r' \<and> join_book.apart r' \<and> nicks_ok (users r') \<and> banlist r' = banlist r \<and> h \<in> roster_members r' \<and>
    roster_members r \<subseteq> roster_members r' \<and> roster_members r' \<subseteq> insert h (roster_members r)"
proof -
  obtain b where b: "DecodeString h = Some b" "length b = 16" "EncodeToString b = h" using Decode_hex_hash [OF assms(4)] .
  have nb: "\<not> IsBanned b r" using b assms(5) by (simp add: IsBanned_def normalizeHash_def)
  have has: "Has b r \<longleftrightarrow> h \<in> roster_members r" using b by (simp add: Has_def normalizeHash_def map_of_eq_None_iff)
  have "r' = r \<and> Has b r \<or> \<not> Has b r \<and> r' = snd (AddInvited b now r)"
    using assms(6) b by (auto simp: enroll_step_def split: if_splits prod.splits option.splits)
  then show ?thesis
  proof
    assume "\<not> Has b r \<and> r' = snd (AddInvited b now r)"
    then have r': "r' = snd (AddInvited b now r)" and "h \<notin> roster_members r" using has by simp_all
    then have "users r' = gput h (zeroUser\<lparr>Hash := h, JoinedAt := now, Invited := True\<rparr>) (users r)"
      using b by (simp add: users_AddInvited map_of_eq_None_iff)
    then show ?thesis
      using apart_adds(2) [OF assms(1,2) nb b(2)] nicks_methods(2) [OF assms(3), of b now] wf_roster_methods(2) [OF assms(1)] r'
      by auto
  qed (use assms has in auto)
qed

lemma enroll_ok:
  assumes "wf_roster r" and "join_book.apart r" and "nicks_ok (users r)"
    and "\<forall>h \<in> set hs. hex_hash h \<and> h \<notin> set (banlist r)"
    and "fold (enroll_step now) hs (n, r) = (n', r')"
  shows "wf_roster r' \<and> join_book.apart r' \<and> nicks_ok (users r') \<and> roster_members r' = set hs \<union> roster_members r"
  using assms
proof (induction hs arbitrary: n r)
  case (Cons h hs)
  obtain m q where q: "enroll_step now h (n, r) = (m, q)" by fastforce
  note s = enroll_step_ok [OF Cons.prems(1-3) _ _ q]
  from Cons.prems(4) s have ok: "wf_roster q" "join_book.apart q" "nicks_ok (users q)" "banlist q = banlist r"
    and mem: "roster_members q = insert h (roster_members r)" by auto
  from Cons.IH [OF ok(1-3), of m] Cons.prems(4,5) ok(4) q mem show ?case by auto
qed simp

text \<open>
  The files are such as an earlier run leaves behind (or absent), the configuration has passed \<open>normalize\<close>, and
  nobody it names is banned.
\<close>

definition good_start :: "World \<Rightarrow> bool" where
  "good_start w \<longleftrightarrow> (\<exists>un fits su now c s r. NewService un fits su now c = Inr s \<and> New un (Some (rosterFile su)) = Inr r \<and>
     wf_roster r \<and> roster_members r \<inter> roster_banned r = {} \<and> nicks_ok (users r) \<and>
     list_all (\<lambda>h. hex_hash h \<and> h \<notin> roster_banned r) (Admins c @ Mods c) \<and>
     (\<forall>st. load (infoFile su) = Inr st \<longrightarrow> (\<forall>p \<in> set (pins st). nick_ok (ByNick p))) \<and>
     (\<forall>ms. outboundStore_load (queueFile su) = Inr ms \<longrightarrow> file_ok ms) \<and>
     w = \<lparr>svc = s, wsending = [], wsnap = None, wstarts = [], wspent = [], wcatch = []\<rparr>)"

lemma good_start_init: "good_start w \<Longrightarrow> svc_init w"
  unfolding good_start_def svc_init_def by blast

lemma good_start_ok: "good_start w \<Longrightarrow> svc_ok (svc w) \<and> set (Admins (cfg (svc w)) @ Mods (cfg (svc w))) \<subseteq> roster_members (roster (svc w))"
  unfolding good_start_def
proof (elim exE conjE)
  fix un fits su now c s r
  assume new: "NewService un fits su now c = Inr s" and r: "New un (Some (rosterFile su)) = Inr r"
    and ok: "wf_roster r" "roster_members r \<inter> roster_banned r = {}" "nicks_ok (users r)"
    and roles: "list_all (\<lambda>h. hex_hash h \<and> h \<notin> roster_banned r) (Admins c @ Mods c)"
    and pn: "\<forall>st. load (infoFile su) = Inr st \<longrightarrow> (\<forall>p \<in> set (pins st). nick_ok (ByNick p))"
    and w: "w = \<lparr>svc = s, wsending = [], wsnap = None, wstarts = [], wspent = [], wcatch = []\<rparr>"
  obtain r0 hl st q where p: "New un (Some (rosterFile su)) = Inr r0" "NewLog (historyFile su) (Count (Replay c)) = Inr hl"
    "load (infoFile su) = Inr st"
    "s = \<lparr>disp = start_dispatcher fits c (snd (enrollConfigRoles c now r0)) st, hist = hl, outbound = start_cache c q,
          dedup = start_dedup c, replayLimit = [], tasks = []\<rparr>"
    using new by (rule NewService_cases)
  have "r0 = r" using p(1) r by simp
  have ap: "join_book.apart r" using ok(2) by (simp add: join_book.apart_def)
  obtain n r' where e: "fold (enroll_step now) (Admins c @ Mods c) (0, r) = (n, r')" by fastforce
  have e': "wf_roster r' \<and> join_book.apart r' \<and> nicks_ok (users r') \<and> roster_members r' = set (Admins c @ Mods c) \<union> roster_members r"
    by (rule enroll_ok [OF ok(1) ap ok(3) _ e]) (use roles in \<open>auto simp: list_all_iff\<close>)
  have d: "disp_ok (start_dispatcher fits c r' st)"
    using e' pn p(3) gi_ok_load by (auto simp: disp_ok_def start_dispatcher_def)
  have h: "1 \<le> capacity hl" "int (length (entries hl)) \<le> capacity hl"
    using p(2) keep_last_length [of 1] keep_last_length [of "Count (Replay c)"]
    by (auto simp: NewLog_def Let_def split: sum.splits if_splits)
  have sc: "enrollConfigRoles c now r0 = (n, r')" using e \<open>r0 = r\<close> by (simp add: enrollConfigRoles_def)
  show ?thesis using w p(4) d h sc e' by (simp add: svc_ok_def start_dispatcher_def)
qed

interpretation svc_sys: step_system good_start svc_step "\<lambda>w. svc_ok (svc w)"
  using good_start_ok svc_ok_step by unfold_locales blast+

text \<open>
  C1: The invariant of the whole service. From a start with sound files and nobody named in the configuration banned (the
  enrolment at start-up does not look at the ban list, so a banned admin would become a member), and whatever messages, announces,
  sweeps, flushes, catch-ups and worker steps follow in whatever order, the roster is well formed, nobody is both a member and banned, every nickname
  is empty or in the nickname alphabet, the description and the pins are within their limits and what
  every joiner is sent of them is at most 2502 bytes, the log holds no more than its capacity, and the queue no more than ten thousand
  messages, at most eight of them being sent. Those named in the configuration are members at the start; they
  may leave later, as any member may.
\<close>
theorem service_reachable_ok:
  assumes "good_start w0" and "reaches svc_step w0 w"
  shows "wf_roster (roster (svc w)) \<and> roster_members (roster (svc w)) \<inter> roster_banned (roster (svc w)) = {} \<and>
    (\<forall>h u. map_of (users (roster (svc w))) h = Some u \<longrightarrow> Nickname u = [] \<or> nickRE (Nickname u)) \<and>
    (\<forall>st now. Info (disp (svc w)) = Some st \<longrightarrow> gi_ok st \<and> length (Render (Pins st) now) \<le> 2502) \<and>
    int (LogLen (hist (svc w))) \<le> capacity (hist (svc w)) \<and>
    pendingCount (outbound (svc w)) \<le> 10000 \<and> length (wsending w) \<le> 8 \<and>
    set (Admins (cfg (svc w0)) @ Mods (cfg (svc w0))) \<subseteq> roster_members (roster (svc w0))"
proof -
  have ok: "svc_ok (svc w)" using svc_sys.inv_reachable [OF assms] .
  then have d: "disp_ok (disp (svc w))" by (simp add: svc_ok_def)
  have q: "oq_core (queue_run w)" using svc_queue.abst_inv [OF good_start_init [OF assms(1)] assms(2)] .
  show ?thesis
    using ok disp_ok_meaning [OF d] good_start_ok [OF assms(1)] q
    by (simp add: svc_ok_def LogLen_def pendingCount_def oq_core_def keys_ok_def queue_run_def maxPendingMessages_def outboundWorkers_def)
qed

definition absent :: "'d store_file" where "absent = \<lparr>content = Absent, answers = []\<rparr>"

definition freshInstall :: startup where
  "freshInstall = \<lparr>identityDirErr = None, rosterFile = absent, historyFile = absent, infoFile = absent, logErr = None,
     stateDirErr = None, lockErr = None, identityErr = None, deliveryErr = None, queueFile = absent\<rparr>"

definition demoConfig :: Config where "demoConfig = defaults\<lparr>Admins := [alice]\<rparr>"

definition demoWorld :: World where
  "demoWorld = \<lparr>svc = projr (NewService \<lparr>uc_lower = (\<lambda>r. r), uc_print = (\<lambda>_. True)\<rparr> (\<lambda>n. n \<le> 280) freshInstall 3 demoConfig),
     wsending = [], wsnap = None, wstarts = [], wspent = [], wcatch = []\<rparr>"

lemma demoWorld_good: "good_start demoWorld" "cfg (svc demoWorld) = demoConfig"
proof -
  let ?u = "\<lparr>uc_lower = (\<lambda>r. r), uc_print = (\<lambda>_. True)\<rparr>"
  let ?r = "\<lparr>users = [], banlist = [], store = Some absent, dirty = False, uni = ?u\<rparr>"
  have files: "ReadStore d absent = Inr d" "outboundStore_load absent = Inr []" for d :: 'd
    by (simp_all add: ReadStore_def absent_def outboundStore_load_def)
  have r: "New ?u (Some (rosterFile freshInstall)) = Inr ?r" by (simp add: New_def files freshInstall_def)
  have st: "load (infoFile freshInstall) = Inr st \<Longrightarrow> pins st = []" for st
    by (auto simp: load_def files freshInstall_def)
  obtain s where s: "NewService ?u (\<lambda>n. n \<le> 280) freshInstall 3 demoConfig = Inr s"
    by (simp add: NewService_def opt_fail_def sum_fail_def freshInstall_def New_def NewLog_def load_def files LoadQueue_def
      start_queue_def demoConfig_def defaults_def newOutboundQueue_def Let_def)
  show "cfg (svc demoWorld) = demoConfig"
    using s by (auto simp: demoWorld_def start_dispatcher_def elim!: NewService_cases)
  show "good_start demoWorld"
    unfolding good_start_def
    by (rule exI [of _ ?u], rule exI [of _ "\<lambda>n. n \<le> 280"], rule exI [of _ freshInstall], rule exI [of _ 3], rule exI [of _ demoConfig],
      rule exI [of _ s], rule exI [of _ ?r])
     (use s r st demo_hashes(5) files in \<open>auto simp: demoWorld_def demoConfig_def defaults_def wf_roster_def wf_users_def nicks_ok_def
        freshInstall_def file_ok_def\<close>)
qed

theorem service_reachable_ok_witness:
  "alice \<in> roster_members (roster (svc demoWorld)) \<and>
   roster_members (roster (runPrune 9 (svc demoWorld))) \<inter> roster_banned (roster (runPrune 9 (svc demoWorld))) = {}"
proof -
  have "Admins (cfg (svc demoWorld)) = [alice]" by (simp add: demoWorld_good(2) demoConfig_def)
  then show ?thesis
    using service_reachable_ok [OF demoWorld_good(1) reaches_one [where step = svc_step, OF svc_step.prune [of demoWorld 9]]] by simp
qed

text \<open>
  C6: The service refines its outbound queue. Every run of the service, however its handlers, catch-ups, sweeps and
  workers interleave, is seen from the queue a run of the queue's own step relation from one of its initial
  states: the handlers do nothing to the queue but enqueue and update the id cache they share. So
  everything shown of the queue's runs (order, budgets, bounds, durability) holds in the service.
\<close>
theorem service_refines_queue:
  assumes "svc_init w0" and "reaches svc_step w0 w"
  shows "oq_init (queue_run w0) \<and> reaches oq_step (queue_run w0) (queue_run w)"
  using svc_queue.abst_init [OF assms(1)] svc_queue.abst_run [OF assms(2)] by blast

theorem service_refines_queue_witness:
  "oq_init (queue_run demoWorld) \<and>
   reaches oq_step (queue_run demoWorld) (queue_run (demoWorld\<lparr>svc := runPrune 9 (svc demoWorld)\<rparr>))"
  using service_refines_queue [OF good_start_init [OF demoWorld_good(1)]
    reaches_one [where step = svc_step, OF svc_step.prune [of demoWorld 9]]] .

end
