(* ===== verification/RelayProps.thy ===== *)
theory RelayProps
  imports ServiceProps
begin

text \<open>
  What the handlers put into the queue: who gets a relayed message and with which fields, and what happens to messages
  that are refused. \<open>letters\<close> is the queue as a list of what is to be sent to whom.
\<close>

subsection \<open>What an enqueue appends\<close>

type_synonym letter = "bytes \<times> bytes \<times> fieldmap \<times> bref option \<times> bool"

definition letter :: "outboundMessage \<Rightarrow> letter" where
  "letter m = (Recipient m, MBody m, MFields m, MBubble m, AfterEarlier m)"

definition letters :: "Service \<Rightarrow> letter list" where
  "letters s = map letter (pending (outbound s))"

definition room :: "nat \<Rightarrow> Service \<Rightarrow> bool" where
  "room n s \<longleftrightarrow> length (letters s) + n \<le> maxPendingMessages"

lemma letters_put_out:
  "letters (put_out ids now to body flds b ae s) = letters s @ [(to, body, flds, b, ae)] \<or>
   letters (put_out ids now to body flds b ae s) = letters s"
  "room 1 s \<Longrightarrow> letters (put_out ids now to body flds b ae s) = letters s @ [(to, body, flds, b, ae)]"
  by (simp_all add: letters_def letter_def room_def put_out_def enqueue_def)

lemma letters_sends:
  "room 1 s \<Longrightarrow> letters (send_text ids now to body s) = letters s @ [(to, body, [], None, False)]"
  "room 1 s \<Longrightarrow> letters (send_bubble ids now to body flds b s) = letters s @ [(to, body, flds, b, False)]"
  "room 1 s \<Longrightarrow> letters (send_last ids now to body s) = letters s @ [(to, body, [], None, True)]"
  by (simp_all add: sends_put_out letters_put_out)

lemma letters_same: "pending (outbound t) = pending (outbound s) \<Longrightarrow> letters t = letters s"
  by (simp add: letters_def)

subsection \<open>The fan-out\<close>

definition addressed :: "Service \<Rightarrow> string \<Rightarrow> string \<Rightarrow> fieldmap \<Rightarrow> forwardOpts \<Rightarrow> string \<Rightarrow> letter option" where
  "addressed s senderHex body flds opts h =
     (if h = senderHex then None
      else (case DecodeString h of
          None \<Rightarrow> None
        | Some raw \<Rightarrow> if length raw \<noteq> 16 then None
            else map_option (\<lambda>out. (raw, body, out, bubble opts, False)) (recipient_fields s body flds opts h)))"

lemma recipient_fields_cong:
  assumes "disp t = disp s" and "qidmap (outbound t) = qidmap (outbound s)"
  shows "recipient_fields t = recipient_fields s"
proof -
  have "bubble_heap t = bubble_heap s" by (simp add: bubble_heap_def assms(2))
  then show ?thesis unfolding recipient_fields_def [abs_def] assms(1) by (simp only:)
qed

lemma addressed_cong:
  "disp t = disp s \<Longrightarrow> qidmap (outbound t) = qidmap (outbound s) \<Longrightarrow> addressed t = addressed s"
  unfolding addressed_def [abs_def] by (drule (1) recipient_fields_cong) (simp only:)

lemma forward_one_letters:
  assumes "room 1 s"
  shows "letters (fst (forward_one ids now sh body flds opts h (s, n))) =
      letters s @ (case addressed s sh body flds opts h of None \<Rightarrow> [] | Some l \<Rightarrow> [l])"
    and "snd (forward_one ids now sh body flds opts h (s, n)) = n + (case addressed s sh body flds opts h of None \<Rightarrow> 0 | Some l \<Rightarrow> 1)"
    and "disp (fst (forward_one ids now sh body flds opts h (s, n))) = disp s"
    and "qidmap (outbound (fst (forward_one ids now sh body flds opts h (s, n)))) = qidmap (outbound s)"
  using letters_sends(2) [OF assms] by (auto simp: forward_one_def addressed_def split: option.split)

lemma forward_fold_letters:
  assumes "room (length hs) s"
  shows "letters (fst (fold (forward_one ids now sh body flds opts) hs (s, n))) =
      letters s @ List.map_filter (addressed s sh body flds opts) hs \<and>
    snd (fold (forward_one ids now sh body flds opts) hs (s, n)) = n + length (List.map_filter (addressed s sh body flds opts) hs)"
  using assms
proof (induction hs arbitrary: s n)
  case (Cons h hs)
  obtain t k where t: "forward_one ids now sh body flds opts h (s, n) = (t, k)" by fastforce
  have "room 1 s" using Cons.prems by (simp add: room_def)
  note f = forward_one_letters [OF this, of ids now sh body flds opts h n, unfolded t, simplified]
  have "room (length hs) t" using Cons.prems f(1) by (auto simp: room_def split: option.splits)
  from Cons.IH [OF this, of k] f addressed_cong [OF f(3,4)] t show ?case
    by (auto simp: map_filter_simps split: option.split)
qed (simp add: map_filter_simps)

lemma letters_forward:
  assumes "room (length (ActiveHashes (roster s))) s"
  shows "letters (fst (forwardToRoster ids now sh body flds opts s)) =
      letters s @ List.map_filter (addressed s sh body flds opts) (ActiveHashes (roster s))"
    and "snd (forwardToRoster ids now sh body flds opts s) = length (List.map_filter (addressed s sh body flds opts) (ActiveHashes (roster s)))"
  using forward_fold_letters [OF assms] by (simp_all add: forwardToRoster_def)

lemma active_member:
  assumes "wf_roster r"
  shows "h \<in> set (ActiveHashes r) \<longleftrightarrow> (\<exists>u. map_of (users r) h = Some u \<and> \<not> Paused u)" "distinct (ActiveHashes r)"
    "h \<in> set (ActiveHashes r) \<Longrightarrow> hex_hash h"
proof -
  have ok: "gmap_ok (users r)" using assms by (simp add: wf_roster_def wf_users_def)
  then show "h \<in> set (ActiveHashes r) \<longleftrightarrow> (\<exists>u. map_of (users r) h = Some u \<and> \<not> Paused u)"
    by (force simp: ActiveHashes_def gmap_ok_def)
  show "distinct (ActiveHashes r)" using ok by (simp add: ActiveHashes_def gmap_ok_def distinct_map_filter)
  show "h \<in> set (ActiveHashes r) \<Longrightarrow> hex_hash h" using assms by (auto simp: ActiveHashes_def wf_roster_def wf_users_def)
qed

lemma addressed_hash:
  assumes "hex_hash h"
  shows "addressed s sh body flds opts h = (if h = sh then None
    else map_option (\<lambda>out. (hash_bytes h, body, out, bubble opts, False)) (recipient_fields s body flds opts h))"
proof -
  obtain b where b: "DecodeString h = Some b" "length b = 16" by (rule Decode_hex_hash [OF assms])
  then have "hash_bytes h = b" by (simp add: hash_bytes_def)
  with b show ?thesis by (simp add: addressed_def)
qed

lemma distinct_map_filter_inj:
  assumes "distinct xs" and "\<And>x y a b. x \<in> set xs \<Longrightarrow> y \<in> set xs \<Longrightarrow> f x = Some a \<Longrightarrow> f y = Some b \<Longrightarrow> g a = g b \<Longrightarrow> x = y"
  shows "distinct (map g (List.map_filter f xs))"
  using assms
proof (induction xs)
  case (Cons x xs)
  then have "distinct (map g (List.map_filter f xs))" by simp
  moreover have "g a \<notin> g ` set (List.map_filter f xs)" if "f x = Some a" for a
    using Cons.prems that by (fastforce simp: set_map_filter)
  ultimately show ?case by (simp add: map_filter_simps split: option.split)
qed (simp add: map_filter_simps)

text \<open>
  If the queue has room, a fan-out appends to it one message for each
  active member other than the sender, except those the rewriting or the text-only rule skips, no two to the same
  member and none to anybody else; each carries the body, the bubble and that member's own fields; the count
  returned is their number. A message with text and without a target skips nobody.
\<close>
lemma forward_exactly_once:
  assumes "wf_roster (roster s)" and "room (length (ActiveHashes (roster s))) s"
    and "forwardToRoster ids now senderHex body flds opts s = (t, n)"
  shows "\<exists>ls. letters t = letters s @ ls \<and> n = length ls \<and> distinct (map fst ls) \<and>
    (\<forall>h. (\<exists>l \<in> set ls. EncodeToString (fst l) = h) \<longleftrightarrow>
      (\<exists>u. map_of (users (roster s)) h = Some u \<and> \<not> Paused u) \<and> h \<noteq> senderHex \<and> recipient_fields s body flds opts h \<noteq> None) \<and>
    (\<forall>(to, b, fs, bub, ae) \<in> set ls. b = body \<and> bub = bubble opts \<and> \<not> ae \<and>
      recipient_fields s body flds opts (EncodeToString to) = Some fs) \<and>
    (rewrite opts = None \<and> body \<noteq> [] \<longrightarrow> (\<forall>h. recipient_fields s body flds opts h \<noteq> None))"
proof -
  let ?as = "ActiveHashes (roster s)" and ?ls = "List.map_filter (addressed s senderHex body flds opts) (ActiveHashes (roster s))"
  note act = active_member [OF assms(1)]
  have l: "letters t = letters s @ ?ls" "n = length ?ls"
    using letters_forward [OF assms(2), of ids now senderHex body flds opts] assms(3) by simp_all
  have enc: "EncodeToString (hash_bytes h) = h" if "h \<in> set ?as" for h
    using hash_bytes(2) [OF act(3) [OF that]] .
  have mem: "l \<in> set ?ls \<longleftrightarrow> (\<exists>h \<in> set ?as. h \<noteq> senderHex \<and>
      (\<exists>out. recipient_fields s body flds opts h = Some out \<and> l = (hash_bytes h, body, out, bubble opts, False)))" for l
  proof -
    have a: "addressed s senderHex body flds opts h = Some l \<longleftrightarrow> h \<noteq> senderHex \<and>
        (\<exists>out. recipient_fields s body flds opts h = Some out \<and> l = (hash_bytes h, body, out, bubble opts, False))"
      if "h \<in> set ?as" for h
      using addressed_hash [OF act(3) [OF that], of s senderHex body flds opts]
      by (cases "recipient_fields s body flds opts h") auto
    show ?thesis unfolding set_map_filter using a by (rule bex_cong [OF HOL.refl])
  qed
  have d: "distinct (map fst ?ls)"
  proof (rule distinct_map_filter_inj [OF act(2)])
    fix x y a b
    assume x: "x \<in> set ?as" "addressed s senderHex body flds opts x = Some a" and y: "y \<in> set ?as" "addressed s senderHex body flds opts y = Some b"
      and e: "fst a = fst b"
    have "fst a = hash_bytes x" "fst b = hash_bytes y"
      using x y act(3) by (auto simp: addressed_hash split: if_splits)
    with e enc x y show "x = y" by metis
  qed
  have who: "(\<exists>l \<in> set ?ls. EncodeToString (fst l) = h) \<longleftrightarrow> h \<in> set ?as \<and> h \<noteq> senderHex \<and> recipient_fields s body flds opts h \<noteq> None" for h
  proof
    assume "\<exists>l \<in> set ?ls. EncodeToString (fst l) = h"
    then obtain l where l: "l \<in> set ?ls" "EncodeToString (fst l) = h" by blast
    from mem [THEN iffD1, OF l(1)] obtain h' out where "h' \<in> set ?as" "h' \<noteq> senderHex"
      "recipient_fields s body flds opts h' = Some out" "l = (hash_bytes h', body, out, bubble opts, False)" by blast
    with l(2) enc show "h \<in> set ?as \<and> h \<noteq> senderHex \<and> recipient_fields s body flds opts h \<noteq> None" by auto
  next
    assume h: "h \<in> set ?as \<and> h \<noteq> senderHex \<and> recipient_fields s body flds opts h \<noteq> None"
    then obtain out where "recipient_fields s body flds opts h = Some out" by blast
    with h have "(hash_bytes h, body, out, bubble opts, False) \<in> set ?ls" by (intro mem [THEN iffD2]) blast
    with h enc show "\<exists>l \<in> set ?ls. EncodeToString (fst l) = h" by force
  qed
  have each: "\<forall>(to, b, fs, bub, ae) \<in> set ?ls. b = body \<and> bub = bubble opts \<and> \<not> ae \<and>
      recipient_fields s body flds opts (EncodeToString to) = Some fs"
  proof (rule ballI)
    fix l assume "l \<in> set ?ls"
    from mem [THEN iffD1, OF this] obtain h out where "h \<in> set ?as" "recipient_fields s body flds opts h = Some out"
      "l = (hash_bytes h, body, out, bubble opts, False)" by blast
    with enc show "case l of (to, b, fs, bub, ae) \<Rightarrow> b = body \<and> bub = bubble opts \<and> \<not> ae \<and>
      recipient_fields s body flds opts (EncodeToString to) = Some fs" by simp
  qed
  have skip: "rewrite opts = None \<and> body \<noteq> [] \<longrightarrow> (\<forall>h. recipient_fields s body flds opts h \<noteq> None)"
    by (simp add: recipient_fields_def)
  show ?thesis by (rule exI [of _ ?ls], intro conjI allI l d each skip) (use who act(1) in simp)
qed

definition demoSvc :: Service where
  "demoSvc = \<lparr>disp = demoDisp, hist = \<lparr>lpath = absent, capacity = 5, entries = []\<rparr>, outbound = newOutboundQueue None, dedup = None,
     replayLimit = [], tasks = []\<rparr>"

lemma demoSvc_simps [simp]:
  "roster demoSvc = demo" "cfg demoSvc = defaults" "letters demoSvc = []" "length (ActiveHashes demo) = 2"
  by (simp_all add: demoSvc_def demoDisp_def letters_def newOutboundQueue_def ActiveHashes_def demo_def zeroUser_def)

subsection \<open>What is refused\<close>

text \<open>Why a text that is not a command is refused, as the beginning of the notice its sender gets.\<close>

definition refusal :: "Service \<Rightarrow> Message \<Rightarrow> string \<Rightarrow> string option" where
  "refusal s msg c =
     (if MaxInboundChars (scfg s) > 0 \<and> int (RuneCount c) > MaxInboundChars (scfg s)
      then Some (''Message rejected: limit is '' @ Itoa (MaxInboundChars (scfg s)) @ '' characters per message, yours was '' @ Itoa (int (RuneCount c)))
      else if \<not> Has (SourceHash msg) (roster s) then Some ''Welcome. To join this chat send /join.''
      else if IsPaused (EncodeToString (SourceHash msg)) (roster s) then Some ''You're paused. Your message wasn't forwarded.''
      else None)"

lemma chat_refused:
  assumes "refusal s msg c = Some p"
  shows "\<exists>w. handle_chat ids sz now msg c s = send_text ids now (SourceHash msg) (p @ w) s"
proof -
  consider (over) "MaxInboundChars (scfg s) > 0 \<and> int (RuneCount c) > MaxInboundChars (scfg s)"
    | (stranger) "\<not> (MaxInboundChars (scfg s) > 0 \<and> int (RuneCount c) > MaxInboundChars (scfg s))" "\<not> Has (SourceHash msg) (roster s)"
    | (paused) "\<not> (MaxInboundChars (scfg s) > 0 \<and> int (RuneCount c) > MaxInboundChars (scfg s))" "Has (SourceHash msg) (roster s)"
        "IsPaused (EncodeToString (SourceHash msg)) (roster s)"
    using assms by (auto simp: refusal_def split: if_splits)
  then show ?thesis
  proof cases
    case over
    with assms show ?thesis
      by (intro exI [of _ "''. Please shorten and resend.''"]) (clarsimp simp: refusal_def handle_chat_def replyOverInboundLimit_def Let_def)
  next
    case stranger
    with assms show ?thesis
      by (intro exI [of _ "'' Send /? for help. Until you join, your messages aren't forwarded.''"])
        (clarsimp simp: refusal_def handle_chat_def replyInvite_def Let_def)
  next
    case paused
    with assms show ?thesis
      by (intro exI [of _ "'' Send /resume to come back.''"]) (clarsimp simp: refusal_def handle_chat_def replyPaused_def Let_def)
  qed
qed

lemma duplicate_letters [simp]: "letters (snd (is_duplicate now msg s)) = letters s"
  by (simp add: letters_def)

lemma refusal_cong: "Cfg (disp t) = Cfg (disp s) \<Longrightarrow> Has (SourceHash msg) (roster t) = Has (SourceHash msg) (roster s) \<Longrightarrow>
    IsPaused (EncodeToString (SourceHash msg)) (roster t) = IsPaused (EncodeToString (SourceHash msg)) (roster s) \<Longrightarrow>
    refusal t msg c = refusal s msg c"
  by (simp add: refusal_def)

lemma Touch_reads:
  "length b = 16 \<Longrightarrow> Has b (snd (Touch b t r)) = Has b r"
  "length b = 16 \<Longrightarrow> IsPaused (EncodeToString b) (snd (Touch b t r)) = IsPaused (EncodeToString b) r"
  by (auto simp: Has_def normalizeHash_def IsPaused_def users_Touch upd_at_def map_of_gput split: option.split)

text \<open>
  C5: What is dropped goes to nobody. A message seen before, or from a banned sender, changes nothing but the
  duplicate window. A text that is too long, from a stranger or from a paused member is not forwarded, not
  logged and starts nothing; if the queue has room for one more message, its sender gets exactly one, the notice for the first of
  these reasons, and nobody else gets any. The sender, if a member, is
  marked present (\<^verbatim>\<open>Touch\<close>: the time of the last command, the invitation mark cleared, the roster due to be saved), and
  its message is now in the duplicate window; the rest of the roster, the log, the catch-ups and the id cache stay as they were.
\<close>
theorem refused_leaves_no_trace:
  assumes "length (SourceHash msg) = 16" and "t = onLXMFReceived ids sz net now msg s"
    and "c = TrimRight (Content msg) [CHR 0x0D, CHR 0x0A]" and "dup = fst (is_duplicate now msg s)"
    and "banned = IsBanned (SourceHash msg) (roster s)"
  shows "(dup \<or> banned \<longrightarrow> (\<exists>d. t = s\<lparr>dedup := d\<rparr>)) \<and>
    (\<not> dup \<and> \<not> banned \<and> \<not> IsCommand c \<and> refusal s msg c = Some p \<and> room 1 s \<longrightarrow>
      (\<exists>w. letters t = letters s @ [(SourceHash msg, p @ w, [], None, False)]) \<and> hist t = hist s \<and> tasks t = tasks s \<and>
      qidmap (outbound t) = qidmap (outbound s) \<and> disp t = (disp s)\<lparr>Rost := snd (Touch (SourceHash msg) now (roster s))\<rparr>)"
proof -
  obtain d where d: "is_duplicate now msg s = (dup, s\<lparr>dedup := d\<rparr>)"
  proof (cases "DedupKey msg = []")
    case True
    then show thesis using that [of "dedup s"] assms(4) by (simp add: is_duplicate_def)
  next
    case False
    then show thesis using that assms(4) by (simp add: is_duplicate_def split: prod.split_asm)
  qed
  let ?s1 = "s\<lparr>dedup := d\<rparr>"
  let ?s2 = "set_roster (snd (Touch (SourceHash msg) now (roster ?s1))) ?s1"
  have t: "t = (if dup \<or> banned then ?s1 else if IsCommand c then handle_command ids net now (SourceHash msg) c ?s2
      else handle_chat ids sz now msg c ?s2)"
    using d assms(2,3,5) by (simp add: onLXMFReceived_def Let_def)
  have r: "refusal ?s2 msg c = refusal s msg c"
    by (rule refusal_cong) (simp_all add: Touch_reads [OF assms(1)])
  show ?thesis
  proof (intro conjI impI)
    show "\<exists>d. t = s\<lparr>dedup := d\<rparr>" if "dup \<or> banned" using t that by auto
  next
    assume a: "\<not> dup \<and> \<not> banned \<and> \<not> IsCommand c \<and> refusal s msg c = Some p \<and> room 1 s"
    then obtain w where w: "handle_chat ids sz now msg c ?s2 = send_text ids now (SourceHash msg) (p @ w) ?s2"
      using chat_refused [of ?s2 msg c p ids sz now] r by auto
    have e: "t = send_text ids now (SourceHash msg) (p @ w) ?s2" using t a w by simp
    have l2: "letters ?s2 = letters s" by (simp add: letters_def)
    then have "room 1 ?s2" using a by (simp add: room_def)
    from letters_sends(1) [OF this] e l2
    show "\<exists>w. letters t = letters s @ [(SourceHash msg, p @ w, [], None, False)]" by auto
    show "hist t = hist s" "tasks t = tasks s" "qidmap (outbound t) = qidmap (outbound s)"
      "disp t = (disp s)\<lparr>Rost := snd (Touch (SourceHash msg) now (roster s))\<rparr>"
      unfolding e by simp_all
  qed
qed

definition strangerMsg :: Message where
  "strangerMsg = \<lparr>SourceHash = replicate 16 CHR ''z'', Content = ''hello'', MsgFields = [], DedupKey = ''k'', MessageID = ''m''\<rparr>"

definition quietNet :: network where
  "quietNet = \<lparr>Recall = (\<lambda>_. None), decodeStampCost = (\<lambda>_. None), DisableOutboundStamps = True, MaxStampCost = 16,
     MaxDeliveryStampCost = 20, sendWithID = (\<lambda>_ _ _. Inr ''i''), sendPropagated = (\<lambda>_ _ _ _. Inr ''i''),
     decodeDisplayName = (\<lambda>_. None), ActiveTo = (\<lambda>_. False), encodeAppData = (\<lambda>n _. Inr n), buildPacket = (\<lambda>a. Inr a),
     Broadcast = (\<lambda>_. None)\<rparr>"

theorem refused_leaves_no_trace_witness:
  "hist (onLXMFReceived (\<lambda>n. ''id'') (\<lambda>_. None) quietNet 9 strangerMsg demoSvc) = hist demoSvc \<and>
   length (letters (onLXMFReceived (\<lambda>n. ''id'') (\<lambda>_. None) quietNet 9 strangerMsg demoSvc)) = 1"
proof -
  have len: "length (SourceHash strangerMsg) = 16" by (simp add: strangerMsg_def)
  have c: "TrimRight (Content strangerMsg) [CHR 0x0D, CHR 0x0A] = ''hello''" by (simp add: strangerMsg_def TrimRight_def)
  have "\<not> Has (SourceHash strangerMsg) demo"
    by (simp add: Has_def normalizeHash_def strangerMsg_def demo_def alice_def bob_def numeral_replicate text_eval)
  moreover have "RuneCount ''hello'' = 5" by (simp add: RuneCount_def)
  ultimately have "refusal demoSvc strangerMsg ''hello'' = Some ''Welcome. To join this chat send /join.''"
    by (simp add: refusal_def defaults_def)
  moreover have "\<not> fst (is_duplicate 9 strangerMsg demoSvc)" by (simp add: is_duplicate_def seenBefore_def demoSvc_def strangerMsg_def)
  moreover have "\<not> IsBanned (SourceHash strangerMsg) (roster demoSvc)" by (simp add: IsBanned_def normalizeHash_def demo_def strangerMsg_def)
  moreover have "\<not> IsCommand ''hello''" by (simp add: IsCommand_def text_eval)
  moreover have "room 1 demoSvc" by (simp add: room_def maxPendingMessages_def)
  ultimately show ?thesis
    using refused_leaves_no_trace [OF len HOL.refl c [symmetric] HOL.refl HOL.refl,
      where ids = "\<lambda>n. ''id''" and sz = "\<lambda>_. None" and net = quietNet and now = 9 and s = demoSvc
        and p = "''Welcome. To join this chat send /join.''"] by auto
qed

end
