(* ===== verification/Attribution.thy ===== *)
theory Attribution
  imports RelayProps
begin

text \<open>
  Who a relayed message is attributed to: whatever fields a sender puts into a message, the identity other members see in a
  reaction is the sender's own, and the text carries the sender's own name.
\<close>

subsection \<open>Fields that name nobody but the sender\<close>

definition genuine_field :: "bytes \<Rightarrow> fkey \<times> fval \<Rightarrow> bool" where
  "genuine_field sender kv \<longleftrightarrow> (keyAsInt (fst kv) = Some fieldCustomData \<longrightarrow> snd kv = VBytes sender) \<and>
     (keyAsInt (fst kv) = Some fieldCustomType \<longrightarrow> snd kv = VStr originatorIdentityType)"

definition genuine :: "bytes \<Rightarrow> fieldmap \<Rightarrow> bool" where
  "genuine sender flds \<longleftrightarrow> gmap_ok flds \<and> list_all (genuine_field sender) flds \<and>
     (hasReactionField flds \<longrightarrow> map_of flds (KInt I_int fieldCustomType) = Some (VStr originatorIdentityType) \<and>
        map_of flds (KInt I_int fieldCustomData) = Some (VBytes sender))"

lemma genuine_Nil [simp]: "genuine sender []"
  by (simp add: genuine_def gmap_ok_def hasReactionField_def)

lemma identity_key_ints [simp]: "keyAsInt (KInt I_int i) = Some i"
  by (simp add: keyAsInt_def)

lemma genuine_stamp:
  assumes "gmap_ok flds" and "sender \<noteq> []"
    and "list_all (\<lambda>(k, v). keyAsInt k \<noteq> Some fieldCustomType \<and> keyAsInt k \<noteq> Some fieldCustomData) flds"
  shows "genuine sender (snd (stampReactorIdentity flds sender))"
proof (cases "hasReactionField flds")
  case False
  with assms show ?thesis by (auto simp: stampReactorIdentity_def genuine_def genuine_field_def list_all_iff)
next
  case True
  let ?g = "gput (KInt I_int fieldCustomType) (VStr originatorIdentityType) flds"
  have g: "gmap_ok ?g" using assms(1) by (rule wf_intros)
  have "genuine_field sender kv" if "kv \<in> set (gput (KInt I_int fieldCustomData) (VBytes sender) ?g)" for kv
    using that assms(3) unfolding set_gput [OF g] set_gput [OF assms(1)]
    by (auto simp: genuine_field_def list_all_iff field_numbers)
  moreover have "gmap_ok (gput (KInt I_int fieldCustomData) (VBytes sender) ?g)" using g by (rule wf_intros)
  ultimately show ?thesis
    using True assms(2) by (simp add: stampReactorIdentity_def genuine_def list_all_iff map_of_gput field_numbers)
qed

text \<open>Rewriting touches neither of the two identity fields.\<close>

lemma hasReaction_keys: "hasReactionField flds \<longleftrightarrow> (\<exists>k \<in> set (gkeys flds). keyAsInt k = Some fieldReaction)"
  by (force simp: hasReactionField_def list_ex_iff)

lemma genuine_gput:
  assumes "genuine sender flds" and "k \<in> fst ` set flds" and "keyAsInt k = Some i" and "i \<notin> {fieldCustomType, fieldCustomData}"
  shows "genuine sender (gput k v flds)"
proof -
  have ok: "gmap_ok flds" using assms(1) by (simp add: genuine_def)
  have "hasReactionField (gput k v flds) = hasReactionField flds"
    by (simp add: hasReaction_keys gkeys_gput_mem [OF assms(2)])
  moreover have "map_of (gput k v flds) (KInt I_int j) = map_of flds (KInt I_int j)" if "j \<noteq> i" for j
    using that assms(3) by (auto simp: map_of_gput)
  moreover have "genuine_field sender kv" if "kv \<in> set (gput k v flds)" for kv
    using that assms(1,3,4) by (auto simp: set_gput [OF ok] genuine_def genuine_field_def list_all_iff)
  moreover have "gmap_ok (gput k v flds)" using ok by (rule wf_intros)
  ultimately show ?thesis using assms(1,4) by (simp add: genuine_def list_all_iff)
qed

lemma genuine_strip: "genuine sender flds \<Longrightarrow> genuine sender (stripReplyHash flds)"
  unfolding genuine_def stripReplyHash_def
  by (auto simp: map_of_filter_Some hasReactionField_def list_ex_iff list_all_iff field_numbers intro: wf_intros)

definition dict_fields_only :: "rewriter \<Rightarrow> bool" where
  "dict_fields_only rw \<longleftrightarrow> (\<forall>(i, b) \<in> set (dicts rw). i \<notin> {fieldCustomType, fieldCustomData})"

lemma genuine_dict:
  assumes "genuine sender flds" and "i \<notin> {fieldCustomType, fieldCustomData}" and "substituteDictTarget flds i r bub = Some out"
  shows "genuine sender out"
proof (cases "dict_site i flds")
  case (Some site)
  obtain k m tk where site: "dict_site i flds = Some (k, m, tk)" using Some by (metis prod_cases3)
  note s = dict_site_Some [OF site]
  then have "k \<in> fst ` set flds" by force
  with genuine_gput [OF assms(1) this] s assms(2,3) site show ?thesis
    by (auto simp: substituteDictTarget_def split: option.splits)
qed (use assms in \<open>simp add: substituteDictTarget_def\<close>)

lemma genuine_dicts:
  assumes "rewrite_dicts hp r ds flds = Some out" and "genuine sender flds"
    and "\<forall>(i, b) \<in> set ds. i \<notin> {fieldCustomType, fieldCustomData}"
  shows "genuine sender out"
  using assms
  by (induction hp r ds flds rule: rewrite_dicts.induct) (auto split: option.splits dest: genuine_dict)

lemma genuine_rewrite:
  assumes "apply_rewrite rw hp r flds = Some out" and "genuine sender flds" and "dict_fields_only rw"
  shows "genuine sender out"
proof -
  obtain out1 where o: "rewrite_dicts hp r (dicts rw) flds = Some out1"
    using assms(1) by (auto simp: apply_rewrite_def split: option.splits)
  then have g: "genuine sender out1" using genuine_dicts assms(2,3) by (simp add: dict_fields_only_def)
  have "genuine sender (gput k (VBytes raw) out1)" if "reply_site out1 = Some k" for k raw
    using genuine_gput [OF g] reply_site_Some [OF that] by (auto simp: field_numbers)
  with o g assms(1) genuine_strip [OF g] show ?thesis
    by (auto simp: apply_rewrite_def substituteReplyHash_def split: option.splits prod.splits bool.splits)
qed

lemma scan_dict_fields: "dict_fields_only rw \<Longrightarrow> dict_fields_only (fst (scan_field now kv (rw, c)))"
  by (auto simp: scan_field_def dict_fields_only_def field_numbers Let_def split: prod.split option.split)

lemma buildRewrite_dict_fields:
  assumes "fst (buildRewrite now co flds) = Some rw"
  shows "dict_fields_only rw"
proof -
  have "dict_fields_only (fst (fold (scan_field now) flds st))" if "dict_fields_only (fst st)" for st
    using that
  proof (induction flds arbitrary: st)
    case (Cons kv flds)
    then show ?case using scan_dict_fields [of "fst st" now kv "snd st"] by simp
  qed simp
  from this [of "(\<lparr>dicts = [], replyBubble = None\<rparr>, c)" for c]
  have d: "dict_fields_only (fst (fold (scan_field now) flds (\<lparr>dicts = [], replyBubble = None\<rparr>, c)))" for c
    by (simp add: dict_fields_only_def)
  from assms obtain c c' where "fold (scan_field now) flds (\<lparr>dicts = [], replyBubble = None\<rparr>, c) = (rw, c')"
    by (auto simp: buildRewrite_def split: option.splits prod.splits if_splits)
  with d [of c] show ?thesis by simp
qed

subsection \<open>What the handlers append to the queue\<close>

definition adds :: "(letter \<Rightarrow> bool) \<Rightarrow> Service \<Rightarrow> Service \<Rightarrow> bool" where
  "adds P s t \<longleftrightarrow> (\<exists>new. letters t = letters s @ new \<and> list_all P new)"

lemma adds_same: "letters t = letters s \<Longrightarrow> adds P s t"
  by (simp add: adds_def)

lemma adds_trans: "adds P s t \<Longrightarrow> adds P t u \<Longrightarrow> adds P s u"
  by (auto simp: adds_def)

lemma adds_put_out: "P (to, body, flds, b, ae) \<Longrightarrow> adds P s (put_out ids now to body flds b ae s)"
  using letters_put_out(1) [of ids now to body flds b ae s] by (auto simp: adds_def)

lemma adds_cong: "letters s' = letters s \<Longrightarrow> letters t' = letters t \<Longrightarrow> adds P s t \<Longrightarrow> adds P s' t'"
  by (simp add: adds_def)

lemma adds_fold: "(\<And>x t. adds P t (f x t)) \<Longrightarrow> adds P s (fold f xs s)"
  by (induction xs arbitrary: s) (auto intro: adds_same adds_trans)

lemma letters_frame [simp]:
  "letters (set_roster r s) = letters s" "letters (set_cache co s) = letters s"
  "letters (snd (open_bubble now sb i c f s)) = letters s" "letters (log_message now h nick c s) = letters s"
  "letters (s\<lparr>disp := d\<rparr>) = letters s" "letters (s\<lparr>tasks := ts\<rparr>) = letters s"
  by (simp_all add: letters_def log_message_def)

lemma adds_forward:
  assumes "\<And>u h out raw. recipient_fields u body flds opts h = Some out \<Longrightarrow> P (raw, body, out, bubble opts, False)"
  shows "adds P s (fst (forwardToRoster ids now sh body flds opts s))"
proof -
  have "adds P (fst st) (fst (fold (forward_one ids now sh body flds opts) hs st))" for hs st
  proof (induction hs arbitrary: st)
    case (Cons h hs)
    have "adds P (fst st) (fst (forward_one ids now sh body flds opts h st))"
      by (auto simp: forward_one_def sends_put_out adds_same intro!: adds_put_out assms split: prod.split option.split)
    with Cons show ?case using adds_trans by fastforce
  qed (simp add: adds_same)
  from this [of "(s, 0)"] show ?thesis by (simp add: forwardToRoster_def)
qed

lemma genuine_recipient:
  assumes "recipient_fields u body flds opts h = Some out" and "genuine sender flds"
    and "\<forall>rw. rewrite opts = Some rw \<longrightarrow> dict_fields_only rw"
  shows "genuine sender out"
proof -
  have "genuine sender out1" if "(case rewrite opts of None \<Rightarrow> Some flds | Some rw \<Rightarrow> apply_rewrite rw (bubble_heap u) h flds) = Some out1" for out1
    using that assms(2,3) genuine_rewrite by (auto split: option.splits)
  with assms(1) show ?thesis by (auto simp: recipient_fields_def split: option.splits if_splits)
qed

lemma adds_fan_out:
  assumes "gmap_ok f" and "sender \<noteq> []"
    and "list_all (\<lambda>(k, v). keyAsInt k \<noteq> Some fieldCustomType \<and> keyAsInt k \<noteq> Some fieldCustomData) f"
    and "\<And>to out b. genuine sender out \<Longrightarrow> P (to, body, out, b, False)"
  shows "adds P s (fan_out ids now sender i nick c body f s)"
proof -
  obtain rw cc where rw: "buildRewrite now (qidmap (outbound s)) f = (rw, cc)" by fastforce
  obtain b s1 where b: "open_bubble now sender i c f (set_cache cc s) = (b, s1)" by fastforce
  let ?o = "\<lparr>rewrite = rw, bubble = b\<rparr>" and ?st = "snd (stampReactorIdentity f sender)"
  obtain s2 n where s2: "forwardToRoster ids now (EncodeToString sender) body ?st ?o s1 = (s2, n)" by fastforce
  have d: "\<forall>r. rewrite ?o = Some r \<longrightarrow> dict_fields_only r" using buildRewrite_dict_fields [of now "qidmap (outbound s)" f] rw by simp
  have "adds P s1 (fst (forwardToRoster ids now (EncodeToString sender) body ?st ?o s1))"
    using genuine_recipient [OF _ genuine_stamp [OF assms(1-3)] d] assms(4) by (intro adds_forward) blast
  then have "adds P s1 s2" using s2 by simp
  moreover have "letters s1 = letters s" using letters_frame(3) [of now sender i c f "set_cache cc s"] b by simp
  ultimately show ?thesis using rw b s2 by (simp add: fan_out_def Let_def adds_def)
qed

lemma adds_relay:
  assumes "gmap_ok (out_fields f)" and "sender \<noteq> []"
    and "list_all (\<lambda>(k, v). keyAsInt k \<noteq> Some fieldCustomType \<and> keyAsInt k \<noteq> Some fieldCustomData) (out_fields f)"
    and "\<And>to out b. genuine sender out \<Longrightarrow> P (to, forward_body nick c (drops f), out, b, False)"
    and "\<And>w. P (sender, w, [], None, False)"
  shows "adds P s (relay_message ids now sender i nick c f s)"
proof -
  obtain s1 where s1: "s1 = s \<or> (\<exists>w. s1 = send_text ids now sender w s)"
    and r: "relay_message ids now sender i nick c f s = s1 \<or>
      relay_message ids now sender i nick c f s = fan_out ids now sender i nick c (forward_body nick c (drops f)) (out_fields f) s1"
    by (rule relay_cases)
  have "adds P s s1" using s1 assms(5) by (auto simp: adds_same sends_put_out adds_put_out)
  moreover have "adds P s1 (fan_out ids now sender i nick c (forward_body nick c (drops f)) (out_fields f) s1)"
    using assms(1-4) by (intro adds_fan_out)
  ultimately show ?thesis using r adds_trans by metis
qed

lemma filtered_no_identity:
  assumes "gmap_ok fin" and "list_all (\<lambda>i. i \<noteq> fieldCustomType \<and> i \<noteq> fieldCustomData) (ForwardedFields c)"
  shows "gmap_ok (out_fields (filterAttachments sz fin c))"
    and "list_all (\<lambda>(k, v). keyAsInt k \<noteq> Some fieldCustomType \<and> keyAsInt k \<noteq> Some fieldCustomData) (out_fields (filterAttachments sz fin c))"
  unfolding filterAttachments_out [OF assms(1)]
  using assms by (auto simp: gmap_ok_Nil list_all_iff field_passes_def intro: wf_intros split: option.splits)

lemma adds_hook:
  assumes "\<And>to w. P (to, w, [], None, False)"
  shows "adds P s (run_hook ids now h s)"
proof -
  have "adds P s ((send_text ids now b w s)\<lparr>tasks := ts\<rparr>)" for b w ts
    using assms by (intro adds_cong [OF HOL.refl _ adds_put_out]) (auto simp: sends_put_out)
  then show ?thesis
    by (cases h) (auto simp: run_hook_def onJoin_def onAdminAdd_def Let_def adds_same split: option.split)
qed

lemma adds_command:
  assumes "\<And>to w. P (to, w, [], None, False)"
  shows "adds P s (handle_command ids net now sender ctext s)"
proof -
  obtain rep hooks d where d: "Dispatch now (EncodeToString sender) (Parse (uni (roster s)) ctext) (wire net (disp s)) = ((rep, hooks), d)"
    by (metis prod.exhaust)
  let ?s1 = "fold (run_hook ids now) hooks (s\<lparr>disp := d\<rparr>)"
  have "adds P s (s\<lparr>disp := d\<rparr>)" by (simp add: adds_same)
  then have 1: "adds P s ?s1" by (rule adds_trans) (intro adds_fold adds_hook assms)
  have "adds P ?s1 (if rep \<noteq> [] then send_text ids now sender rep ?s1 else ?s1)"
    using assms by (simp add: sends_put_out adds_put_out adds_same)
  with 1 have "adds P s (if rep \<noteq> [] then send_text ids now sender rep ?s1 else ?s1)" by (rule adds_trans)
  then show ?thesis using d unfolding handle_command_def by (simp only: Let_def prod.case)
qed

subsection \<open>The name in front of the text\<close>

lemma sender_nick_presence:
  assumes "length b = 16"
  shows "sender_nick (EncodeToString b) (set_roster (snd (Touch b n r)) s) = sender_nick (EncodeToString b) (set_roster r s)"
    and "sender_nick (EncodeToString b) (set_roster (snd (MarkMessage b n r)) s) = sender_nick (EncodeToString b) (set_roster r s)"
  using assms by (auto simp: sender_nick_def Get_def users_Touch users_MarkMessage upd_at_def map_of_gput Let_def split: option.split)

lemma set_roster_same [simp]: "set_roster (roster s) s = s" "set_roster r (set_roster r' s) = set_roster r s"
  by (simp_all add: set_roster_def)

lemma sender_nick_chars:
  assumes "svc_ok s"
  shows "list_all nick_char (sender_nick (EncodeToString b) s)"
proof -
  have "nicks_ok (users (roster s))" using assms disp_okD by (simp add: svc_ok_def)
  then have "nick_ok (Nickname u)" if "map_of (users (roster s)) h = Some u" for h u using nicks_okD that by blast
  moreover have "list_all nick_char (take 8 (EncodeToString b))"
  proof -
    have "\<forall>c \<in> set (EncodeToString b). nick_char c"
      using list_all_lower_hex_Encode [of b] by (auto simp: list_all_iff is_lower_hex_def nick_char_def)
    then show ?thesis using set_take_subset by (fastforce simp: list_all_iff)
  qed
  ultimately show ?thesis
    by (auto simp: sender_nick_def Get_def Let_def nick_ok_def nickRE_def split: option.split)
qed

lemma forward_body_prefix:
  assumes "c \<noteq> []"
  shows "prefix (''['' @ nick @ ''] '' @ c) (forward_body nick c notes)"
proof -
  have "prefix b (fold add_note ns b)" if "b \<noteq> []" for b ns
    using that by (induction ns arbitrary: b) (auto simp: add_note_def dest: append_prefixD)
  from this [of "''['' @ nick @ ''] '' @ c"] assms show ?thesis by (simp add: forward_body_def)
qed

text \<open>
  What is promised of a letter put out while handling a message of \<open>sender\<close> with text \<open>c\<close>, of which the attachment policy
  reports the oversized fields in \<open>notes\<close>: without text the body is these notes and nothing else.
\<close>

definition as_sender :: "bytes \<Rightarrow> string \<Rightarrow> bool \<Rightarrow> string \<Rightarrow> string list \<Rightarrow> letter \<Rightarrow> bool" where
  "as_sender sender nick command c notes l = (case l of (to, body, flds, b, held) \<Rightarrow> genuine sender flds \<and> \<not> held \<and>
     (to \<noteq> sender \<and> \<not> command \<longrightarrow>
       (if c = [] then body = fold add_note notes [] else prefix (''['' @ nick @ ''] '' @ c) body)))"

lemma adds_chat:
  assumes "gmap_ok (MsgFields msg)" and "length (SourceHash msg) = 16"
    and "list_all (\<lambda>i. i \<noteq> fieldCustomType \<and> i \<noteq> fieldCustomData) (ForwardedFields (scfg s))"
    and "nick = sender_nick (EncodeToString (SourceHash msg)) s"
  shows "adds (as_sender (SourceHash msg) nick False (sanitizeForward c) (drops (filterAttachments sz (MsgFields msg) (scfg s)))) s
    (handle_chat ids sz now msg c s)"
proof (cases rule: chat_cases [of ids sz now msg c s])
  case (notice w)
  then show ?thesis by (simp add: sends_put_out adds_put_out as_sender_def)
next
  case accepted
  let ?b = "SourceHash msg" and ?f = "filterAttachments sz (MsgFields msg) (scfg s)"
  let ?s1 = "set_roster (snd (MarkMessage ?b now (roster s))) s"
  have nick: "sender_nick (EncodeToString ?b) ?s1 = nick" using sender_nick_presence(2) [OF assms(2), of now "roster s" s] assms(4) by simp
  have "adds (as_sender ?b nick False (sanitizeForward c) (drops ?f)) ?s1 (relay_message ids now ?b (MessageID msg) nick (sanitizeForward c) ?f ?s1)"
    using filtered_no_identity [OF assms(1,3), of sz] assms(2) forward_body_prefix [of "sanitizeForward c" nick "drops ?f"]
    by (intro adds_relay) (auto simp: as_sender_def forward_body_def)
  then show ?thesis using accepted(4) nick by (simp add: Let_def adds_def)
qed

text \<open>
  C3: Nobody speaks in another's name. Whatever a member writes and whatever fields it attaches, every message the
  service puts out because of it carries no identity field but the sender's own: a reaction names the sender, and a field the sender
  forged is gone, also after each recipient's copy was rewritten. To anybody but the sender, a chat message that has a text goes out with a
  text that starts with the sender's own name in brackets, which contains neither bracket nor blank, and then what the sender wrote. A message
  without a text (a picture, a reaction) carries no name: its body is the service's own notes on oversized fields,
  such as \<^verbatim>\<open>[image not forwarded: ...]\<close>, or empty, and nothing the sender wrote. The configuration has not put the
  two identity fields on its list of forwarded fields, which \<open>normalize\<close> checks.
\<close>
theorem relayed_as_its_sender:
  assumes "svc_ok s" and "gmap_ok (MsgFields msg)" and "length (SourceHash msg) = 16"
    and "list_all (\<lambda>i. i \<noteq> fieldCustomType \<and> i \<noteq> fieldCustomData) (ForwardedFields (scfg s))"
    and "t = onLXMFReceived ids sz net now msg s" and "c = TrimRight (Content msg) [CHR 0x0D, CHR 0x0A]"
    and "nick = sender_nick (EncodeToString (SourceHash msg)) s"
  shows "\<exists>new. letters t = letters s @ new \<and> list_all (as_sender (SourceHash msg) nick (IsCommand c) (sanitizeForward c)
      (drops (filterAttachments sz (MsgFields msg) (scfg s)))) new \<and>
    list_all nick_char nick"
proof -
  let ?P = "as_sender (SourceHash msg) nick (IsCommand c) (sanitizeForward c) (drops (filterAttachments sz (MsgFields msg) (scfg s)))"
  obtain dup s1 where d: "is_duplicate now msg s = (dup, s1)" by fastforce
  have s1: "letters s1 = letters s" "disp s1 = disp s" using duplicate_letters [of now msg s] duplicate_frame(1) [of now msg s] d by simp_all
  let ?s2 = "set_roster (snd (Touch (SourceHash msg) now (roster s1))) s1"
  have "sender_nick (EncodeToString (SourceHash msg)) s1 = nick" using s1(2) assms(7) by (simp add: sender_nick_def)
  then have nick: "sender_nick (EncodeToString (SourceHash msg)) ?s2 = nick"
    using sender_nick_presence(1) [OF assms(3), of now "roster s1" s1] by simp
  have "adds ?P ?s2 (handle_command ids net now (SourceHash msg) c ?s2)" if "IsCommand c"
    using that by (intro adds_command) (simp add: as_sender_def)
  moreover have "adds ?P ?s2 (handle_chat ids sz now msg c ?s2)" if "\<not> IsCommand c"
    using adds_chat [OF assms(2,3), of ?s2 nick c sz ids now] assms(4) nick s1(2) that by simp
  ultimately have "adds ?P s t"
    using assms(5,6) d s1(1) by (simp add: onLXMFReceived_def Let_def adds_def)
  then show ?thesis using sender_nick_chars [OF assms(1)] assms(7) by (auto simp: adds_def)
qed

definition forgedReaction :: Message where
  "forgedReaction = \<lparr>SourceHash = hash_bytes alice, Content = ''hi'',
     MsgFields = [(KInt I_int8 64, VMap []), (KInt I_int 252, VBytes (hash_bytes bob))], DedupKey = [], MessageID = ''m''\<rparr>"

theorem relayed_as_its_sender_witness:
  "list_all (as_sender (hash_bytes alice) (sender_nick alice demoSvc) False ''hi''
       (drops (filterAttachments (\<lambda>_. Some 1) (MsgFields forgedReaction) (scfg demoSvc))))
     (letters (onLXMFReceived (\<lambda>n. ''id'') (\<lambda>_. Some 1) quietNet 9 forgedReaction demoSvc))"
proof -
  have ok: "svc_ok demoSvc" using disp_ok_demo by (simp add: svc_ok_def demoSvc_def)
  have b: "length (SourceHash forgedReaction) = 16" "EncodeToString (SourceHash forgedReaction) = alice" "SourceHash forgedReaction = hash_bytes alice"
    using hash_bytes [OF demo_hashes(5)] by (simp_all add: forgedReaction_def)
  have e: "EncodeToString (hash_bytes alice) = alice" using hash_bytes(2) [OF demo_hashes(5)] .
  have f: "gmap_ok (MsgFields forgedReaction)" by (simp add: forgedReaction_def gmap_ok_def)
  have l: "list_all (\<lambda>i. i \<noteq> fieldCustomType \<and> i \<noteq> fieldCustomData) (ForwardedFields (scfg demoSvc))"
    by (simp add: defaults_def field_numbers)
  have c: "TrimRight (Content forgedReaction) [CHR 0x0D, CHR 0x0A] = ''hi''" by (simp add: forgedReaction_def TrimRight_def)
  have "sanitizeForward ''hi'' = ''hi''" "\<not> IsCommand ''hi''"
    by (simp_all add: sanitizeForward_def IsCommand_def text_eval)
  with relayed_as_its_sender [OF ok f b(1) l HOL.refl c [symmetric] HOL.refl, of "\<lambda>n. ''id''" "\<lambda>_. Some 1" quietNet 9]
  show ?thesis by (auto simp: b(3) e)
qed

end
