(* ===== verification/Delivered.thy ===== *)
theory Delivered
  imports Attribution
begin

text \<open>
  An accepted chat message from the inbox to the queue: what every other member is sent, what its author is told, and
  what is logged.
\<close>

subsection \<open>What marking the sender present leaves alone\<close>

lemma active_gput:
  "map_of m k = Some u \<Longrightarrow> Paused v = Paused u \<Longrightarrow>
   map fst (filter (\<lambda>(h, u). \<not> Paused u) (gput k v m)) = map fst (filter (\<lambda>(h, u). \<not> Paused u) m)"
  by (induction m) (auto split: if_splits)

lemma active_upd_at:
  assumes "\<And>u. Paused (f u) = Paused u"
  shows "map fst (filter (\<lambda>(h, u). \<not> Paused u) (upd_at k f m)) = map fst (filter (\<lambda>(h, u). \<not> Paused u) m)"
  using assms by (cases "map_of m k") (simp_all add: upd_at_def active_gput)

lemma active_presence [simp]:
  "ActiveHashes (snd (Touch b n r)) = ActiveHashes r" "ActiveHashes (snd (MarkMessage b n r)) = ActiveHashes r"
  by (simp_all add: ActiveHashes_def users_Touch users_MarkMessage active_upd_at)

subsection \<open>From the inbox to the fan-out\<close>

lemma chat_accepted:
  assumes "refusal s msg c = None"
  shows "handle_chat ids sz now msg c s =
    (let s1 = set_roster (snd (MarkMessage (SourceHash msg) now (roster s))) s in
     relay_message ids now (SourceHash msg) (MessageID msg) (sender_nick (EncodeToString (SourceHash msg)) s1)
       (sanitizeForward c) (filterAttachments sz (MsgFields msg) (scfg s1)) s1)"
proof -
  have "\<not> (MaxInboundChars (scfg s) > 0 \<and> int (RuneCount c) > MaxInboundChars (scfg s))" "Has (SourceHash msg) (roster s)"
    "\<not> IsPaused (EncodeToString (SourceHash msg)) (roster s)"
    using assms by (simp_all add: refusal_def split: if_splits)
  then show ?thesis by (auto simp: handle_chat_def Let_def)
qed

lemma relay_letters:
  assumes "body = forward_body nick c (drops f)" and "body \<noteq> [] \<or> out_fields f \<noteq> []" and "room 1 s"
  shows "\<exists>s1. relay_message ids now sender i nick c f s = fan_out ids now sender i nick c body (out_fields f) s1 \<and>
    disp s1 = disp s \<and> hist s1 = hist s \<and> qidmap (outbound s1) = qidmap (outbound s) \<and>
    (if rejected f = [] then letters s1 = letters s else \<exists>w. letters s1 = letters s @ [(sender, w, [], None, False)])"
proof -
  let ?s1 = "if rejected f \<noteq> [] then replyUnsupportedFields ids now sender (rejected f) (body = [] \<and> out_fields f = []) s else s"
  obtain w where w: "replyUnsupportedFields ids now sender (rejected f) (body = [] \<and> out_fields f = []) s = send_text ids now sender w s"
    using notices(1) by blast
  have "relay_message ids now sender i nick c f s = fan_out ids now sender i nick c body (out_fields f) ?s1"
    using assms(1,2) by (auto simp: relay_message_def Let_def)
  with w letters_sends(1) [OF assms(3), of ids now sender w] show ?thesis
    by (intro exI [of _ ?s1]) simp
qed

lemma fan_out_letters:
  assumes "wf_roster (roster s)" and "room (length (ActiveHashes (roster s))) s"
    and "t = fan_out ids now sender i nick c body f s"
  shows "\<exists>ls. letters t = letters s @ ls \<and> distinct (map fst ls) \<and>
    (\<forall>(to, b, fs, bub, held) \<in> set ls. b = body \<and> \<not> held \<and> EncodeToString to \<in> set (ActiveHashes (roster s)) - {EncodeToString sender}) \<and>
    (fst (buildRewrite now (qidmap (outbound s)) f) = None \<and> body \<noteq> [] \<longrightarrow>
      (\<forall>h \<in> set (ActiveHashes (roster s)) - {EncodeToString sender}. \<exists>l \<in> set ls. EncodeToString (fst l) = h)) \<and>
    hist t = (if ls \<noteq> [] \<and> c \<noteq> [] then
      snd (Append \<lparr>EAt = now, SenderHash = EncodeToString sender, SenderNick = nick, EContent = c\<rparr> (hist s)) else hist s)"
proof -
  obtain rw cc where rw: "buildRewrite now (qidmap (outbound s)) f = (rw, cc)" by fastforce
  obtain b s1 where b: "open_bubble now sender i c f (set_cache cc s) = (b, s1)" by fastforce
  let ?o = "\<lparr>rewrite = rw, bubble = b\<rparr>" and ?st = "snd (stampReactorIdentity f sender)" and ?sh = "EncodeToString sender"
  obtain s2 n where s2: "forwardToRoster ids now ?sh body ?st ?o s1 = (s2, n)" by fastforce
  have s1: "disp s1 = disp s" "letters s1 = letters s" "hist s1 = hist s"
    using open_frame [of now sender i c f "set_cache cc s"] letters_frame(3) [of now sender i c f "set_cache cc s"] b by simp_all
  have r1: "room (length (ActiveHashes (roster s1))) s1" "wf_roster (roster s1)" using assms(1,2) s1 by (simp_all add: room_def)
  from forward_exactly_once [OF r1(2,1) s2] obtain ls where ls: "letters s2 = letters s1 @ ls" "n = length ls" "distinct (map fst ls)"
    "\<forall>h. (\<exists>l \<in> set ls. EncodeToString (fst l) = h) \<longleftrightarrow>
      (\<exists>u. map_of (users (roster s1)) h = Some u \<and> \<not> Paused u) \<and> h \<noteq> ?sh \<and> recipient_fields s1 body ?st ?o h \<noteq> None"
    "\<forall>(to, b', fs, bub, ae) \<in> set ls. b' = body \<and> bub = bubble ?o \<and> \<not> ae \<and>
      recipient_fields s1 body ?st ?o (EncodeToString to) = Some fs"
    "rewrite ?o = None \<and> body \<noteq> [] \<longrightarrow> (\<forall>h. recipient_fields s1 body ?st ?o h \<noteq> None)" by blast
  have t: "t = (if n > 0 \<and> c \<noteq> [] then log_message now ?sh nick c s2 else s2)"
    using assms(3) rw b s2 by (simp add: fan_out_def Let_def)
  have act: "h \<in> set (ActiveHashes (roster s)) \<longleftrightarrow> (\<exists>u. map_of (users (roster s1)) h = Some u \<and> \<not> Paused u)" for h
    using active_member(1) [OF assms(1)] s1(1) by simp
  have mem: "EncodeToString (fst l) \<in> set (ActiveHashes (roster s)) - {?sh}" if "l \<in> set ls" for l
    using ls(4) that act by blast
  have each: "\<forall>(to, b, fs, bub, held) \<in> set ls. b = body \<and> \<not> held \<and> EncodeToString to \<in> set (ActiveHashes (roster s)) - {?sh}"
    using ls(5) mem by fastforce
  have all: "rw = None \<and> body \<noteq> [] \<longrightarrow> (\<forall>h \<in> set (ActiveHashes (roster s)) - {?sh}. \<exists>l \<in> set ls. EncodeToString (fst l) = h)"
    using ls(4,6) act by auto
  have "letters t = letters s @ ls" using t ls(1) s1(2) by simp
  moreover have "hist t = (if ls \<noteq> [] \<and> c \<noteq> [] then
      snd (Append \<lparr>EAt = now, SenderHash = ?sh, SenderNick = nick, EContent = c\<rparr> (hist s)) else hist s)"
    using t ls(2) forward_frame [of ids now ?sh body ?st ?o s1] s2 s1(3) by (auto simp: log_message_def)
  ultimately show ?thesis using ls(3) each all rw by (intro exI [of _ ls]) simp
qed

subsection \<open>An accepted message\<close>

text \<open>
  C2: Exactly once to everybody it is for. A chat message the service accepts (no duplicate, its sender neither banned nor a
  stranger nor paused, its text not too long) of which the attachment policy leaves something, if the queue has room for a message to each
  active member and a notice (a full queue drops messages): the queue gets one
  notice for the sender exactly if the policy refused an attachment, and then messages to active members other
  than the sender, no two to the same, all with the composed text, which goes to every such member unless the message refers to an
  earlier one or its composed text is empty. If the message has a text of its own and anybody was sent it, that text is
  logged once, under the sender's name; a reaction or a picture without text is not logged. Nobody else's record and no
  setting changes. (That the sender is told of a refused attachment also with \<^verbatim>\<open>forward_attachments = false\<close> contradicts the comment
  in \<^verbatim>\<open>config.go\<close>, line 250, which says the fields are dropped silently.)
\<close>
theorem message_reaches_the_room:
  assumes "wf_roster (roster s)" and "length (SourceHash msg) = 16" and "c = TrimRight (Content msg) [CHR 0x0D, CHR 0x0A]"
    and "\<not> fst (is_duplicate now msg s)" and "\<not> IsBanned (SourceHash msg) (roster s)" and "\<not> IsCommand c" and "refusal s msg c = None"
    and "f = filterAttachments sz (MsgFields msg) (scfg s)" and "sender = EncodeToString (SourceHash msg)" and "nick = sender_nick sender s"
    and "body = forward_body nick (sanitizeForward c) (drops f)" and "body \<noteq> [] \<or> out_fields f \<noteq> []"
    and "room (Suc (length (ActiveHashes (roster s)))) s" and "t = onLXMFReceived ids sz net now msg s"
    and "others = {h. \<exists>u. map_of (users (roster s)) h = Some u \<and> \<not> Paused u} - {sender}"
  shows "\<exists>notice ls. letters t = letters s @ notice @ ls \<and>
    (if rejected f = [] then notice = [] else \<exists>w. notice = [(SourceHash msg, w, [], None, False)]) \<and>
    distinct (map fst ls) \<and>
    (\<forall>(to, b, fs, bub, held) \<in> set ls. b = body \<and> \<not> held \<and> EncodeToString to \<in> others) \<and>
    (fst (buildRewrite now (qidmap (outbound s)) (out_fields f)) = None \<and> body \<noteq> [] \<longrightarrow>
      (\<forall>h \<in> others. \<exists>l \<in> set ls. EncodeToString (fst l) = h)) \<and>
    hist t = (if ls \<noteq> [] \<and> sanitizeForward c \<noteq> []
      then snd (Append \<lparr>EAt = now, SenderHash = sender, SenderNick = nick, EContent = sanitizeForward c\<rparr> (hist s)) else hist s) \<and>
    disp t = (disp s)\<lparr>Rost := snd (MarkMessage (SourceHash msg) now (snd (Touch (SourceHash msg) now (roster s))))\<rparr>"
proof -
  let ?b = "SourceHash msg" and ?c = "sanitizeForward c"
  obtain s1 where d: "is_duplicate now msg s = (False, s1)" using assms(4) by (cases "is_duplicate now msg s") auto
  have s1: "disp s1 = disp s" "letters s1 = letters s" "hist s1 = hist s" "outbound s1 = outbound s"
    using duplicate_frame [of now msg s] duplicate_letters [of now msg s] outbound_duplicate [of now msg s] d by simp_all
  let ?s2 = "set_roster (snd (Touch ?b now (roster s))) s1"
  let ?s3 = "set_roster (snd (MarkMessage ?b now (roster ?s2))) ?s2"
  have r2: "refusal ?s2 msg c = None"
    using assms(7) refusal_cong [of ?s2 s msg c] s1(1) Touch_reads [OF assms(2), of now "roster s"] by simp
  have "sender_nick sender s1 = sender_nick sender s" using s1(1) by (simp add: sender_nick_def)
  then have n3: "sender_nick sender ?s3 = nick"
    using sender_nick_presence(2) [OF assms(2), of now "roster ?s2" ?s2] sender_nick_presence(1) [OF assms(2), of now "roster s" s1]
      s1(1) assms(9,10) set_roster_same(1) [of s1] by simp
  have "t = handle_chat ids sz now msg c ?s2" using assms(3,5,6,14) d s1(1) by (simp add: onLXMFReceived_def Let_def)
  then have t: "t = relay_message ids now ?b (MessageID msg) nick ?c f ?s3"
    using chat_accepted [OF r2, of ids sz now] n3 assms(8,9) s1(1) by (simp add: Let_def)
  have l3: "letters ?s3 = letters s" "hist ?s3 = hist s" "qidmap (outbound ?s3) = qidmap (outbound s)" using s1 by simp_all
  have "room 1 ?s3" using assms(13) l3(1) by (simp add: room_def)
  from relay_letters [OF assms(11,12) this] obtain s4 where s4: "t = fan_out ids now ?b (MessageID msg) nick ?c body (out_fields f) s4"
    "disp s4 = disp ?s3" "hist s4 = hist ?s3" "qidmap (outbound s4) = qidmap (outbound ?s3)"
    and pre: "if rejected f = [] then letters s4 = letters ?s3 else \<exists>w. letters s4 = letters ?s3 @ [(?b, w, [], None, False)]"
    using t by metis
  obtain notice where notice: "letters s4 = letters s @ notice"
    "if rejected f = [] then notice = [] else \<exists>w. notice = [(?b, w, [], None, False)]"
    using pre l3(1) by (metis append_Nil2)
  have act: "ActiveHashes (roster s4) = ActiveHashes (roster s)" using s4(2) by simp
  have wf: "wf_roster (roster s4)" using assms(1) s4(2) by (auto intro: wf_intros)
  have "length notice \<le> 1" using notice(2) by (auto split: if_splits)
  then have room: "room (length (ActiveHashes (roster s4))) s4" using assms(13) notice(1) act by (simp add: room_def)
  have oth: "set (ActiveHashes (roster s)) - {sender} = others"
    using active_member(1) [OF assms(1)] assms(15) by auto
  from fan_out_letters [OF wf room s4(1)] act oth s4(3,4) l3 assms(9) obtain ls where ls: "letters t = letters s4 @ ls" "distinct (map fst ls)"
    "\<forall>(to, b, fs, bub, held) \<in> set ls. b = body \<and> \<not> held \<and> EncodeToString to \<in> others"
    "fst (buildRewrite now (qidmap (outbound s)) (out_fields f)) = None \<and> body \<noteq> [] \<longrightarrow> (\<forall>h \<in> others. \<exists>l \<in> set ls. EncodeToString (fst l) = h)"
    "hist t = (if ls \<noteq> [] \<and> ?c \<noteq> [] then snd (Append \<lparr>EAt = now, SenderHash = sender, SenderNick = nick, EContent = ?c\<rparr> (hist s)) else hist s)"
    by auto
  have "disp t = (disp s)\<lparr>Rost := snd (MarkMessage ?b now (snd (Touch ?b now (roster s))))\<rparr>"
    using fan_out_frame [of ids now ?b "MessageID msg" nick ?c body "out_fields f" s4] s4(1,2) s1(1) by simp
  with ls notice show ?thesis by (intro exI [of _ notice] exI [of _ ls] conjI) simp_all
qed

definition helloMsg :: Message where
  "helloMsg = \<lparr>SourceHash = hash_bytes alice, Content = ''hi'', MsgFields = [], DedupKey = [], MessageID = ''m''\<rparr>"

theorem message_reaches_the_room_witness:
  "bob \<in> (EncodeToString \<circ> fst) ` set (letters (onLXMFReceived (\<lambda>n. ''id'') (\<lambda>_. Some 1) quietNet 9 helloMsg demoSvc)) \<and>
   length (entries (hist (onLXMFReceived (\<lambda>n. ''id'') (\<lambda>_. Some 1) quietNet 9 helloMsg demoSvc))) = 1"
proof -
  have b: "length (SourceHash helloMsg) = 16" "EncodeToString (SourceHash helloMsg) = alice"
    using hash_bytes [OF demo_hashes(5)] by (simp_all add: helloMsg_def)
  have c: "TrimRight (Content helloMsg) [CHR 0x0D, CHR 0x0A] = ''hi''" by (simp add: helloMsg_def TrimRight_def)
  have tx: "\<not> IsCommand ''hi''" "sanitizeForward ''hi'' = ''hi''" "RuneCount ''hi'' = 2"
    by (simp_all add: sanitizeForward_def IsCommand_def text_eval RuneCount_def)
  have dup: "\<not> fst (is_duplicate 9 helloMsg demoSvc)" by (simp add: is_duplicate_def helloMsg_def)
  have ban: "\<not> IsBanned (SourceHash helloMsg) (roster demoSvc)" by (simp add: IsBanned_def normalizeHash_def demo_def)
  have ref: "refusal demoSvc helloMsg ''hi'' = None"
    using demo_lookup(1) b by (simp add: refusal_def Has_def normalizeHash_def IsPaused_def demo_def tx defaults_def zeroUser_def)
  have f: "filterAttachments (\<lambda>_. Some 1) (MsgFields helloMsg) (scfg demoSvc) = \<lparr>out_fields = [], drops = [], rejected = []\<rparr>"
    by (simp add: helloMsg_def filterAttachments_def)
  have body: "forward_body (sender_nick alice demoSvc) (sanitizeForward ''hi'') (drops \<lparr>out_fields = [], drops = [], rejected = []\<rparr>) \<noteq> []"
    by (simp add: forward_body_def tx)
  have room: "room (Suc (length (ActiveHashes (roster demoSvc)))) demoSvc" by (simp add: room_def maxPendingMessages_def)
  have wf: "wf_roster (roster demoSvc)" using wf_demo by simp
  have rw: "fst (buildRewrite 9 (qidmap (outbound demoSvc)) []) = None"
    by (simp add: demoSvc_def newOutboundQueue_def buildRewrite_def)
  have bob: "bob \<in> {h. \<exists>u. map_of (users (roster demoSvc)) h = Some u \<and> \<not> Paused u} - {alice}"
    using demo_lookup(2) demo_hashes(7) by (simp add: zeroUser_def)
  let ?t = "onLXMFReceived (\<lambda>n. ''id'') (\<lambda>_. Some 1) quietNet 9 helloMsg demoSvc"
  let ?e = "\<lparr>EAt = 9, SenderHash = alice, SenderNick = sender_nick alice demoSvc, EContent = sanitizeForward ''hi''\<rparr>"
  from message_reaches_the_room [OF wf b(1) c [symmetric] dup ban tx(1) ref f [symmetric] b(2) [symmetric] HOL.refl HOL.refl
      disjI1 [OF body] room HOL.refl HOL.refl, of "\<lambda>n. ''id''" quietNet]
  obtain ls where ls: "letters ?t = ls"
    "fst (buildRewrite 9 (qidmap (outbound demoSvc)) []) = None \<longrightarrow>
      (\<forall>h \<in> {h. \<exists>u. map_of (users (roster demoSvc)) h = Some u \<and> \<not> Paused u} - {alice}. \<exists>l \<in> set ls. EncodeToString (fst l) = h)"
    "hist ?t = (if ls \<noteq> [] \<and> sanitizeForward ''hi'' \<noteq> [] then snd (Append ?e (hist demoSvc)) else hist demoSvc)"
    using body by auto
  with rw bob have "\<exists>l \<in> set ls. EncodeToString (fst l) = bob" by blast
  then have "bob \<in> (EncodeToString \<circ> fst) ` set ls" "ls \<noteq> []" by force+
  moreover have "length (entries (hist ?t)) = 1" using ls(3) \<open>ls \<noteq> []\<close> by (simp add: tx demoSvc_def keep_last_def)
  ultimately show ?thesis using ls(1) by simp
qed

end
