(* ===== verification/CatchUp.thy ===== *)
theory CatchUp
  imports RelayProps
begin

text \<open>
  The catch-up of a joiner, from the task a join started to the wire: what it enqueues and in which order, when it
  enqueues nothing, and that the pins reach the joiner after every message enqueued for it before them.
\<close>

subsection \<open>A message keeps its identity in every run of the queue\<close>

definition key_is :: "nat \<times> string \<times> bytes \<times> bool \<Rightarrow> Run \<Rightarrow> bool" where
  "key_is K s \<longleftrightarrow> fst K < next_ref (rq s) \<and> (\<forall>k \<in> mkey ` set (pending (rq s)). fst k = fst K \<longrightarrow> k = K) \<and>
     (\<forall>a \<in> set (starts s). mref a = fst K \<longrightarrow> mkey a = K)"

lemma starts_step:
  assumes "oq_core s" and "oq_step s t" and "a \<in> set (starts t)"
  shows "a \<in> set (starts s) \<or> mkey a \<in> mkey ` set (pending (rq s))"
  using assms(2)
proof (cases rule: oq_step_cases)
  case (start la now m q m' q')
  from start(2) have "m \<in> set (pending (reap now (rq s)))" by (cases rule: pickDue_cases) auto
  then have "mkey m' \<in> mkey ` set (pending (rq s))"
    using begin_keys(3) [OF start(4)] reap_keys [OF assms(1), of now] by auto
  with start(1) assms(3) show ?thesis by auto
qed (use assms(3) in simp_all)

lemma key_is_step:
  assumes "oq_core s" and "key_is K s" and "oq_step s t"
  shows "key_is K t"
proof -
  obtain new where n: "mkey ` set (pending (rq t)) \<subseteq> insert new (mkey ` set (pending (rq s)))" "next_ref (rq s) \<le> fst new"
      "next_ref (rq s) \<le> next_ref (rq t)"
    using oq_step_keys [OF assms(1,3)] by blast
  have f: "fst (mkey a) = mref a" for a by (simp add: mkey_def)
  have old: "k = K" if "k \<in> mkey ` set (pending (rq s))" "fst k = fst K" for k
    using assms(2) that by (auto simp: key_is_def)
  have lt: "fst K < next_ref (rq s)" using assms(2) by (simp add: key_is_def)
  have p: "k = K" if "k \<in> mkey ` set (pending (rq t))" "fst k = fst K" for k
  proof (rule old [OF _ that(2)])
    have "k \<noteq> new" using n(2) lt that(2) by auto
    with subsetD [OF n(1) that(1)] show "k \<in> mkey ` set (pending (rq s))" by (simp only: insert_iff HOL.simp_thms)
  qed
  have q: "mkey a = K" if "a \<in> set (starts t)" "mref a = fst K" for a
    using starts_step [OF assms(1,3) that(1)]
  proof
    assume "mkey a \<in> mkey ` set (pending (rq s))"
    then show ?thesis using that(2) f by (intro old) simp_all
  qed (use assms(2) that(2) in \<open>simp add: key_is_def\<close>)
  show ?thesis unfolding key_is_def
  proof (intro conjI ballI impI)
    show "fst K < next_ref (rq t)" using lt n(3) by (rule less_le_trans)
  qed (fact p q)+
qed

text \<open>
  So once the message with identity \<open>K\<close>, held behind everything earlier, has been handed to a worker, nothing earlier
  for its recipient is in the queue.
\<close>

lemma held_goes_last:
  assumes "oq_init s0" and "reaches oq_step s0 s" and "reaches oq_step s t"
    and "m \<in> set (pending (rq s))" and "AfterEarlier m" and "\<forall>a \<in> set (starts s). mref a \<noteq> mref m"
    and "a \<in> set (starts t)" and "mref a = mref m" and "b \<in> set (pending (rq t))" and "Recipient b = Recipient m"
  shows "mref m \<le> mref b"
proof -
  have c: "oq_core s" using oq_sys.inv_reachable [OF assms(1,2)] .
  then have d: "distinct (map mref (pending (rq s)))" "\<forall>x \<in> set (pending (rq s)). mref x < next_ref (rq s)"
    using oq_core_mrefs by (auto simp: oq_core_def keys_ok_def)
  have "key_is (mkey m) s"
    unfolding key_is_def using assms(4,6) d distinct_mref_eq [OF d(1)] by (auto simp: mkey_def)
  from oq_sys.inv_from [where P = "key_is (mkey m)", OF key_is_step c this assms(3)] have "key_is (mkey m) t" .
  then have k: "mkey a = mkey m" using assms(7,8) by (simp add: key_is_def mkey_def)
  have "held_ok t" using held_ok_reachable [OF assms(1) reaches_trans [OF assms(3,2)]] .
  then have "clear_before (rq t) a" using assms(5,7) k by (simp add: held_ok_def mkey_def)
  then show ?thesis using assms(9,10) k by (force simp: clear_before_def mkey_def)
qed

subsection \<open>What a catch-up enqueues\<close>

definition replay_cutoff :: "Config \<Rightarrow> time \<Rightarrow> time" where
  "replay_cutoff c at = (if MaxAge (Replay c) > 0 then at - MaxAge (Replay c) else 0)"

definition replayed :: "Service \<Rightarrow> time \<Rightarrow> Entry list" where
  "replayed s at = (if Count (Replay (cfg s)) > 0 then SinceOldest (replay_cutoff (cfg s) at) (hist s) else [])"

lemma sends_limit [simp]:
  "replayLimit (send_last ids now j w s) = replayLimit s"
  "replayLimit (fold (\<lambda>e. send_text ids now j (g e)) es s) = replayLimit s"
  by (simp add: sends_put_out) (induction es arbitrary: s; simp)

lemma letters_texts:
  assumes "room (length es) s"
  shows "letters (fold (\<lambda>e. send_text ids now j (g e)) es s) = letters s @ map (\<lambda>e. (j, g e, [], None, False)) es"
  using assms
proof (induction es arbitrary: s)
  case (Cons e es)
  have r: "room 1 s" using Cons.prems by (simp add: room_def)
  then have "room (length es) (send_text ids now j (g e) s)" using Cons.prems by (simp add: room_def letters_sends)
  from Cons.IH [OF this] show ?case by (simp add: letters_sends(1) [OF r])
qed simp

lemma catchup_cases:
  assumes "t = sendJoinCatchup ids j at s"
  obtains (silent) "t = s" "replayed s at = []" "joiner_pins at s = []"
  | (refused) l where "t = s\<lparr>replayLimit := l\<rparr>" "\<not> fst (allow (EncodeToString j) at (replayLimit s))"
  | (granted) l s2 where "allow (EncodeToString j) at (replayLimit s) = (True, l)"
      "s2 = fold (\<lambda>e. send_text ids at j (replay_body at e)) (replayed s at) (s\<lparr>replayLimit := l\<rparr>)"
      "t = (if joiner_pins at s = [] then s2 else send_last ids at j (sanitizeForward (joiner_pins at s)) s2)"
proof (cases "Count (Replay (cfg s)) \<le> 0 \<and> joiner_pins at s = []")
  case True
  then have "t = s" "replayed s at = []" "joiner_pins at s = []"
    using assms by (simp_all add: sendJoinCatchup_def replayed_def)
  then show thesis by (rule that(1))
next
  case False
  show thesis
  proof (cases "allow (EncodeToString j) at (replayLimit s)")
    case (Pair b l)
    show thesis
    proof (cases b)
      case True
      show thesis
      proof (rule that(3) [OF _ HOL.refl])
        show "allow (EncodeToString j) at (replayLimit s) = (True, l)" using Pair True by simp
        show "t = (if joiner_pins at s = [] then fold (\<lambda>e. send_text ids at j (replay_body at e)) (replayed s at) (s\<lparr>replayLimit := l\<rparr>)
            else send_last ids at j (sanitizeForward (joiner_pins at s))
              (fold (\<lambda>e. send_text ids at j (replay_body at e)) (replayed s at) (s\<lparr>replayLimit := l\<rparr>)))"
          using assms Pair True False
          by (simp add: sendJoinCatchup_def Let_def replayed_def replay_cutoff_def SinceOldest_def)
      qed
    next
      case b: False
      show thesis
        by (rule that(2) [of l]) (use assms Pair b False in \<open>simp_all add: sendJoinCatchup_def Let_def\<close>)
    qed
  qed
qed

lemma allow_recent:
  assumes "map_of l k = Some t0" and "now - t0 < replayCooldown"
  shows "\<not> fst (allow k now l)"
proof -
  have lt: "time_sub now t < replayCooldown \<longleftrightarrow> now - t < replayCooldown" for t
    using cooldown_range by (intro time_sub_window) auto
  have gt: "time_sub now t > replayCooldown \<longleftrightarrow> now - t > replayCooldown" for t
    using cooldown_range time_sub_greater_iff [of replayCooldown now] by (simp add: duration_defs)
  have "map_of (filter (\<lambda>(k, t). \<not> time_sub now t > replayCooldown) l) k = Some t0"
    using assms by (induction l) (auto simp: gt split: if_splits)
  then show ?thesis using assms(2) by (simp add: allow_def Let_def lt)
qed

lemma allow_stamps: "allow k now l = (True, l') \<Longrightarrow> map_of l' k = Some now"
  by (auto simp: allow_def Let_def map_of_gput split: if_splits)

lemma send_last_message:
  assumes "room 1 s"
  shows "\<exists>m. pending (outbound (send_last ids now to body s)) = pending (outbound s) @ [m] \<and> mref m = next_ref (outbound s) \<and>
    Recipient m = to \<and> AfterEarlier m"
  using assms by (simp add: room_def letters_def sends_put_out put_out_def enqueue_def)

lemma replay_advances: "advances ids s (fold (\<lambda>e. send_text ids now j (g e)) es (s\<lparr>replayLimit := l\<rparr>))"
  by (rule advances_trans [OF advances_same [of "s\<lparr>replayLimit := l\<rparr>"] advances_fold]) (simp_all add: advances_sends)

subsection \<open>The limiter in the running service\<close>

text \<open>Nothing but a catch-up touches the limiter.\<close>

lemma limit_parts [simp]:
  "replayLimit (send_bubble ids now to body flds b s) = replayLimit s" "replayLimit (set_cache co s) = replayLimit s"
  "replayLimit (set_roster r s) = replayLimit s" "replayLimit (snd (open_bubble now sb i c f s)) = replayLimit s"
  "replayLimit (snd (is_duplicate now msg s)) = replayLimit s" "replayLimit (log_message now h nick c s) = replayLimit s"
  by (simp_all add: sends_put_out set_cache_def set_roster_def open_bubble_def newBubbleForForward_def NewBubble_def
      is_duplicate_def log_message_def split: option.split prod.split)

lemma limit_forward: "replayLimit (fst (forwardToRoster ids now sh body flds opts s)) = replayLimit s"
proof -
  have "replayLimit (fst (fold (forward_one ids now sh body flds opts) hs st)) = replayLimit (fst st)" for hs st
  proof (induction hs arbitrary: st)
    case (Cons h hs)
    have "replayLimit (fst (forward_one ids now sh body flds opts h st)) = replayLimit (fst st)"
      by (auto simp: forward_one_def split: prod.split option.split)
    with Cons show ?case by simp
  qed simp
  then show ?thesis by (simp add: forwardToRoster_def)
qed

lemma limit_fan_out: "replayLimit (fan_out ids now sb i nick c body f s) = replayLimit s"
proof -
  obtain rw cc where rw: "buildRewrite now (qidmap (outbound s)) f = (rw, cc)" by fastforce
  obtain b s1 where b: "open_bubble now sb i c f (set_cache cc s) = (b, s1)" by fastforce
  obtain s2 n where s2: "forwardToRoster ids now (EncodeToString sb) body (snd (stampReactorIdentity f sb))
      \<lparr>rewrite = rw, bubble = b\<rparr> s1 = (s2, n)" by fastforce
  have "replayLimit s1 = replayLimit s" using limit_parts(4) [of now sb i c f "set_cache cc s"] b by simp
  moreover have "replayLimit s2 = replayLimit s1" using limit_forward s2 by (metis fst_conv)
  ultimately show ?thesis using rw b s2 by (simp add: fan_out_def Let_def)
qed

lemma limit_relay: "replayLimit (relay_message ids now sb i nick c f s) = replayLimit s"
proof -
  obtain s1 where "s1 = s \<or> (\<exists>w. s1 = send_text ids now sb w s)"
    and "relay_message ids now sb i nick c f s = s1 \<or>
      relay_message ids now sb i nick c f s = fan_out ids now sb i nick c (forward_body nick c (drops f)) (out_fields f) s1"
    by (rule relay_cases)
  then show ?thesis using limit_fan_out by (metis send_frame(5))
qed

lemma limit_chat: "replayLimit (handle_chat ids sz now msg c s) = replayLimit s"
  using notices [of ids now] limit_relay by (auto simp: handle_chat_def Let_def) (metis send_frame(5))+

lemma limit_hooks: "replayLimit (fold (run_hook ids now) hs s) = replayLimit s"
proof (induction hs arbitrary: s)
  case (Cons h hs)
  have "replayLimit (run_hook ids now h s) = replayLimit s"
    by (cases h) (auto simp: run_hook_def onJoin_def onAdminAdd_def Let_def split: option.split)
  with Cons show ?case by simp
qed simp

lemma limit_command: "replayLimit (handle_command ids net now sb c s) = replayLimit s"
proof -
  obtain rep hooks d where d: "Dispatch now (EncodeToString sb) (Parse (uni (roster s)) c) (wire net (disp s)) = ((rep, hooks), d)"
    by (metis prod.exhaust)
  have "replayLimit (fold (run_hook ids now) hooks (s\<lparr>disp := d\<rparr>)) = replayLimit s" by (simp add: limit_hooks)
  with d show ?thesis unfolding handle_command_def by (simp only: Let_def prod.case) simp
qed

lemma limit_inbox: "replayLimit (onLXMFReceived ids sz net now msg s) = replayLimit s"
proof -
  obtain dup s1 where d: "is_duplicate now msg s = (dup, s1)" by fastforce
  then have "replayLimit s1 = replayLimit s" using limit_parts(5) [of now msg s] by simp
  with d limit_chat limit_command show ?thesis by (simp add: onLXMFReceived_def Let_def)
qed

lemma limit_announce: "replayLimit (OnAnnounce_member net now hash emitted app s) = replayLimit s"
  by (simp add: OnAnnounce_member_def maybeAdoptAnnouncedNickname_def Let_def split: option.split)

text \<open>What a catch-up does to the limiter: nothing, or one request, and it queues something only if that is granted.\<close>

lemma catchup_limit:
  assumes "t = sendJoinCatchup ids j at s"
  shows "(replayLimit t = replayLimit s \<and> pending (outbound t) = pending (outbound s)) \<or>
    (replayLimit t = snd (allow (EncodeToString j) at (replayLimit s)) \<and>
      (pending (outbound t) \<noteq> pending (outbound s) \<longrightarrow> fst (allow (EncodeToString j) at (replayLimit s))))"
proof (cases "Count (Replay (cfg s)) \<le> 0 \<and> joiner_pins at s = []")
  case True
  with assms show ?thesis by (simp add: sendJoinCatchup_def)
next
  case False
  obtain b l where "allow (EncodeToString j) at (replayLimit s) = (b, l)" by fastforce
  with False assms show ?thesis by (cases b) (auto simp: sendJoinCatchup_def Let_def)
qed

text \<open>
  Those served are remembered until the cooldown is over. The times at which catch-ups reach the limiter are those of
  the joins that started them; the claim is for runs in which they come in the order of time.
\<close>

definition spaced :: "duration \<Rightarrow> (bytes \<times> time \<times> bool) list \<Rightarrow> bool" where
  "spaced d tr \<longleftrightarrow> sorted_wrt (\<lambda>(j, t, served) (j', t', served'). j = j' \<and> served \<and> served' \<longrightarrow> d \<le> t' - t) tr"

definition remembered :: "replayLimiter \<Rightarrow> (bytes \<times> time \<times> bool) list \<Rightarrow> bool" where
  "remembered l tr \<longleftrightarrow> (\<forall>j t. (j, t, True) \<in> set tr \<longrightarrow>
     (\<exists>t0. map_of l (EncodeToString j) = Some t0 \<and> t \<le> t0) \<or> t + replayCooldown \<le> fst (snd (last tr)))"

lemma spaced_snoc:
  assumes "spaced d tr" and "\<And>t. served \<Longrightarrow> (j, t, True) \<in> set tr \<Longrightarrow> d \<le> now - t"
  shows "spaced d (tr @ [(j, now, served)])"
  using assms by (auto simp: spaced_def sorted_wrt_append)

lemma remembered_same:
  assumes "remembered l tr" and "sorted (map (fst \<circ> snd) (tr @ [(j, now, False)]))"
  shows "remembered l (tr @ [(j, now, False)])"
proof -
  have "fst (snd (last tr)) \<le> now" if "tr \<noteq> []" using assms(2) that by (simp add: sorted_append)
  with assms(1) show ?thesis unfolding remembered_def by (cases "tr = []") (auto, force)
qed

lemma remembered_ask:
  assumes ok: "gmap_ok l" and r: "remembered l tr" and srt: "sorted (map (fst \<circ> snd) (tr @ [(j, now, served)]))"
    and s: "served \<Longrightarrow> fst (allow (EncodeToString j) now l)"
  shows "remembered (snd (allow (EncodeToString j) now l)) (tr @ [(j, now, served)])"
    and "served \<Longrightarrow> (j, t, True) \<in> set tr \<Longrightarrow> replayCooldown \<le> now - t"
proof -
  let ?k = "EncodeToString j"
  have past: "fst (snd (last tr)) \<le> now" if "tr \<noteq> []" using srt that by (simp add: sorted_append)
  have old: "(\<exists>t0. map_of l (EncodeToString i) = Some t0 \<and> t \<le> t0) \<or> t + replayCooldown \<le> now"
    if "(i, t, True) \<in> set tr" for i t
    using r that past unfolding remembered_def by force
  show "replayCooldown \<le> now - t" if "served" "(j, t, True) \<in> set tr"
    using old [OF that(2)] replay_gate.pass_iff [OF ok, of ?k now] s [OF that(1)] by force
  show "remembered (snd (allow ?k now l)) (tr @ [(j, now, served)])"
    unfolding remembered_def
  proof (intro allI impI)
    fix i t assume "(i, t, True) \<in> set (tr @ [(j, now, served)])"
    then consider "(i, t, True) \<in> set tr" | "i = j" "t = now" "served" by auto
    then show "(\<exists>t0. map_of (snd (allow ?k now l)) (EncodeToString i) = Some t0 \<and> t \<le> t0) \<or>
        t + replayCooldown \<le> fst (snd (last (tr @ [(j, now, served)])))"
    proof cases
      case 1
      show ?thesis
      proof (cases "t + replayCooldown \<le> now")
        case False
        with old [OF 1] obtain t0 where t0: "map_of l (EncodeToString i) = Some t0" "t \<le> t0" by blast
        with False have w: "now - t0 < replayCooldown" by simp
        have "EncodeToString i \<noteq> ?k \<or> \<not> fst (allow ?k now l)"
          using replay_gate.pass_iff [OF ok, of ?k now] t0(1) w by auto
        from replay_gate.keep_stamp [OF ok TrueI t0(1) w this] t0(2) show ?thesis by blast
      qed simp
    next
      case 2
      from replay_gate.pass_stamp [OF ok TrueI s [OF 2(3)]] 2 show ?thesis by auto
    qed
  qed
qed

definition limiter_ok :: "World \<Rightarrow> bool" where
  "limiter_ok w \<longleftrightarrow> gmap_ok (replayLimit (svc w)) \<and>
     (sorted (map (fst \<circ> snd) (wcatch w)) \<longrightarrow> spaced replayCooldown (wcatch w) \<and> remembered (replayLimit (svc w)) (wcatch w))"

lemma limiter_ok_keep:
  "limiter_ok w \<Longrightarrow> replayLimit (svc v) = replayLimit (svc w) \<Longrightarrow> wcatch v = wcatch w \<Longrightarrow> limiter_ok v"
  by (simp add: limiter_ok_def)

lemma limiter_ok_catchup:
  assumes "limiter_ok w"
  shows "limiter_ok (caught_up ids j at w)"
proof -
  let ?s = "(svc w)\<lparr>tasks := remove1 (j, at) (tasks (svc w))\<rparr>"
  define t where "t = sendJoinCatchup ids j at ?s"
  define served where "served \<longleftrightarrow> pending (outbound t) \<noteq> pending (outbound (svc w))"
  define v where "v = caught_up ids j at w"
  have v: "svc v = t" "wcatch v = wcatch w @ [(j, at, served)]"
    by (simp_all add: v_def t_def served_def caught_up_def Let_def)
  let ?l = "replayLimit (svc w)"
  have ok: "gmap_ok ?l" using assms by (simp add: limiter_ok_def)
  from catchup_limit [OF t_def]
  consider (same) "replayLimit t = ?l" "served = False"
    | (ask) "replayLimit t = snd (allow (EncodeToString j) at ?l)" "served \<Longrightarrow> fst (allow (EncodeToString j) at ?l)"
    by (auto simp: served_def)
  then have "limiter_ok v"
  proof cases
    case same
    then show ?thesis
      using assms remembered_same [of ?l "wcatch w" j at] spaced_snoc [of replayCooldown "wcatch w" False j at]
      by (auto simp: limiter_ok_def v sorted_append)
  next
    case ask
    have "gmap_ok (replayLimit t)" using replay_gate.good_ask [OF ok] ask(1) by simp
    moreover have "spaced replayCooldown (wcatch w @ [(j, at, served)]) \<and> remembered (replayLimit t) (wcatch w @ [(j, at, served)])"
      if srt: "sorted (map (fst \<circ> snd) (wcatch w @ [(j, at, served)]))"
    proof -
      have "sorted (map (fst \<circ> snd) (wcatch w))" using srt by (simp add: sorted_append)
      then have IH: "spaced replayCooldown (wcatch w)" "remembered ?l (wcatch w)" using assms by (simp_all add: limiter_ok_def)
      note r = remembered_ask [OF ok IH(2) srt ask(2)]
      from spaced_snoc [OF IH(1), of served j at] r show ?thesis unfolding ask(1) by blast
    qed
    ultimately show ?thesis by (simp add: limiter_ok_def v)
  qed
  then show ?thesis by (simp add: v_def)
qed

lemma limiter_ok_step: "svc_step w v \<Longrightarrow> limiter_ok w \<Longrightarrow> limiter_ok v"
proof (induction rule: svc_step.induct)
  case (receive msg ids w sz net now)
  then show ?case using limit_inbox by (auto intro: limiter_ok_keep)
next
  case (announce hash w net now emitted app)
  then show ?case using limit_announce by (auto intro: limiter_ok_keep)
next
  case (work w R)
  then show ?case by (auto simp: after_run_def intro: limiter_ok_keep)
qed (auto simp: runPrune_def limiter_ok_catchup intro: limiter_ok_keep)

lemma limiter_ok_run: "reaches svc_step w u \<Longrightarrow> limiter_ok w \<Longrightarrow> limiter_ok u"
  by (induction rule: reaches.induct) (auto intro: limiter_ok_step)

lemma limiter_ok_reachable:
  assumes "svc_init w0" and "reaches svc_step w0 w"
  shows "limiter_ok w"
proof (rule limiter_ok_run [OF assms(2)])
  show "limiter_ok w0" using assms(1) by (auto simp: svc_init_def limiter_ok_def spaced_def remembered_def elim!: NewService_cases)
qed

text \<open>The pins, enqueued in the running service after the replay \<open>s2\<close>, and any run after that.\<close>

lemma pins_go_last:
  assumes "svc_init w0" and "reaches svc_step w0 w" and "advances ids (svc w) s2" and "fresh_ids ids (outbound (svc w))"
    and "room 1 s2" and "t = send_last ids now j body s2"
    and "queue_run v = queue_run (w\<lparr>svc := t\<rparr>)" and "reaches svc_step v u"
    and "a \<in> set (wstarts u)" and "mref a = mref (last (pending (outbound t)))"
    and "b \<in> set (pending (outbound (svc u)))" and "Recipient b = j"
  shows "mref a \<le> mref b"
proof -
  let ?w = "w\<lparr>svc := s2\<rparr>"
  note init = svc_init_queue [OF assms(1)]
  have r: "reaches oq_step (queue_run w0) (queue_run ?w)"
    using reaches_trans [OF advances_run [OF assms(3,4)] svc_queue.abst_run [OF assms(2)]] .
  have "fresh_ids ids (outbound (svc ?w))" using assms(3,4) by (simp add: advances_def)
  then have "reaches oq_step (queue_run ?w) (queue_run (?w\<lparr>svc := t\<rparr>))"
    using assms(6) by (intro advances_run) (simp_all add: advances_sends)
  then have v: "reaches oq_step (queue_run w0) (queue_run v)" using reaches_trans [OF _ r] assms(7) by simp
  have ov: "outbound (svc v) = outbound t" using assms(7) by (simp add: queue_run_def)
  obtain m where m: "pending (outbound t) = pending (outbound s2) @ [m]" "mref m = next_ref (outbound s2)" "Recipient m = j" "AfterEarlier m"
    using send_last_message [OF assms(5)] assms(6) by blast
  have "\<forall>x \<in> set (starts (queue_run v)). mref x \<noteq> mref m"
    using held_ok_reachable [OF init r] m(2) assms(7) by (auto simp: held_ok_def queue_run_def)
  from held_goes_last [OF init v svc_queue.abst_run [OF assms(8)] _ m(4) this, of a b] assms(9-12) m
  show ?thesis by (simp add: queue_run_def ov)
qed

text \<open>
  C4: What a joiner is caught up with, in which order, and how often. If the queue has room for it, a granted catch-up enqueues for
  the joiner the replayed messages of the log, oldest first and each marked with its age and author, and then the pins, if
  there are any and the configuration wants them; one refused, or with nothing to say, enqueues nothing. (A full
  queue drops what does not fit.) Whatever the service does from then on, when the pins are handed to a worker, no message
  enqueued for the joiner before them is still in the queue. And of all the catch-ups of a run, those before this one and those after
  it, any two that enqueued anything for the same destination are at least ten minutes apart, whatever other
  destinations asked for in between, as long as the times at which they were asked for come in order.
\<close>
theorem joiner_caught_up:
  assumes "svc_init w0" and "reaches svc_step w0 w" and "fresh_ids ids (outbound (svc w))"
    and "room (Suc (length (replayed (svc w) at))) (svc w)"
    and "granted = fst (allow (EncodeToString j) at (replayLimit (svc w)))" and "shown = joiner_pins at (svc w)"
    and "v = caught_up ids j at w" and "reaches svc_step v u"
  shows "letters (svc v) = letters (svc w) @
      (if granted then map (\<lambda>e. (j, replay_body at e, [], None, False)) (replayed (svc w) at) @
         (if shown = [] then [] else [(j, sanitizeForward shown, [], None, True)]) else []) \<and>
    (granted \<and> shown \<noteq> [] \<longrightarrow>
      (\<forall>a \<in> set (wstarts u). mref a = mref (last (pending (outbound (svc v)))) \<longrightarrow>
        (\<forall>b \<in> set (pending (outbound (svc u))). Recipient b = j \<longrightarrow> mref a \<le> mref b))) \<and>
    (\<exists>served. wcatch v = wcatch w @ [(j, at, served)] \<and> (letters (svc v) \<noteq> letters (svc w) \<longrightarrow> served)) \<and>
    (sorted (map (\<lambda>(j, t, served). t) (wcatch u)) \<longrightarrow>
      sorted_wrt (\<lambda>(j, t, served) (j', t', served'). j = j' \<and> served \<and> served' \<longrightarrow> 10 * Minute \<le> t' - t) (wcatch u))"
proof -
  let ?s = "(svc w)\<lparr>tasks := remove1 (j, at) (tasks (svc w))\<rparr>"
  define t where "t = sendJoinCatchup ids j at ?s"
  have v: "svc v = t" "queue_run v = queue_run (w\<lparr>svc := t\<rparr>)" using assms(7) by (simp_all add: t_def queue_run_caught_up)
  have same: "replayed ?s at = replayed (svc w) at" "joiner_pins at ?s = shown" "letters ?s = letters (svc w)"
      "replayLimit ?s = replayLimit (svc w)"
    by (simp_all add: assms(6) replayed_def joiner_pins_def letters_def)
  have "limiter_ok u"
    using assms(8) limiter_ok_catchup [OF limiter_ok_reachable [OF assms(1,2)]] limiter_ok_run assms(7) by blast
  moreover have "map (\<lambda>(j, t, served). t) (wcatch u) = map (fst \<circ> snd) (wcatch u)" by auto
  ultimately have run: "sorted (map (\<lambda>(j, t, served). t) (wcatch u)) \<longrightarrow>
      sorted_wrt (\<lambda>(j, t, served) (j', t', served'). j = j' \<and> served \<and> served' \<longrightarrow> 10 * Minute \<le> t' - t) (wcatch u)"
    by (simp only: limiter_ok_def spaced_def replayCooldown_def HOL.simp_thms) blast
  have served: "\<exists>served. wcatch v = wcatch w @ [(j, at, served)] \<and> (letters (svc v) \<noteq> letters (svc w) \<longrightarrow> served)"
    using assms(7) by (auto simp: caught_up_def Let_def letters_def)
  show ?thesis using t_def
  proof (cases rule: catchup_cases)
    case silent
    with run served same v(1) show ?thesis by auto
  next
    case (refused l)
    then have "letters t = letters (svc w)" by (simp add: letters_def)
    with run served refused(2) assms(5) v(1) show ?thesis by simp
  next
    case (granted l s2)
    let ?s1 = "?s\<lparr>replayLimit := l\<rparr>"
    have g: "granted" using granted(1) assms(5) by simp
    have r1: "room (length (replayed (svc w) at)) ?s1" using assms(4) by (simp add: room_def letters_def)
    have s2: "letters s2 = letters (svc w) @ map (\<lambda>e. (j, replay_body at e, [], None, False)) (replayed (svc w) at)"
      using letters_texts [OF r1, of ids at j "replay_body at"] granted(2) same(1) by (simp add: letters_def)
    then have r2: "room 1 s2" using assms(4) by (simp add: room_def)
    have adv: "advances ids (svc w) s2"
      unfolding granted(2) by (rule advances_cong [OF _ HOL.refl replay_advances [of ids ?s at j "replay_body at" _ l]]) simp
    have "letters t = letters s2 @ (if shown = [] then [] else [(j, sanitizeForward shown, [], None, True)])"
      using granted(3) letters_sends(3) [OF r2] same(2) by simp
    moreover have "\<forall>a \<in> set (wstarts u). mref a = mref (last (pending (outbound t))) \<longrightarrow>
        (\<forall>b \<in> set (pending (outbound (svc u))). Recipient b = j \<longrightarrow> mref a \<le> mref b)" if "shown \<noteq> []"
      using pins_go_last [OF assms(1,2) adv assms(3) r2 _ v(2) assms(8)] granted(3) that same(2) by auto
    ultimately show ?thesis using run served s2 g v(1) by simp
  qed
qed

subsection \<open>A start with one logged message and one pin\<close>

definition savedEntry :: Entry where
  "savedEntry = \<lparr>EAt = 5, SenderHash = alice, SenderNick = ''al'', EContent = ''hi''\<rparr>"

definition savedInstall :: startup where
  "savedInstall = freshInstall\<lparr>historyFile := \<lparr>content = Parsed [savedEntry], answers = []\<rparr>,
     infoFile := \<lparr>content = Parsed \<lparr>fInfo = [], fPins = [zeroPin]\<rparr>, answers = []\<rparr>\<rparr>"

definition savedWorld :: World where
  "savedWorld = \<lparr>svc = projr (NewService \<lparr>uc_lower = (\<lambda>r. r), uc_print = (\<lambda>_. True)\<rparr> (\<lambda>n. n \<le> 280) savedInstall 3 demoConfig),
     wsending = [], wsnap = None, wstarts = [], wspent = [], wcatch = []\<rparr>"

lemma savedWorld_start:
  "svc_init savedWorld" "letters (svc savedWorld) = []" "cfg (svc savedWorld) = demoConfig" "entries (hist (svc savedWorld)) = [savedEntry]"
  "map_option (length \<circ> pins) (Info (disp (svc savedWorld))) = Some 1" "replayLimit (svc savedWorld) = []"
proof -
  let ?u = "\<lparr>uc_lower = (\<lambda>r. r), uc_print = (\<lambda>_. True)\<rparr>"
  have files: "ReadStore d absent = Inr d" "outboundStore_load absent = Inr []" for d :: 'd
    by (simp_all add: ReadStore_def absent_def outboundStore_load_def)
  obtain s where s: "NewService ?u (\<lambda>n. n \<le> 280) savedInstall 3 demoConfig = Inr s" and q: "pending (outbound s) = []" "replayLimit s = []"
      "cfg s = demoConfig" "entries (hist s) = [savedEntry]" "map_option (length \<circ> pins) (Info (disp s)) = Some 1"
    by (simp add: NewService_def opt_fail_def sum_fail_def savedInstall_def freshInstall_def New_def NewLog_def load_def files LoadQueue_def
      ReadStore_def [of _ "\<lparr>content = Parsed x, answers = y\<rparr>" for x y] keep_last_def MaxPins_def start_dispatcher_def
      start_queue_def demoConfig_def defaults_def newOutboundQueue_def start_cache_def SetIDMap_def Let_def)
  have w: "svc savedWorld = s" using s by (simp add: savedWorld_def)
  show "svc_init savedWorld"
    unfolding svc_init_def
    by (rule exI [of _ ?u], rule exI [of _ "\<lambda>n. n \<le> 280"], rule exI [of _ savedInstall], rule exI [of _ 3], rule exI [of _ demoConfig], rule exI [of _ s])
      (use s files in \<open>simp add: savedWorld_def savedInstall_def freshInstall_def file_ok_def\<close>)
  show "letters (svc savedWorld) = []" "cfg (svc savedWorld) = demoConfig" "entries (hist (svc savedWorld)) = [savedEntry]"
    "map_option (length \<circ> pins) (Info (disp (svc savedWorld))) = Some 1" "replayLimit (svc savedWorld) = []"
    using q w by (simp_all add: letters_def)
qed

theorem joiner_caught_up_witness:
  "map (\<lambda>(to, body, flds, b, held). (to, held))
     (letters (svc (caught_up (\<lambda>n. replicate n CHR ''i'') ''sixteen byte key'' 9 savedWorld))) =
   [(''sixteen byte key'', False), (''sixteen byte key'', True)]"
proof -
  let ?s = "svc savedWorld" and ?ids = "\<lambda>n. replicate n CHR ''i''"
  have pend: "pending (outbound ?s) = []" using savedWorld_start(2) by (simp add: letters_def)
  have f: "fresh_ids ?ids (outbound ?s)" using pend by (simp add: fresh_ids_def inj_on_def)
  have e: "replayed ?s 9 = [savedEntry]"
    by (simp add: replayed_def replay_cutoff_def SinceOldest_def savedWorld_start savedEntry_def demoConfig_def defaults_def duration_defs)
  have p: "joiner_pins 9 ?s \<noteq> []"
  proof -
    obtain st where "Info (disp ?s) = Some st" "pins st \<noteq> []" using savedWorld_start(5) by fastforce
    then show ?thesis by (simp add: joiner_pins_def savedWorld_start(3) demoConfig_def defaults_def Render_def)
  qed
  have g: "fst (allow k 9 (replayLimit ?s))" for k by (simp add: savedWorld_start(6) allow_def)
  have r: "room (Suc (length (replayed ?s 9))) ?s" by (simp add: room_def e savedWorld_start(2) maxPendingMessages_def)
  note c = joiner_caught_up [OF savedWorld_start(1) reaches.refl f r HOL.refl HOL.refl HOL.refl reaches.refl, of "''sixteen byte key''"]
  show ?thesis using conjunct1 [OF c] g p e savedWorld_start(2) by simp
qed

end
