(* ===== verification/Delivery.thy ===== *)
theory Delivery
  imports Propagation OutboundThms
begin

text \<open>
  One attempt put together from the queue of \<^verbatim>\<open>outbound.go\<close> and the adapter to the network, and a worker's visit:
  \<^verbatim>\<open>processOnce\<close>, which is also what \<^verbatim>\<open>workerLoop\<close> does between two of its sleeps. A \<open>moment\<close> is what the code reads
  from outside during one turn of the loop: the clock when it picks and when the send has ended, whether the
  context is cancelled, what the network answers, the known propagation nodes, and how many slots of the two
  semaphores are taken.
\<close>

record moment =
  clock :: time
  ended :: time
  cancelled :: bool
  net :: network
  tracker :: "propagationTracker option"
  grinding :: nat
  uploading :: nat

text \<open>The paths requested for the node and for the recipient, if any, and the queue afterwards.\<close>

definition attempt :: "moment \<Rightarrow> outboundMessage \<Rightarrow> OutboundQueue \<Rightarrow> (bytes option \<times> bytes option) \<times> OutboundQueue" where
  "attempt e m q =
     (let (m', q1) = attempt_begin m q;
          (nodePath, res) = (if Propagated m'
            then SendLXMFPropagated (net e) (tracker e) (clock e) (uploading e) (Recipient m') (MBody m') (MFields m')
            else (None, SendLXMF (net e) (grinding e) (Recipient m') (MBody m') (MFields m')));
          (path, q2) = attempt_end m' res (HasPropagationNode (tracker e) (ended e)) (ended e) q1
      in ((nodePath, path), q2))"

text \<open>The messages attempted with the turn each was attempted in, the queue, and whether the visit ended before the fuel did.\<close>

fun processOnce :: "nat \<Rightarrow> (nat \<Rightarrow> moment) \<Rightarrow> nat \<Rightarrow> OutboundQueue \<Rightarrow> (nat \<times> nat) list \<times> OutboundQueue \<times> bool" where
  "processOnce 0 e i q = ([], q, False)"
| "processOnce (Suc fuel) e i q =
     (if cancelled (e i) then ([], q, True)
      else case pickDue (LastAnnounceFor (net (e i))) (clock (e i)) q of
          (None, q') \<Rightarrow> ([], q', True)
        | (Some m, q') \<Rightarrow> (case processOnce fuel e (Suc i) (snd (attempt (e i) m q')) of
            (attempted, r) \<Rightarrow> ((mref m, i) # attempted, r)))"

subsection \<open>One turn of the loop\<close>

definition waits_ok :: "OutboundQueue \<Rightarrow> bool" where
  "waits_ok q \<longleftrightarrow> retryWait q = deliveryRetryWait \<and> pathRequestWait q = pathRequestWait0"

lemma waits_frame [simp]:
  "waits_ok (persistQueue q) = waits_ok q" "waits_ok (removeLocked r q) = waits_ok q" "waits_ok (upd_msg r f q) = waits_ok q"
  "waits_ok (register_sent m res now q) = waits_ok q" "waits_ok (q\<lparr>inFlight := fl\<rparr>) = waits_ok q"
  "waits_ok (q\<lparr>pending := ms\<rparr>) = waits_ok q" "waits_ok (q\<lparr>qidmap := c\<rparr>) = waits_ok q"
  by (auto simp: waits_ok_def persistQueue_def removeLocked_def upd_msg_def register_sent_def split: option.split send_result.split)

lemma waits_record_failure [simp]: "waits_ok (snd (record_failure m u h now q)) = waits_ok q"
  by (simp add: record_failure_def failLocked_def)

lemma waits_methods [simp]:
  "waits_ok (reap now q) = waits_ok q" "waits_ok (snd (attempt_begin m q)) = waits_ok q"
  "waits_ok (snd (attempt_end m res h now q)) = waits_ok q" "waits_ok (snd (enqueue r b f bub ae i now q)) = waits_ok q"
  "waits_ok (snd (Flush_take q)) = waits_ok q" "waits_ok (Flush_put sn q) = waits_ok q"
proof -
  show "waits_ok (reap now q) = waits_ok q" by (simp add: reap_def Let_def fold_removeLocked)
  show "waits_ok (snd (attempt_begin m q)) = waits_ok q" by (simp add: attempt_begin_def Let_def)
  show "waits_ok (snd (attempt_end m res h now q)) = waits_ok q"
    by (cases res) (simp_all add: attempt_end_def failStampCostLocked_def Let_def case_prod_unfold)
  show "waits_ok (snd (enqueue r b f bub ae i now q)) = waits_ok q"
    by (simp add: enqueue_def) (simp add: waits_ok_def)
  show "waits_ok (snd (Flush_take q)) = waits_ok q" "waits_ok (Flush_put sn q) = waits_ok q"
    by (simp_all add: Flush_take_def Flush_put_def waits_ok_def split: option.split prod.split)
qed

lemma waits_pick: "pickDue la now q = (best, q') \<Longrightarrow> waits_ok q' = waits_ok q"
  by (erule pickDue_cases) simp_all

lemma waits_step: "waits_ok (rq s) \<Longrightarrow> oq_step s t \<Longrightarrow> waits_ok (rq t)"
proof (erule oq_step_cases, goal_cases)
  case (3 la now q)
  then show ?case by (simp add: waits_pick)
next
  case (4 la now m q m' q')
  then show ?case using waits_pick [of la now "rq s"] waits_methods(2) [of m q] by simp
next
  case (5 m res h now path q)
  then show ?case using waits_methods(3) [of m res h now "rq s"] by simp
next
  case (6 sn q)
  then show ?case using waits_methods(5) [of "rq s"] by simp
qed simp_all

lemma waits_init: "oq_init s \<Longrightarrow> waits_ok (rq s)"
proof (induction rule: oq_init.induct)
  case (1 st c fb al da q)
  from 1(1) show ?case
    by (cases rule: LoadQueue_cases) (simp_all add: waits_ok_def configured_def SetIDMap_def SetPropagation_def newOutboundQueue_def)
qed

lemma waits_reachable: "oq_init s0 \<Longrightarrow> reaches oq_step s0 s \<Longrightarrow> waits_ok (rq s)"
proof (erule (1) oq_sys.inv_extend [of "\<lambda>s. waits_ok (rq s)", rotated 2])
qed (use waits_init waits_step in blast)+

lemma backoff_loop_ge: "wait \<le> maxRetryBackoff \<Longrightarrow> 0 \<le> wait \<Longrightarrow> wait \<le> backoff_loop n wait"
proof (induction n wait rule: backoff_loop.induct)
  case (2 n wait)
  show ?case
  proof (cases "wait < maxRetryBackoff \<and> wait * 2 \<le> maxRetryBackoff")
    case False
    have "w \<le> backoff_loop n w" if "maxRetryBackoff \<le> w" for w using that by (cases n) auto
    with False 2(3) show ?thesis by (force intro: order_trans [of wait "wait * 2"])
  qed (use 2 in force)
qed simp

lemma backoffWait_ge: "waits_ok q \<Longrightarrow> pathRequestWait0 \<le> backoffWait q n"
  using backoff_loop_ge [of deliveryRetryWait "nat (n - 1)"]
  by (auto simp: backoffWait_def Let_def waits_ok_def deliveryRetryWait_def pathRequestWait0_def maxRetryBackoff_def duration_defs)

lemma after_attempt_waits:
  assumes "after_attempt q m res h now x = Some y" and "waits_ok q"
  shows "now + pathRequestWait0 \<le> NextAttempt y"
proof -
  have "pathRequestWait0 \<le> retryWait q" "pathRequestWait0 \<le> pathRequestWait q"
    using assms(2) by (simp_all add: waits_ok_def deliveryRetryWait_def pathRequestWait0_def duration_defs)
  with assms(1) backoffWait_ge [OF assms(2), of "Attempts m"] show ?thesis
    by (cases res) (auto simp: after_attempt_def split: if_splits)
qed

text \<open>
  What a turn does to the queue, other workers' sends being in flight: the message it attempted leaves or waits at
  least seven seconds from the end of the send, and every other message is one that was there before, unchanged.
\<close>

lemma attempt_turn:
  assumes "oq_core R" and "waits_ok (rq R)" and "length (sending R) < outboundWorkers"
    and "pickDue la now (rq R) = (Some m, q1)" and "q2 = snd (attempt e m q1)"
  shows "\<exists>sp st. oq_core (R\<lparr>rq := q2, starts := st, spent := sp\<rparr>)" and "waits_ok q2"
    and "m \<in> set (pending (rq R))" and "NextAttempt m \<le> now \<or> NextAttempt m = 0"
    and "y \<in> set (pending q2) \<Longrightarrow> (mref y = mref m \<and> ended e + pathRequestWait0 \<le> NextAttempt y) \<or>
      (mref y \<noteq> mref m \<and> y \<in> set (pending (rq R)))"
proof -
  obtain m' q1' where b: "attempt_begin m q1 = (m', q1')" by fastforce
  obtain h res where r: "q2 = snd (attempt_end m' res h (ended e) q1')"
    using assms(5) b by (auto simp: attempt_def Let_def split: prod.splits)
  define now' where "now' = ended e"
  obtain path where q2: "attempt_end m' res h now' q1' = (path, q2)" "now' = ended e"
    using r by (metis now'_def prod.collapse)
  obtain ys zs where p: "q1 = (reap now (rq R))\<lparr>inFlight := List.insert (MID m) (inFlight (rq R))\<rparr>"
      "pending (reap now (rq R)) = ys @ m # zs" "sendable now (inFlight (rq R)) ys m"
    using assms(4) by (cases rule: pickDue_cases) auto
  have old: "set (pending q1) \<subseteq> set (pending (rq R))" using p(1) reap_pending [OF oq_core_mrefs [OF assms(1)], of now] by auto
  have "m \<in> set (pending q1)" using p(1,2) by simp
  with old show m: "m \<in> set (pending (rq R))" by blast
  show "NextAttempt m \<le> now \<or> NextAttempt m = 0" using p(3) by (auto simp: sendable_def)
  let ?R1 = "R\<lparr>rq := q1', sending := sending R @ [m'], starts := starts R @ [m']\<rparr>"
  let ?sp = "if uses_attempt res then mref m' # spent ?R1 else spent ?R1"
  let ?R2 = "?R1\<lparr>rq := q2, sending := removeAll m' (sending ?R1), spent := ?sp\<rparr>"
  have "length (sending R) < workers (rq R)" using assms(1,3) by (simp add: oq_core_def)
  from worker_step.start [OF assms(4) this b] have c1: "oq_core ?R1" using oq_core_step [OF assms(1) oq_step.work] by blast
  have "m' \<in> set (sending ?R1)" by simp
  from worker_step.finish [OF this, of res h now' path q2] q2(1) have c2: "oq_core ?R2"
    using oq_core_step [OF c1 oq_step.work] by simp
  have "m' \<notin> set (sending R)" using c1 by (simp add: oq_core_def)
  then have "?R2 = R\<lparr>rq := q2, starts := starts R @ [m'], spent := ?sp\<rparr>" by simp
  with c2 show "\<exists>sp st. oq_core (R\<lparr>rq := q2, starts := st, spent := sp\<rparr>)" by metis
  have w1: "waits_ok q1'" using waits_methods(2) [of m q1] waits_pick [OF assms(4)] assms(2) b by simp
  then show "waits_ok q2" using waits_methods(3) [of m' res h now' q1'] q2(1) by simp
  have same: "mref m' = mref m" using begin_keys(3) [OF b] by (simp add: mkey_def)
  assume "y \<in> set (pending q2)"
  then consider "y \<in> set (pending q1')" "mref y \<noteq> mref m'" | "after_attempt q1' m' res h now' m' = Some y"
    using attempt_end_mem [OF c1, of m' y res h now'] q2(1) by auto
  then show "(mref y = mref m \<and> ended e + pathRequestWait0 \<le> NextAttempt y) \<or> (mref y \<noteq> mref m \<and> y \<in> set (pending (rq R)))"
  proof cases
    case 1
    then show ?thesis using b old same by (auto simp: attempt_begin_def Let_def upd_msg_def split: if_splits)
  next
    case 2
    from after_attempt_waits [OF 2 w1] after_attempt_frame [OF 2] same q2(2) show ?thesis by (simp add: mkey_def)
  qed
qed

subsection \<open>A visit\<close>

text \<open>A message put off until \<open>T\<close> is not attempted in any turn that picks before.\<close>

definition put_off :: "nat \<Rightarrow> time \<Rightarrow> OutboundQueue \<Rightarrow> bool" where
  "put_off r T q \<longleftrightarrow> (\<forall>y \<in> set (pending q). mref y = r \<longrightarrow> T \<le> NextAttempt y)"

definition orderly :: "(nat \<Rightarrow> moment) \<Rightarrow> bool" where
  "orderly e \<longleftrightarrow> (\<forall>i. 0 < clock (e i) \<and> clock (e i) \<le> ended (e i))"

lemma orderlyD: "orderly e \<Longrightarrow> 0 < clock (e i) \<and> clock (e i) \<le> ended (e i)"
  by (simp add: orderly_def)

lemma visit_put_off:
  assumes "oq_core R" and "waits_ok (rq R)" and "length (sending R) < outboundWorkers" and "orderly e" and "0 < T"
    and "put_off r T (rq R)" and "processOnce fuel e i (rq R) = (tr, res)" and "(r, j) \<in> set tr"
  shows "T \<le> clock (e j)"
  using assms
proof (induction fuel arbitrary: R i tr T)
  case (Suc fuel)
  show ?case
  proof (cases "cancelled (e i)")
    case False
    obtain best q1 where pick: "pickDue (LastAnnounceFor (net (e i))) (clock (e i)) (rq R) = (best, q1)" by fastforce
    show ?thesis
    proof (cases best)
      case (Some m)
      define q2 where "q2 = snd (attempt (e i) m q1)"
      obtain tr2 where tr2: "processOnce fuel e (Suc i) q2 = (tr2, res)" "tr = (mref m, i) # tr2"
        using Suc.prems(7) False pick Some by (auto simp: q2_def split: prod.splits)
      note turn = attempt_turn [OF Suc.prems(1-3) pick [unfolded Some] q2_def]
      obtain sp st where core: "oq_core (R\<lparr>rq := q2, starts := st, spent := sp\<rparr>)" using turn(1) by blast
      let ?R = "R\<lparr>rq := q2, starts := st, spent := sp\<rparr>"
      have now: "T \<le> clock (e i)" if "mref m = r"
        using turn(3,4) Suc.prems(5,6) that by (auto simp: put_off_def)
      define T' where "T' = (if mref m = r then ended (e i) + pathRequestWait0 else T)"
      have "clock (e i) \<le> ended (e i)" using Suc.prems(4) by (simp add: orderly_def)
      then have T': "T \<le> T'" using now by (auto simp: T'_def pathRequestWait0_def duration_defs)
      have "put_off r T' q2"
        unfolding put_off_def
      proof (intro ballI impI)
        fix y assume y: "y \<in> set (pending q2)" "mref y = r"
        from turn(5) [OF y(1)] show "T' \<le> NextAttempt y"
          using Suc.prems(6) y(2) by (auto simp: T'_def put_off_def)
      qed
      with Suc.IH [OF core _ _ Suc.prems(4), of T' "Suc i" tr2] T' turn(2) tr2(1) Suc.prems(3,5)
      have later: "(r, j) \<in> set tr2 \<Longrightarrow> T' \<le> clock (e j)" by simp
      show ?thesis using Suc.prems(8) tr2(2) now later T' by auto
    qed (use Suc.prems(7,8) False pick in simp)
  qed (use Suc.prems(7,8) in simp)
qed simp

text \<open>As long as no turn picks at \<open>B\<close> or later, every turn uses up one of the messages due before \<open>B\<close>.\<close>

definition due_before :: "time \<Rightarrow> OutboundQueue \<Rightarrow> outboundMessage set" where
  "due_before B q = {y \<in> set (pending q). NextAttempt y < B}"

lemma visit_ends:
  assumes "oq_core R" and "waits_ok (rq R)" and "length (sending R) < outboundWorkers" and "orderly e"
    and "\<forall>i. clock (e i) < B \<and> B \<le> ended (e i) + pathRequestWait0" and "card (due_before B (rq R)) < fuel"
  shows "snd (snd (processOnce fuel e i (rq R)))"
  using assms
proof (induction fuel arbitrary: R i)
  case (Suc fuel)
  obtain best q1 where pick: "pickDue (LastAnnounceFor (net (e i))) (clock (e i)) (rq R) = (best, q1)" by fastforce
  show ?case
  proof (cases best)
    case (Some m)
    define q2 where "q2 = snd (attempt (e i) m q1)"
    note turn = attempt_turn [OF Suc.prems(1-3) pick [unfolded Some] q2_def]
    obtain sp st where core: "oq_core (R\<lparr>rq := q2, starts := st, spent := sp\<rparr>)" using turn(1) by blast
    have "0 < B" using orderlyD [OF Suc.prems(4), of 0] spec [OF Suc.prems(5), of 0] by linarith
    moreover have Bi: "clock (e i) < B" "B \<le> ended (e i) + pathRequestWait0" using Suc.prems(5) by simp_all
    ultimately have m: "m \<in> due_before B (rq R)" using turn(3,4) by (auto simp: due_before_def)
    have "due_before B q2 \<subseteq> due_before B (rq R) - {m}"
    proof
      fix y assume y: "y \<in> due_before B q2"
      then have "mref y \<noteq> mref m \<and> y \<in> set (pending (rq R))"
        using turn(5) [of y] Bi(2) by (auto simp: due_before_def)
      with y show "y \<in> due_before B (rq R) - {m}" by (auto simp: due_before_def)
    qed
    moreover have fin: "finite (due_before B (rq R))" by (simp add: due_before_def)
    ultimately have "card (due_before B q2) \<le> card (due_before B (rq R) - {m})" by (intro card_mono) auto
    also have "\<dots> < card (due_before B (rq R))" by (rule card_Diff1_less [OF fin m])
    finally have "card (due_before B q2) < fuel" using Suc.prems(6) by simp
    with Suc.IH [OF core] turn(2) Suc.prems(3-5) have "snd (snd (processOnce fuel e (Suc i) q2))" by simp
    then show ?thesis using pick Some by (simp add: q2_def split: prod.split)
  qed (simp add: pick)
qed simp

lemma visit_spaced:
  assumes "oq_core R" and "waits_ok (rq R)" and "length (sending R) < outboundWorkers" and "orderly e"
    and "processOnce fuel e i (rq R) = (tr, res)"
  shows "sorted_wrt (\<lambda>(r, i) (r', j). r = r' \<longrightarrow> ended (e i) + pathRequestWait0 \<le> clock (e j)) tr"
  using assms
proof (induction fuel arbitrary: R i tr)
  case (Suc fuel)
  show ?case
  proof (cases "cancelled (e i)")
    case False
    obtain best q1 where pick: "pickDue (LastAnnounceFor (net (e i))) (clock (e i)) (rq R) = (best, q1)" by fastforce
    show ?thesis
    proof (cases best)
      case (Some m)
      define q2 where "q2 = snd (attempt (e i) m q1)"
      obtain tr2 where tr2: "processOnce fuel e (Suc i) q2 = (tr2, res)" "tr = (mref m, i) # tr2"
        using Suc.prems(5) False pick Some by (auto simp: q2_def split: prod.splits)
      note turn = attempt_turn [OF Suc.prems(1-3) pick [unfolded Some] q2_def]
      obtain sp st where core: "oq_core (R\<lparr>rq := q2, starts := st, spent := sp\<rparr>)" using turn(1) by blast
      have "put_off (mref m) (ended (e i) + pathRequestWait0) q2"
        using turn(5) unfolding put_off_def by blast
      moreover have "0 < ended (e i) + pathRequestWait0"
        using orderlyD [OF Suc.prems(4), of i] by (simp add: pathRequestWait0_def duration_defs)
      ultimately have "\<forall>j. (mref m, j) \<in> set tr2 \<longrightarrow> ended (e i) + pathRequestWait0 \<le> clock (e j)"
        using visit_put_off [OF core _ _ Suc.prems(4), of _ "mref m" fuel "Suc i" tr2 res] turn(2) tr2(1) Suc.prems(3) by simp
      with Suc.IH [OF core, of "Suc i" tr2] turn(2) tr2 Suc.prems(3,4) show ?thesis by auto
    qed (use Suc.prems(5) False pick in simp)
  qed (use Suc.prems(5) in simp)
qed simp

text \<open>
  C28: A worker's visit to the queue ends. In any state a run of the queue reaches, with a worker to spare and whatever the network
  answers, two attempts of the same message in one visit are at least seven seconds apart, counted from the end of the first; so
  as long as the visit has lasted less than that, it comes to an end after at most one attempt for each message queued.
\<close>
theorem visit_returns:
  assumes "oq_init s0" and "reaches oq_step s0 R" and "length (sending R) < 8" and "orderly e"
    and "length (pending (rq R)) < fuel"
  shows "sorted_wrt (\<lambda>(r, i) (r', j). r = r' \<longrightarrow> ended (e i) + 7 * Second \<le> clock (e j)) (fst (processOnce fuel e 0 (rq R))) \<and>
    ((\<exists>B. \<forall>i. clock (e i) < B \<and> B \<le> ended (e i) + 7 * Second) \<longrightarrow> snd (snd (processOnce fuel e 0 (rq R))))"
proof (intro conjI impI)
  have c: "oq_core R" using oq_sys.inv_reachable [OF assms(1,2)] .
  have w: "waits_ok (rq R)" using waits_reachable [OF assms(1,2)] .
  have l: "length (sending R) < outboundWorkers" using assms(3) by (simp add: outboundWorkers_def)
  show "sorted_wrt (\<lambda>(r, i) (r', j). r = r' \<longrightarrow> ended (e i) + 7 * Second \<le> clock (e j)) (fst (processOnce fuel e 0 (rq R)))"
    using visit_spaced [OF c w l assms(4), of fuel 0] by (simp add: pathRequestWait0_def prod_eq_iff)
  assume "\<exists>B. \<forall>i. clock (e i) < B \<and> B \<le> ended (e i) + 7 * Second"
  then obtain B where B: "\<forall>i. clock (e i) < B \<and> B \<le> ended (e i) + pathRequestWait0" by (auto simp: pathRequestWait0_def)
  have "card (due_before B (rq R)) \<le> card (set (pending (rq R)))" by (intro card_mono) (auto simp: due_before_def)
  also have "\<dots> \<le> length (pending (rq R))" by (rule card_length)
  finally have "card (due_before B (rq R)) < fuel" using assms(5) by simp
  from visit_ends [OF c w l assms(4) B this] show "snd (snd (processOnce fuel e 0 (rq R)))" .
qed

text \<open>A network that knows nobody.\<close>

definition deadNet :: network where
  "deadNet = \<lparr>Recall = (\<lambda>_. None), decodeStampCost = (\<lambda>_. None), DisableOutboundStamps = False, MaxStampCost = 16,
     MaxDeliveryStampCost = 20, sendWithID = (\<lambda>_ _ _. Inl ErrRecipientUnknown), sendPropagated = (\<lambda>_ _ _ _. Inl ErrPropagationNodeUnknown),
     decodeDisplayName = (\<lambda>_. None), ActiveTo = (\<lambda>_. False), encodeAppData = (\<lambda>n _. Inr n), buildPacket = (\<lambda>a. Inr a),
     Broadcast = (\<lambda>_. None)\<rparr>"

definition nobodyAnswers :: "nat \<Rightarrow> moment" where
  "nobodyAnswers i = \<lparr>clock = 9, ended = 10, cancelled = False, net = deadNet, tracker = None, grinding = 0, uploading = 0\<rparr>"

theorem visit_returns_witness: "snd (snd (processOnce 3 nobodyAnswers 0 (rq demo1)))"
proof -
  have o: "orderly nobodyAnswers" by (simp add: orderly_def nobodyAnswers_def)
  have l: "length (sending demo1) < 8" "length (pending (rq demo1)) < 3" by (simp_all add: demo1_def demo_defs)
  have "\<exists>B. \<forall>i. clock (nobodyAnswers i) < B \<and> B \<le> ended (nobodyAnswers i) + 7 * Second"
    by (rule exI [of _ 10]) (simp add: nobodyAnswers_def duration_defs)
  with visit_returns [OF demo0_clean(2) demo1_reached l(1) o l(2)] show ?thesis by blast
qed

end
