(* ===== verification/Announces.thy ===== *)
theory Announces
  imports Storage
begin

text \<open>
  \<^verbatim>\<open>internal/service/announces.go\<close>: the announce cache on disk, so that a restarted service reaches its members
  without waiting for their next announce. The entries belong to the network library: a type \<open>'k\<close> of which the
  code reads only when the peer was last heard (\<open>seen\<close>); \<^verbatim>\<open>nil\<close> is \<open>None\<close>. What \<^verbatim>\<open>encoding/json\<close> makes of them is
  \<open>marshals\<close> for one entry and \<open>marshalAll\<close> (its error, if any) for the file.
\<close>

definition announceStoreMaxAge :: duration where "announceStoreMaxAge = 30 * 24 * Hour"

definition announce_load :: "('k \<Rightarrow> time) \<Rightarrow> time \<Rightarrow> 'k option list store_file \<Rightarrow> string + ('k list \<times> nat)" where
  "announce_load seen now f = (case content f of
      Absent \<Rightarrow> Inr ([], 0)
    | Unreadable e \<Rightarrow> Inl e
    | EmptyFile \<Rightarrow> Inr ([], 0)
    | Garbage e \<Rightarrow> Inl (''parse announce store: '' @ e)
    | Parsed es \<Rightarrow>
        (let cutoff = now + (- announceStoreMaxAge) in
         Inr (fold (\<lambda>e (kept, dropped). case e of
             None \<Rightarrow> (kept, dropped)
           | Some k \<Rightarrow> if seen k < cutoff then (kept, Suc dropped) else (kept @ [k], dropped)) es ([], 0))))"

definition announce_save ::
  "('k list \<Rightarrow> string option) \<Rightarrow> ('k \<Rightarrow> bool) \<Rightarrow> 'k list \<Rightarrow> 'k option list store_file \<Rightarrow> string option \<times> 'k option list store_file"
where
  "announce_save marshalAll marshals es f = (case marshalAll es of
      None \<Rightarrow> Save (map Some es) f
    | Some e \<Rightarrow>
        (let kept = filter marshals es; skipped = length es - length kept in
         if skipped = 0 then (Some e, f)
         else (case marshalAll kept of
             Some e' \<Rightarrow> (Some e', f)
           | None \<Rightarrow> Save (map Some kept) f)))"

subsection \<open>The persist loop\<close>

text \<open>
  \<open>kick\<close> is whether the one-element channel is full. The loop waits for it (\<open>Idle\<close>), then for the debounce
  timer, drains the channel, takes a snapshot of the transport's table and writes it; on cancellation it takes and
  writes one last snapshot. The library takes an announce into its table first and calls the handler afterwards:
  \<open>owed\<close> is how many such calls are still to come (what the library does to its table without an announce is not
  in the model). \<open>unsaved\<close> and \<open>lastErr\<close> record, for the statements only, whether the table changed
  since the last snapshot, and how the last write ended.
\<close>

datatype 'k phase = Idle | Debounce | Drained | Writing bool "'k list" | Stopping | Stopped

record 'k announcePersistTap =
  known :: "'k list"
  kick :: bool
  owed :: nat
  phase :: "'k phase"
  afile :: "'k option list store_file"
  unsaved :: bool
  lastErr :: "string option option"

definition newAnnouncePersistTap :: "'k list \<Rightarrow> 'k option list store_file \<Rightarrow> 'k announcePersistTap" where
  "newAnnouncePersistTap ks f = \<lparr>known = ks, kick = False, owed = 0, phase = Idle, afile = f, unsaved = False, lastErr = None\<rparr>"

definition take_announce :: "'k list \<Rightarrow> 'k announcePersistTap \<Rightarrow> 'k announcePersistTap" where
  "take_announce ks s = s\<lparr>known := ks, owed := Suc (owed s), unsaved := True\<rparr>"

definition OnAnnounce_persist :: "'k announcePersistTap \<Rightarrow> 'k announcePersistTap" where
  "OnAnnounce_persist s = s\<lparr>kick := True, owed := owed s - 1\<rparr>"

definition write_now ::
  "('k list \<Rightarrow> string option) \<Rightarrow> ('k \<Rightarrow> bool) \<Rightarrow> 'k list \<Rightarrow> 'k announcePersistTap \<Rightarrow> 'k announcePersistTap"
where
  "write_now marshalAll marshals ks s =
     (let (e, f) = announce_save marshalAll marshals ks (afile s) in s\<lparr>afile := f, lastErr := Some e\<rparr>)"

inductive persist_step ::
  "('k list \<Rightarrow> string option) \<Rightarrow> ('k \<Rightarrow> bool) \<Rightarrow> 'k announcePersistTap \<Rightarrow> 'k announcePersistTap \<Rightarrow> bool"
  for marshalAll :: "'k list \<Rightarrow> string option" and marshals :: "'k \<Rightarrow> bool"
where
  taken: "persist_step marshalAll marshals s (take_announce ks s)"
| heard: "persist_step marshalAll marshals s (OnAnnounce_persist s)"
| wake: "phase s = Idle \<Longrightarrow> kick s \<Longrightarrow> persist_step marshalAll marshals s (s\<lparr>kick := False, phase := Debounce\<rparr>)"
| drain: "phase s = Debounce \<Longrightarrow> persist_step marshalAll marshals s (s\<lparr>kick := False, phase := Drained\<rparr>)"
| snapshot: "phase s = Drained \<Longrightarrow> persist_step marshalAll marshals s (s\<lparr>phase := Writing False (known s), unsaved := False\<rparr>)"
| cancel: "phase s \<in> {Idle, Debounce} \<Longrightarrow> persist_step marshalAll marshals s (s\<lparr>phase := Stopping\<rparr>)"
| last_snapshot: "phase s = Stopping \<Longrightarrow> persist_step marshalAll marshals s (s\<lparr>phase := Writing True (known s), unsaved := False\<rparr>)"
| written: "phase s = Writing final ks \<Longrightarrow>
    persist_step marshalAll marshals s ((write_now marshalAll marshals ks s)\<lparr>phase := (if final then Stopped else Idle)\<rparr>)"

text \<open>What the loop promises: no announce is forgotten, and a written file holds what was known at the snapshot.\<close>

definition persist_ok :: "('k \<Rightarrow> bool) \<Rightarrow> 'k announcePersistTap \<Rightarrow> bool" where
  "persist_ok marshals s \<longleftrightarrow>
     (phase s = Idle \<and> unsaved s \<longrightarrow> kick s \<or> 0 < owed s) \<and>
     (\<forall>b ks. phase s = Writing b ks \<longrightarrow> (unsaved s \<longrightarrow> kick s \<or> 0 < owed s) \<and> (\<not> unsaved s \<longrightarrow> ks = known s)) \<and>
     (phase s \<in> {Idle, Stopped} \<and> \<not> unsaved s \<and> lastErr s = Some None \<longrightarrow>
        content (afile s) = Parsed (map Some (filter marshals (known s))))"

lemma announce_save_ok:
  assumes "\<And>ks. marshalAll ks = None \<longleftrightarrow> list_all marshals ks" and "announce_save marshalAll marshals ks f = (None, f')"
  shows "content f' = Parsed (map Some (filter marshals ks))"
proof (cases "marshalAll ks")
  case None
  then have "filter marshals ks = ks" using assms(1) by (simp add: list_all_iff filter_id_conv)
  with None assms(2) show ?thesis by (auto simp: announce_save_def Save_def split: list.splits option.splits)
next
  case (Some e)
  have "marshalAll (filter marshals ks) = None" using assms(1) by (simp add: list_all_iff)
  with Some assms(2) show ?thesis
    by (auto simp: announce_save_def Save_def Let_def split: list.splits option.splits if_splits)
qed

lemma persist_ok_step:
  assumes law: "\<And>ks. marshalAll ks = None \<longleftrightarrow> list_all marshals ks" and ok: "persist_ok marshals s"
    and st: "persist_step marshalAll marshals s t"
  shows "persist_ok marshals t"
  using st
proof (cases rule: persist_step.cases)
  case (written final ks)
  obtain e f where e: "announce_save marshalAll marshals ks (afile s) = (e, f)" by fastforce
  have "e = None \<Longrightarrow> content f = Parsed (map Some (filter marshals ks))" using announce_save_ok [OF law] e by simp
  with written e ok show ?thesis by (auto simp: persist_ok_def write_now_def)
qed (use ok in \<open>auto simp: persist_ok_def OnAnnounce_persist_def take_announce_def\<close>)

definition persist_init :: "'k announcePersistTap \<Rightarrow> bool" where
  "persist_init s \<longleftrightarrow> (\<exists>ks f. s = newAnnouncePersistTap ks f)"

text \<open>The loop is a step system for the JSON encoder: a file is refused exactly because of an entry that is refused.\<close>

definition sound_step :: "('k list \<Rightarrow> string option) \<Rightarrow> ('k \<Rightarrow> bool) \<Rightarrow> 'k announcePersistTap \<Rightarrow> 'k announcePersistTap \<Rightarrow> bool" where
  "sound_step marshalAll marshals s t \<longleftrightarrow>
     (\<forall>ks. marshalAll ks = None \<longleftrightarrow> list_all marshals ks) \<and> persist_step marshalAll marshals s t"

interpretation persist_sys: step_system persist_init "sound_step marshalAll marshals" "persist_ok marshals"
  for marshalAll :: "'k list \<Rightarrow> string option" and marshals :: "'k \<Rightarrow> bool"
proof
  fix s t :: "'k announcePersistTap"
  show "persist_ok marshals s" if "persist_init s"
    using that by (auto simp: persist_init_def newAnnouncePersistTap_def persist_ok_def)
  show "persist_ok marshals t" if "persist_ok marshals s" "sound_step marshalAll marshals s t"
    using that persist_ok_step by (auto simp: sound_step_def)
qed

lemma sound_reaches:
  assumes "\<And>ks. marshalAll ks = None \<longleftrightarrow> list_all marshals ks"
  shows "reaches (persist_step marshalAll marshals) s t \<Longrightarrow> reaches (sound_step marshalAll marshals) s t"
  by (induction rule: reaches.induct) (auto simp: sound_step_def assms intro: reaches.intros)

lemma load_fold:
  "fold (\<lambda>e (kept, dropped). case e of None \<Rightarrow> (kept, dropped)
     | Some k \<Rightarrow> if seen k < cutoff then (kept, Suc dropped) else (kept @ [k], dropped)) (map Some ks) (acc, n) =
   (acc @ filter (\<lambda>k. \<not> seen k < cutoff) ks, n + length (filter (\<lambda>k. seen k < cutoff) ks))"
  by (induction ks arbitrary: acc n) simp_all

text \<open>
  C39: What a restart finds. Whenever the loop waits for the next announce, the handler has been called for every announce
  taken in so far, and its last write went through, or the loop has
  stopped with nothing taken in since its last snapshot, the file restores exactly the peers known in memory that
  JSON can express and that were heard in the last thirty days: no announce is lost in the debounce, and one
  entry that cannot be encoded does not cost the others.
\<close>
theorem announces_survive_restart:
  assumes "\<And>ks. marshalAll ks = None \<longleftrightarrow> list_all marshals ks"
    and "persist_init s0" and "reaches (persist_step marshalAll marshals) s0 s" and "lastErr s = Some None"
    and "(phase s = Idle \<and> \<not> kick s \<and> owed s = 0) \<or> (phase s = Stopped \<and> \<not> unsaved s)"
  shows "\<exists>n. announce_load seen now (afile s) =
    Inr (filter (\<lambda>k. marshals k \<and> now - 30 * 24 * Hour \<le> seen k) (known s), n)"
proof -
  have "persist_ok marshals s"
    using persist_sys.inv_reachable [OF assms(2) sound_reaches [OF assms(1,3)]] .
  with assms(4,5) have "content (afile s) = Parsed (map Some (filter marshals (known s)))" by (auto simp: persist_ok_def)
  then show ?thesis
    by (auto simp: announce_load_def load_fold announceStoreMaxAge_def filter_filter Let_def not_less conj_commute intro!: filter_cong)
qed

definition heardTwo :: "int announcePersistTap" where
  "heardTwo = \<lparr>known = [5, 7], kick = False, owed = 0, phase = Idle, afile = \<lparr>content = Parsed [Some 7], answers = []\<rparr>, unsaved = False,
     lastErr = Some None\<rparr>"

theorem announces_survive_restart_witness:
  "\<exists>n. announce_load (\<lambda>k. k) 10 (afile heardTwo) = Inr (filter (\<lambda>k. k \<noteq> 5 \<and> 10 - 30 * 24 * Hour \<le> k) [5, 7], n)"
proof -
  let ?m = "\<lambda>k::int. k \<noteq> 5" and ?a = "\<lambda>ks. if list_all (\<lambda>k::int. k \<noteq> 5) ks then None else Some ''unsupported value''"
  let ?s0 = "newAnnouncePersistTap [] \<lparr>content = Absent, answers = []\<rparr>"
  let ?t = "take_announce [5, 7] ?s0"
  let ?s1 = "OnAnnounce_persist ?t"
  let ?s2 = "?s1\<lparr>kick := False, phase := Debounce\<rparr>"
  let ?s3 = "?s2\<lparr>kick := False, phase := Drained\<rparr>"
  let ?s4 = "?s3\<lparr>phase := Writing False (known ?s3), unsaved := False\<rparr>"
  have 0: "persist_step ?a ?m ?s0 ?t" by (rule persist_step.taken)
  have 1: "persist_step ?a ?m ?t ?s1" by (rule persist_step.heard)
  have 2: "persist_step ?a ?m ?s1 ?s2"
    by (rule persist_step.wake) (simp_all add: OnAnnounce_persist_def take_announce_def newAnnouncePersistTap_def)
  have 3: "persist_step ?a ?m ?s2 ?s3" by (rule persist_step.drain) simp
  have 4: "persist_step ?a ?m ?s3 ?s4" by (rule persist_step.snapshot) simp
  have 5: "persist_step ?a ?m ?s4 heardTwo"
  proof -
    have "heardTwo = (write_now ?a ?m (known ?s3) ?s4)\<lparr>phase := (if False then Stopped else Idle)\<rparr>"
      by (simp add: heardTwo_def write_now_def announce_save_def Save_def OnAnnounce_persist_def take_announce_def newAnnouncePersistTap_def)
    moreover have "phase ?s4 = Writing False (known ?s3)" by simp
    ultimately show ?thesis using persist_step.written [of ?s4 False "known ?s3" ?a ?m] by simp
  qed
  from 0 1 2 3 4 5 have r: "reaches (persist_step ?a ?m) ?s0 heardTwo" by (meson reaches.refl reaches.step)
  have "persist_init ?s0" by (auto simp: persist_init_def)
  from announces_survive_restart [of ?a ?m, OF _ this r, of "\<lambda>k. k" 10]
  show ?thesis by (simp add: heardTwo_def)
qed

end
